theory Spec2Isabelle
  imports Main "HOL-Library.Multiset" "HOL-Library.Sublist"
begin

section \<open>Data model\<close>

text \<open>
  A post identifier is either a source message id (\<open>id: message.id\<close>) or the synthetic
  id of an album (\<open>id: `group_${groupedId}`\<close>, where an undefined \<open>groupedId\<close> would
  give \<open>group_undefined\<close>). The source uses an id only through \<open>toString()\<close> and
  template strings (\<open>post_${id}.json\<close>, the keys of the processed ledgers); the model
  keeps the id itself, which is that rendering up to injectivity.
\<close>

datatype post_id = MsgId int | GroupId "int option"

text \<open>
  The names \<open>getDocumentFilename\<close> and \<open>downloadMedia\<close> give to the files they write, and
  a media path \<open>media/<messageId>/<name>\<close>.
\<close>

datatype media_name =
    PhotoJpg int
  | WebpagePhotoJpg int
  | FileName string
  | VideoMp4 int
  | VoiceOgg int
  | AudioMp3 int
  | AnimationMp4 int
  | StickerWebp int
  | DocumentBin int

datatype media_path = MediaPath int media_name

text \<open>
  \<open>interface PostData\<close>. An optional field is an \<open>option\<close>; \<open>id\<close> and \<open>text\<close> are
  suffixed because the plain names are taken.
\<close>

record PostData =
  id_p :: post_id
  date :: "int option"
  editDate :: "int option"
  text_p :: "string option"
  media :: "media_path list"
  childMessages :: "int list option"
  replyToMsgId :: "int option"
  replyToTopId :: "int option"
  deleted :: "bool option"
  pinned :: "bool option"
  pinnedDate :: "int option"

text \<open>\<open>interface ProcessedPostMetadata\<close> of bale-sync.ts (fields prefixed with \<open>c_\<close>).\<close>

record ProcessedPostMetadata =
  c_date :: "int option"
  c_editDate :: "int option"
  c_deleted :: "bool option"
  baleMessageId :: "int option"

text \<open>JavaScript truthiness of the optional values the code tests.\<close>

definition truthy_bool :: "bool option \<Rightarrow> bool" where
  "truthy_bool b = (b = Some True)"

definition truthy_num :: "int option \<Rightarrow> bool" where
  "truthy_num n = (case n of None \<Rightarrow> False | Some k \<Rightarrow> k \<noteq> 0)"

definition truthy_str :: "string option \<Rightarrow> bool" where
  "truthy_str t = (case t of None \<Rightarrow> False | Some cs \<Rightarrow> cs \<noteq> [])"

text \<open>
  The file \<open>telegram_sync_status.json\<close>: missing, unparsable, or a JSON object whose
  \<open>status\<close> field is one of the three values the ingestion engine writes.
\<close>

datatype sync_ledger =
    InProgress int nat
  | Completed int nat nat nat
  | Failed int

datatype status_file = NoFile | Malformed | Status sync_ledger

text \<open>
  What a call of a platform's HTTP API gives back: the adapter raises (network error,
  missing media file, \<open>ok\<close> false), or it returns a response with \<open>ok\<close> true. The payload
  of the response is \<open>result\<close> (absent or present) and, inside it, \<open>message_id\<close>.
  The platform is an oracle: the n-th call of a process gets the n-th answer.
\<close>

datatype response = Raises | Returns "int option option"

type_synonym net = "nat \<Rightarrow> response"

text \<open>
  What a syncer does to the outside world, in order. \<open>Syncing\<close> and \<open>Synced\<close> are the two
  log lines of \<open>syncPost\<close>; a send carries the record it is sent for (its text is the
  caption and its \<open>pinned\<close> flag the pin argument), a delete call the id of the record
  it is issued for and the outbound message id it names.
\<close>

datatype action =
    ReadStatus
  | ReadDir
  | ReadPost post_id
  | Syncing PostData
  | SendFile PostData media_path
  | SendMessage PostData
  | Synced post_id
  | EditMessage int string
  | DeleteMessage post_id int
  | SaveProcessed
  | UnlinkPost post_id
  | UnlinkMedia media_path
  | ClearInterval
  | ProcessExit int

text \<open>
  The post files of the storage directory as \<open>readdir\<close> lists them (only the names
  \<open>post_*.json\<close> pass the filter), each with its content if it parses.
\<close>

type_synonym directory = "(post_id \<times> PostData option) list"

section \<open>What both syncers share\<close>

definition isTelegramSyncInProgress :: "status_file \<Rightarrow> bool" where
  "isTelegramSyncInProgress f =
     (case f of Status (InProgress t l) \<Rightarrow> True | _ \<Rightarrow> False)"

fun loadPosts :: "directory \<Rightarrow> PostData list" where
  "loadPosts [] = []"
| "loadPosts ((f, c) # fs) =
     (case c of Some p \<Rightarrow> p # loadPosts fs | None \<Rightarrow> loadPosts fs)"

definition dateKey :: "PostData \<Rightarrow> int" where
  "dateKey a = (case date a of None \<Rightarrow> 0 | Some d \<Rightarrow> d)"

text \<open>
  \<open>posts.sort((a, b) => dateA - dateB)\<close>: the sort of the language is stable, and the
  comparator is a total preorder on the keys, so the result is the stable sort by key.
\<close>

definition loadAndSortPosts :: "directory \<Rightarrow> PostData list" where
  "loadAndSortPosts postFiles = sort_key dateKey (loadPosts postFiles)"

definition unlinkPost :: "post_id \<Rightarrow> directory \<Rightarrow> directory" where
  "unlinkPost k d = filter (\<lambda>e. fst e \<noteq> k) d"

text \<open>
  The log line \<open>New post detected\<close> of the two watch callbacks renders
  \<open>new Date(postData.date! * 1000).toISOString()\<close>, which throws a \<open>RangeError\<close> when
  the time value is \<open>NaN\<close> (the record has no \<open>date\<close>) or beyond 8.64e15 milliseconds.
\<close>

definition toISOString_throws :: "int option \<Rightarrow> bool" where
  "toISOString_throws d =
     (case d of None \<Rightarrow> True | Some t \<Rightarrow> 8640000000000000 < \<bar>t * 1000\<bar>)"

text \<open>
  The part of a syncer process's world that both platforms have: the post files, the
  number of API calls made so far, everything done so far, whether the interval timer
  is armed and the exit code once the process has exited.
\<close>

record syncer =
  dir :: directory
  calls :: nat
  trace :: "action list"
  watching :: bool
  exited :: "int option"

definition emit :: "action \<Rightarrow> 'a syncer_scheme \<Rightarrow> 'a syncer_scheme" where
  "emit a s = s\<lparr>trace := trace s @ [a]\<rparr>"

definition readAll :: "'a syncer_scheme \<Rightarrow> 'a syncer_scheme" where
  "readAll s = s\<lparr>trace := trace s @ ReadDir # map (\<lambda>e. ReadPost (fst e)) (dir s)\<rparr>"

section \<open>The Bale syncer (bale-sync.ts)\<close>

text \<open>
  \<open>processedPosts\<close> is the map in memory, \<open>processedFile\<close> the content of
  \<open>bale_processed.json\<close> (\<open>None\<close> while the file is missing or unreadable).
\<close>

record bale = syncer +
  processedPosts :: "post_id \<rightharpoonup> ProcessedPostMetadata"
  processedFile :: "(post_id \<rightharpoonup> ProcessedPostMetadata) option"

definition bale_loadProcessedPosts :: "bale \<Rightarrow> bale" where
  "bale_loadProcessedPosts s =
     (case processedFile s of
        Some m \<Rightarrow> s\<lparr>processedPosts := m\<rparr>
      | None \<Rightarrow> s)"

definition bale_saveProcessedPosts :: "bale \<Rightarrow> bale" where
  "bale_saveProcessedPosts s =
     emit SaveProcessed (s\<lparr>processedFile := Some (processedPosts s)\<rparr>)"

text \<open>The adapter calls. The result is \<open>None\<close> when the call raises.\<close>

definition bale_sendMessage :: "net \<Rightarrow> PostData \<Rightarrow> bale \<Rightarrow> int option option option \<times> bale" where
  "bale_sendMessage nw p s =
     (let s1 = (emit (SendMessage p) s)\<lparr>calls := calls s + 1\<rparr>
      in case nw (calls s) of Raises \<Rightarrow> (None, s1) | Returns r \<Rightarrow> (Some r, s1))"

definition bale_sendFile :: "net \<Rightarrow> PostData \<Rightarrow> media_path \<Rightarrow> bale \<Rightarrow> int option option option \<times> bale" where
  "bale_sendFile nw p f s =
     (let s1 = (emit (SendFile p f) s)\<lparr>calls := calls s + 1\<rparr>
      in case nw (calls s) of Raises \<Rightarrow> (None, s1) | Returns r \<Rightarrow> (Some r, s1))"

definition bale_editMessage :: "net \<Rightarrow> int option \<Rightarrow> string option \<Rightarrow> bale \<Rightarrow> bool \<times> bale" where
  "bale_editMessage nw messageId newText s =
     (case (messageId, newText) of
        (Some m, Some t) \<Rightarrow>
          if m = 0 \<or> t = [] then (True, s)
          else
            (let s1 = (emit (EditMessage m t) s)\<lparr>calls := calls s + 1\<rparr>
             in case nw (calls s) of Raises \<Rightarrow> (False, s1) | Returns r \<Rightarrow> (True, s1))
      | _ \<Rightarrow> (True, s))"

definition bale_deleteMessage :: "net \<Rightarrow> PostData \<Rightarrow> int option \<Rightarrow> bale \<Rightarrow> bool \<times> bale" where
  "bale_deleteMessage nw p messageId s =
     (case messageId of
        None \<Rightarrow> (True, s)
      | Some m \<Rightarrow>
          if m = 0 then (True, s)
          else
            (let s1 = (emit (DeleteMessage (id_p p) m) s)\<lparr>calls := calls s + 1\<rparr>
             in case nw (calls s) of Raises \<Rightarrow> (False, s1) | Returns r \<Rightarrow> (True, s1)))"

definition bale_deletePostData :: "PostData \<Rightarrow> bale \<Rightarrow> bale" where
  "bale_deletePostData p s =
     emit (UnlinkPost (id_p p)) (s\<lparr>dir := unlinkPost (id_p p) (dir s)\<rparr>)"

definition bale_deletePostAndMedia :: "PostData \<Rightarrow> bale \<Rightarrow> bale" where
  "bale_deletePostAndMedia p s =
     (let s1 = s\<lparr>trace := trace s @ map UnlinkMedia (media p)\<rparr>
      in emit (UnlinkPost (id_p p)) (s1\<lparr>dir := unlinkPost (id_p p) (dir s1)\<rparr>))"

text \<open>
  The loop over \<open>postData.media\<close> in \<open>syncPost\<close>: every response that carries a
  \<open>result\<close> overwrites \<open>baleMessageId\<close> with its \<open>message_id\<close>.
\<close>

fun bale_sendFiles :: "net \<Rightarrow> PostData \<Rightarrow> media_path list \<Rightarrow> int option \<Rightarrow> bale \<Rightarrow> int option option \<times> bale" where
  "bale_sendFiles nw p [] mid s = (Some mid, s)"
| "bale_sendFiles nw p (f # fs) mid s =
     (case bale_sendFile nw p f s of
        (None, s1) \<Rightarrow> (None, s1)
      | (Some r, s1) \<Rightarrow>
          bale_sendFiles nw p fs (case r of None \<Rightarrow> mid | Some m \<Rightarrow> m) s1)"

definition bale_setProcessed :: "PostData \<Rightarrow> int option \<Rightarrow> bale \<Rightarrow> bale" where
  "bale_setProcessed p mid s =
     s\<lparr>processedPosts := (processedPosts s)(id_p p \<mapsto>
          \<lparr>c_date = date p, c_editDate = editDate p, c_deleted = deleted p,
           baleMessageId = mid\<rparr>)\<rparr>"

text \<open>\<open>syncPost\<close>; the boolean is False when it re-throws.\<close>

definition bale_syncPost :: "net \<Rightarrow> PostData \<Rightarrow> bale \<Rightarrow> bool \<times> bale" where
  "bale_syncPost nw p s0 =
     (let s = emit (Syncing p) s0;
          sent =
            (if media p \<noteq> [] then bale_sendFiles nw p (media p) None s
             else if truthy_str (text_p p) then
               (case bale_sendMessage nw p s of
                  (None, s1) \<Rightarrow> (None, s1)
                | (Some r, s1) \<Rightarrow> (Some (case r of None \<Rightarrow> None | Some m \<Rightarrow> m), s1))
             else (Some None, s))
      in case sent of
           (None, s1) \<Rightarrow> (False, s1)
         | (Some mid, s1) \<Rightarrow>
             (True,
              bale_deletePostAndMedia p
                (emit (Synced (id_p p))
                  (bale_saveProcessedPosts (bale_setProcessed p mid s1)))))"

text \<open>The loop of \<open>syncExistingPosts\<close>.\<close>

fun bale_syncExistingLoop :: "net \<Rightarrow> PostData list \<Rightarrow> bale \<Rightarrow> bool \<times> bale" where
  "bale_syncExistingLoop nw [] s = (True, s)"
| "bale_syncExistingLoop nw (p # ps) s =
     (if \<not> truthy_bool (deleted p) \<and> processedPosts s (id_p p) = None then
        (case bale_syncPost nw p s of
           (False, s1) \<Rightarrow> (False, s1)
         | (True, s1) \<Rightarrow> bale_syncExistingLoop nw ps s1)
      else bale_syncExistingLoop nw ps s)"

definition bale_syncExistingPosts :: "net \<Rightarrow> bale \<Rightarrow> bool \<times> bale" where
  "bale_syncExistingPosts nw s =
     bale_syncExistingLoop nw (loadAndSortPosts (dir s)) (readAll s)"

text \<open>
  The body of the \<open>for\<close> loop of the watch callback, for one record; the boolean is
  False when the body throws: a call of the API raises, or the log line of a new record
  does.
\<close>

definition bale_watchPost :: "net \<Rightarrow> PostData \<Rightarrow> bale \<Rightarrow> bool \<times> bale" where
  "bale_watchPost nw p s =
     (case processedPosts s (id_p p) of
        None \<Rightarrow>
          if \<not> truthy_bool (deleted p) then
            if toISOString_throws (date p) then (False, s) else bale_syncPost nw p s
          else
            (True,
             bale_deletePostData p
               (bale_saveProcessedPosts (bale_setProcessed p None s)))
      | Some cachedMetadata \<Rightarrow>
          if c_editDate cachedMetadata \<noteq> editDate p \<or> c_deleted cachedMetadata \<noteq> deleted p then
            if truthy_bool (deleted p) \<and> \<not> truthy_bool (c_deleted cachedMetadata) then
              (case bale_deleteMessage nw p (baleMessageId cachedMetadata) s of
                 (False, s1) \<Rightarrow> (False, s1)
               | (True, s1) \<Rightarrow>
                   (True,
                    bale_deletePostData p
                      (bale_saveProcessedPosts
                        (bale_setProcessed p (baleMessageId cachedMetadata) s1))))
            else if editDate p \<noteq> c_editDate cachedMetadata \<and> \<not> truthy_bool (deleted p) then
              (True,
               bale_deletePostData p
                 (bale_saveProcessedPosts
                   (bale_setProcessed p (baleMessageId cachedMetadata) s)))
            else (True, s)
          else (True, bale_deletePostData p s))"

fun bale_watchLoop :: "net \<Rightarrow> PostData list \<Rightarrow> bale \<Rightarrow> bool \<times> bale" where
  "bale_watchLoop nw [] s = (True, s)"
| "bale_watchLoop nw (p # ps) s =
     (case bale_watchPost nw p s of
        (False, s1) \<Rightarrow> (False, s1)
      | (True, s1) \<Rightarrow> bale_watchLoop nw ps s1)"

text \<open>The \<open>catch\<close> of the watch callback.\<close>

definition bale_fatal :: "bale \<Rightarrow> bale" where
  "bale_fatal s =
     (emit (ProcessExit 1) (bale_saveProcessedPosts ((emit ClearInterval s)\<lparr>watching := False\<rparr>)))
       \<lparr>exited := Some 1\<rparr>"

text \<open>One run of the callback that \<open>startWatching\<close> hands to \<open>setInterval\<close>.\<close>

definition bale_watchCycle :: "net \<Rightarrow> status_file \<Rightarrow> bale \<Rightarrow> bale" where
  "bale_watchCycle nw st s =
     (let s0 = emit ReadStatus s
      in if isTelegramSyncInProgress st then s0
         else
           (case bale_watchLoop nw (loadAndSortPosts (dir s0)) (readAll s0) of
              (True, s1) \<Rightarrow> s1
            | (False, s1) \<Rightarrow> bale_fatal s1))"

section \<open>The Eitaa syncer (eitaa-sync.ts)\<close>

text \<open>
  \<open>eitaaProcessed\<close> is the set \<open>processedPosts\<close> in memory, \<open>eitaaFile\<close> the content of
  \<open>eitaa_processed.json\<close>.
\<close>

record eitaa = syncer +
  eitaaProcessed :: "post_id set"
  eitaaFile :: "post_id set option"

definition eitaa_loadProcessedPosts :: "eitaa \<Rightarrow> eitaa" where
  "eitaa_loadProcessedPosts s =
     (case eitaaFile s of
        Some m \<Rightarrow> s\<lparr>eitaaProcessed := m\<rparr>
      | None \<Rightarrow> s)"

definition eitaa_saveProcessedPosts :: "eitaa \<Rightarrow> eitaa" where
  "eitaa_saveProcessedPosts s =
     emit SaveProcessed (s\<lparr>eitaaFile := Some (eitaaProcessed s)\<rparr>)"

definition eitaa_sendMessage :: "net \<Rightarrow> PostData \<Rightarrow> eitaa \<Rightarrow> bool \<times> eitaa" where
  "eitaa_sendMessage nw p s =
     (let s1 = (emit (SendMessage p) s)\<lparr>calls := calls s + 1\<rparr>
      in case nw (calls s) of Raises \<Rightarrow> (False, s1) | Returns r \<Rightarrow> (True, s1))"

definition eitaa_sendFile :: "net \<Rightarrow> PostData \<Rightarrow> media_path \<Rightarrow> eitaa \<Rightarrow> bool \<times> eitaa" where
  "eitaa_sendFile nw p f s =
     (let s1 = (emit (SendFile p f) s)\<lparr>calls := calls s + 1\<rparr>
      in case nw (calls s) of Raises \<Rightarrow> (False, s1) | Returns r \<Rightarrow> (True, s1))"

fun eitaa_sendFiles :: "net \<Rightarrow> PostData \<Rightarrow> media_path list \<Rightarrow> eitaa \<Rightarrow> bool \<times> eitaa" where
  "eitaa_sendFiles nw p [] s = (True, s)"
| "eitaa_sendFiles nw p (f # fs) s =
     (case eitaa_sendFile nw p f s of
        (False, s1) \<Rightarrow> (False, s1)
      | (True, s1) \<Rightarrow> eitaa_sendFiles nw p fs s1)"

definition eitaa_deletePostAndMedia :: "PostData \<Rightarrow> eitaa \<Rightarrow> eitaa" where
  "eitaa_deletePostAndMedia p s =
     (let s1 = s\<lparr>trace := trace s @ map UnlinkMedia (media p)\<rparr>
      in emit (UnlinkPost (id_p p)) (s1\<lparr>dir := unlinkPost (id_p p) (dir s1)\<rparr>))"

definition eitaa_syncPost :: "net \<Rightarrow> PostData \<Rightarrow> eitaa \<Rightarrow> bool \<times> eitaa" where
  "eitaa_syncPost nw p s0 =
     (let s = emit (Syncing p) s0;
          sent =
            (if media p \<noteq> [] then eitaa_sendFiles nw p (media p) s
             else if truthy_str (text_p p) then eitaa_sendMessage nw p s
             else (True, s))
      in case sent of
           (False, s1) \<Rightarrow> (False, s1)
         | (True, s1) \<Rightarrow>
             (True,
              eitaa_deletePostAndMedia p
                (emit (Synced (id_p p))
                  (eitaa_saveProcessedPosts
                    (s1\<lparr>eitaaProcessed := insert (id_p p) (eitaaProcessed s1)\<rparr>)))))"

fun eitaa_syncExistingLoop :: "net \<Rightarrow> PostData list \<Rightarrow> eitaa \<Rightarrow> bool \<times> eitaa" where
  "eitaa_syncExistingLoop nw [] s = (True, s)"
| "eitaa_syncExistingLoop nw (p # ps) s =
     (if \<not> truthy_bool (deleted p) \<and> id_p p \<notin> eitaaProcessed s then
        (case eitaa_syncPost nw p s of
           (False, s1) \<Rightarrow> (False, s1)
         | (True, s1) \<Rightarrow> eitaa_syncExistingLoop nw ps s1)
      else eitaa_syncExistingLoop nw ps s)"

definition eitaa_syncExistingPosts :: "net \<Rightarrow> eitaa \<Rightarrow> bool \<times> eitaa" where
  "eitaa_syncExistingPosts nw s =
     eitaa_syncExistingLoop nw (loadAndSortPosts (dir s)) (readAll s)"

text \<open>
  The loop of the watch callback over \<open>unprocessedPosts\<close>, which is filtered beforehand;
  the log line comes before \<open>syncPost\<close>.
\<close>

fun eitaa_watchLoop :: "net \<Rightarrow> PostData list \<Rightarrow> eitaa \<Rightarrow> bool \<times> eitaa" where
  "eitaa_watchLoop nw [] s = (True, s)"
| "eitaa_watchLoop nw (p # ps) s =
     (if toISOString_throws (date p) then (False, s)
      else
        (case eitaa_syncPost nw p s of
           (False, s1) \<Rightarrow> (False, s1)
         | (True, s1) \<Rightarrow> eitaa_watchLoop nw ps s1))"

definition eitaa_fatal :: "eitaa \<Rightarrow> eitaa" where
  "eitaa_fatal s =
     (emit (ProcessExit 1) (eitaa_saveProcessedPosts ((emit ClearInterval s)\<lparr>watching := False\<rparr>)))
       \<lparr>exited := Some 1\<rparr>"

definition eitaa_watchCycle :: "net \<Rightarrow> status_file \<Rightarrow> eitaa \<Rightarrow> eitaa" where
  "eitaa_watchCycle nw st s =
     (let s0 = emit ReadStatus s
      in if isTelegramSyncInProgress st then s0
         else
           (let s1 = readAll s0;
                newPosts = loadAndSortPosts (dir s0);
                unprocessedPosts =
                  filter (\<lambda>postData. \<not> truthy_bool (deleted postData)
                            \<and> id_p postData \<notin> eitaaProcessed s1) newPosts
            in case eitaa_watchLoop nw unprocessedPosts s1 of
                 (True, s2) \<Rightarrow> s2
               | (False, s2) \<Rightarrow> eitaa_fatal s2))"

section \<open>Syncer processes\<close>

text \<open>
  Two kinds of events start work in a syncer process. \<open>Start d\<close>: a new process is started
  (the previous one, if any, is gone) while the directory holds \<open>d\<close>; it runs \<open>start()\<close>:
  the ledger is loaded into an empty memory, the existing posts are synced, the interval
  is armed. An exception leaves \<open>start()\<close> and the main module exits with code 1.
  \<open>Tick st d\<close>: the interval fires while the status file reads \<open>st\<close> and the directory
  holds \<open>d\<close>. The ingestion engine and the other syncer change the directory between
  events, so each event brings the directory it finds. \<open>waitForTelegramSync\<close>, which only
  polls the status file against the clock, is left out.

  \<open>bale_step\<close> and \<open>eitaa_step\<close> give what one event does when its work runs alone, from
  its beginning to its end: this is so for \<open>start()\<close>, during which no timer is armed, and
  for a watch callback that ends before the interval fires again. \<open>setInterval\<close> does not
  wait for the callback, though; callbacks that overlap are the subject of the next
  section.
\<close>

datatype event = Start directory | Tick status_file directory

definition bale_start :: "net \<Rightarrow> directory \<Rightarrow> bale \<Rightarrow> bale" where
  "bale_start nw d s =
     (let s0 = bale_loadProcessedPosts
                 (s\<lparr>dir := d, watching := False, exited := None, processedPosts := Map.empty\<rparr>)
      in case bale_syncExistingPosts nw s0 of
           (True, s1) \<Rightarrow> s1\<lparr>watching := True\<rparr>
         | (False, s1) \<Rightarrow> (emit (ProcessExit 1) s1)\<lparr>exited := Some 1\<rparr>)"

fun bale_step :: "net \<Rightarrow> bale \<Rightarrow> event \<Rightarrow> bale" where
  "bale_step nw s (Start d) = bale_start nw d s"
| "bale_step nw s (Tick st d) =
     (if watching s \<and> exited s = None then bale_watchCycle nw st (s\<lparr>dir := d\<rparr>) else s)"

definition eitaa_start :: "net \<Rightarrow> directory \<Rightarrow> eitaa \<Rightarrow> eitaa" where
  "eitaa_start nw d s =
     (let s0 = eitaa_loadProcessedPosts
                 (s\<lparr>dir := d, watching := False, exited := None, eitaaProcessed := {}\<rparr>)
      in case eitaa_syncExistingPosts nw s0 of
           (True, s1) \<Rightarrow> s1\<lparr>watching := True\<rparr>
         | (False, s1) \<Rightarrow> (emit (ProcessExit 1) s1)\<lparr>exited := Some 1\<rparr>)"

fun eitaa_step :: "net \<Rightarrow> eitaa \<Rightarrow> event \<Rightarrow> eitaa" where
  "eitaa_step nw s (Start d) = eitaa_start nw d s"
| "eitaa_step nw s (Tick st d) =
     (if watching s \<and> exited s = None then eitaa_watchCycle nw st (s\<lparr>dir := d\<rparr>) else s)"

section \<open>Watch callbacks that overlap\<close>

text \<open>
  \<open>setInterval(async () => ..., 5000)\<close> starts the callback every 5 s, whether or not the
  call before has ended, and a callback gives up control at each \<open>await\<close>; there is no
  guard against re-entry. A callback in flight is a \<open>task\<close>: the operation it has issued
  and is waiting for, with what it needs to go on (the record in hand, the media paths
  still to handle, \<open>baleMessageId\<close> so far, the rest of the list the \<open>for\<close> loop runs
  over, the answer of the platform). An operation takes effect when it is issued; the
  code after the \<open>await\<close> runs when the task is resumed, up to the next \<open>await\<close>.
  \<open>readdir\<close> with the reads of \<open>loadAndSortPosts\<close> counts as one operation, and so does
  what goes on inside one adapter call. The two waits (\<open>setTimeout\<close>, 500 ms after a
  file and 1000 ms after \<open>syncPost\<close>) are operations without effect.
\<close>

datatype task =
    Await_status status_file
  | Await_load "PostData list"
  | Await_sendFile PostData "media_path list" "int option" "PostData list" response
  | Await_fileDelay PostData "media_path list" "int option" "PostData list"
  | Await_sendMessage PostData "PostData list" response
  | Await_saveSynced PostData "PostData list"
  | Await_unlinkMedia PostData "media_path list" "PostData list"
  | Await_unlinkSynced "PostData list"
  | Await_rateLimit "PostData list"
  | Await_deleteMessage PostData "int option" "PostData list" response
  | Await_saveMarked PostData "PostData list"
  | Await_unlinkPost "PostData list"
  | Await_saveFatal
  | Finished

text \<open>
  The \<open>catch\<close> of the Bale callback up to its \<open>await this.saveProcessedPosts()\<close>, and
  \<open>process.exit(1)\<close> after it.
\<close>

definition bale_catch :: "bale \<Rightarrow> task \<times> bale" where
  "bale_catch s =
     (Await_saveFatal, bale_saveProcessedPosts ((emit ClearInterval s)\<lparr>watching := False\<rparr>))"

definition bale_exit :: "bale \<Rightarrow> bale" where
  "bale_exit s = (emit (ProcessExit 1) s)\<lparr>exited := Some 1\<rparr>"

text \<open>
  The pieces of \<open>syncPost\<close>: a \<open>sendFile\<close> is issued; the ledger entry is set and
  \<open>saveProcessedPosts\<close> issued; \<open>syncPost\<close> is entered, up to its first \<open>await\<close>; the
  next \<open>unlink\<close> of \<open>deletePostAndMedia\<close> is issued.
\<close>

definition bale_issueFile ::
  "net \<Rightarrow> PostData \<Rightarrow> media_path \<Rightarrow> media_path list \<Rightarrow> int option \<Rightarrow> PostData list \<Rightarrow> bale
     \<Rightarrow> task \<times> bale" where
  "bale_issueFile nw p f fs mid ps s =
     (Await_sendFile p fs mid ps (nw (calls s)),
      (emit (SendFile p f) s)\<lparr>calls := calls s + 1\<rparr>)"

definition bale_record :: "PostData \<Rightarrow> int option \<Rightarrow> PostData list \<Rightarrow> bale \<Rightarrow> task \<times> bale" where
  "bale_record p mid ps s =
     (Await_saveSynced p ps, bale_saveProcessedPosts (bale_setProcessed p mid s))"

definition bale_enter :: "net \<Rightarrow> PostData \<Rightarrow> PostData list \<Rightarrow> bale \<Rightarrow> task \<times> bale" where
  "bale_enter nw p ps s0 =
     (let s = emit (Syncing p) s0
      in case media p of
           f # fs \<Rightarrow> bale_issueFile nw p f fs None ps s
         | [] \<Rightarrow>
             if truthy_str (text_p p) then
               (Await_sendMessage p ps (nw (calls s)),
                (emit (SendMessage p) s)\<lparr>calls := calls s + 1\<rparr>)
             else bale_record p None ps s)"

fun bale_unlinkNext :: "PostData \<Rightarrow> media_path list \<Rightarrow> PostData list \<Rightarrow> bale \<Rightarrow> task \<times> bale" where
  "bale_unlinkNext p [] ps s =
     (Await_unlinkSynced ps,
      emit (UnlinkPost (id_p p)) (s\<lparr>dir := unlinkPost (id_p p) (dir s)\<rparr>))"
| "bale_unlinkNext p (f # fs) ps s = (Await_unlinkMedia p fs ps, emit (UnlinkMedia f) s)"

text \<open>
  The branches of the watch loop that set the ledger entry and issue
  \<open>saveProcessedPosts\<close>, and the head of the \<open>for\<close> loop: the code from the top of an
  iteration to the next \<open>await\<close>. \<open>deleteMessage\<close> without a message id returns at once.
\<close>

definition bale_mark :: "PostData \<Rightarrow> int option \<Rightarrow> PostData list \<Rightarrow> bale \<Rightarrow> task \<times> bale" where
  "bale_mark p mid ps s =
     (Await_saveMarked p ps, bale_saveProcessedPosts (bale_setProcessed p mid s))"

fun bale_next :: "net \<Rightarrow> PostData list \<Rightarrow> bale \<Rightarrow> task \<times> bale" where
  "bale_next nw [] s = (Finished, s)"
| "bale_next nw (p # ps) s =
     (case processedPosts s (id_p p) of
        None \<Rightarrow>
          if \<not> truthy_bool (deleted p) then
            if toISOString_throws (date p) then bale_catch s else bale_enter nw p ps s
          else bale_mark p None ps s
      | Some cachedMetadata \<Rightarrow>
          if c_editDate cachedMetadata \<noteq> editDate p \<or> c_deleted cachedMetadata \<noteq> deleted p then
            if truthy_bool (deleted p) \<and> \<not> truthy_bool (c_deleted cachedMetadata) then
              (case baleMessageId cachedMetadata of
                 None \<Rightarrow> bale_mark p None ps s
               | Some m \<Rightarrow>
                   if m = 0 then bale_mark p (Some m) ps s
                   else
                     (Await_deleteMessage p (Some m) ps (nw (calls s)),
                      (emit (DeleteMessage (id_p p) m) s)\<lparr>calls := calls s + 1\<rparr>))
            else if editDate p \<noteq> c_editDate cachedMetadata \<and> \<not> truthy_bool (deleted p) then
              bale_mark p (baleMessageId cachedMetadata) ps s
            else bale_next nw ps s
          else (Await_unlinkPost ps, bale_deletePostData p s))"

text \<open>A task of the Bale process is resumed: from the answer it waited for to the next \<open>await\<close>.\<close>

fun bale_resume :: "net \<Rightarrow> task \<Rightarrow> bale \<Rightarrow> task \<times> bale" where
  "bale_resume nw (Await_status st) s =
     (if isTelegramSyncInProgress st then (Finished, s)
      else (Await_load (loadAndSortPosts (dir s)), readAll s))"
| "bale_resume nw (Await_load ps) s = bale_next nw ps s"
| "bale_resume nw (Await_sendFile p fs mid ps r) s =
     (case r of
        Raises \<Rightarrow> bale_catch s
      | Returns x \<Rightarrow> (Await_fileDelay p fs (case x of None \<Rightarrow> mid | Some m \<Rightarrow> m) ps, s))"
| "bale_resume nw (Await_fileDelay p fs mid ps) s =
     (case fs of
        [] \<Rightarrow> bale_record p mid ps s
      | f # fs' \<Rightarrow> bale_issueFile nw p f fs' mid ps s)"
| "bale_resume nw (Await_sendMessage p ps r) s =
     (case r of
        Raises \<Rightarrow> bale_catch s
      | Returns x \<Rightarrow> bale_record p (case x of None \<Rightarrow> None | Some m \<Rightarrow> m) ps s)"
| "bale_resume nw (Await_saveSynced p ps) s =
     bale_unlinkNext p (media p) ps (emit (Synced (id_p p)) s)"
| "bale_resume nw (Await_unlinkMedia p fs ps) s = bale_unlinkNext p fs ps s"
| "bale_resume nw (Await_unlinkSynced ps) s = (Await_rateLimit ps, s)"
| "bale_resume nw (Await_rateLimit ps) s = bale_next nw ps s"
| "bale_resume nw (Await_deleteMessage p mid ps r) s =
     (case r of
        Raises \<Rightarrow> bale_catch s
      | Returns x \<Rightarrow> bale_mark p mid ps s)"
| "bale_resume nw (Await_saveMarked p ps) s = (Await_unlinkPost ps, bale_deletePostData p s)"
| "bale_resume nw (Await_unlinkPost ps) s = bale_next nw ps s"
| "bale_resume nw Await_saveFatal s = (Finished, bale_exit s)"
| "bale_resume nw Finished s = (Finished, s)"

text \<open>
  A process with its tasks in flight, and what moves it: an event happens (the timer
  fires only while it is armed, and the new callback runs up to its first \<open>await\<close>, the
  read of the status file), or the task number \<open>i\<close> is resumed. Nothing runs in a process
  that has exited.
\<close>

datatype turn = Happens event | Resumes nat

fun bale_turn :: "net \<Rightarrow> bale \<times> task list \<Rightarrow> turn \<Rightarrow> bale \<times> task list" where
  "bale_turn nw (s, ts) (Happens (Start d)) = (bale_start nw d s, [])"
| "bale_turn nw (s, ts) (Happens (Tick st d)) =
     (if watching s \<and> exited s = None
      then (emit ReadStatus (s\<lparr>dir := d\<rparr>), ts @ [Await_status st])
      else (s, ts))"
| "bale_turn nw (s, ts) (Resumes i) =
     (if exited s = None \<and> i < length ts then
        (case bale_resume nw (ts ! i) s of (t, s') \<Rightarrow> (s', ts[i := t]))
      else (s, ts))"

definition bale_overlap :: "net \<Rightarrow> turn list \<Rightarrow> bale \<times> task list \<Rightarrow> bale \<times> task list" where
  "bale_overlap nw turns P = foldl (bale_turn nw) P turns"

text \<open>
  The same for the Eitaa process, whose callback filters the loaded records once, when
  they are loaded, and has no branch for a record it knows: the tasks \<open>Await_deleteMessage\<close>,
  \<open>Await_saveMarked\<close> and \<open>Await_unlinkPost\<close> do not occur, and a task carries no message id.
\<close>

definition eitaa_catch :: "eitaa \<Rightarrow> task \<times> eitaa" where
  "eitaa_catch s =
     (Await_saveFatal, eitaa_saveProcessedPosts ((emit ClearInterval s)\<lparr>watching := False\<rparr>))"

definition eitaa_exit :: "eitaa \<Rightarrow> eitaa" where
  "eitaa_exit s = (emit (ProcessExit 1) s)\<lparr>exited := Some 1\<rparr>"

definition eitaa_issueFile ::
  "net \<Rightarrow> PostData \<Rightarrow> media_path \<Rightarrow> media_path list \<Rightarrow> PostData list \<Rightarrow> eitaa \<Rightarrow> task \<times> eitaa" where
  "eitaa_issueFile nw p f fs ps s =
     (Await_sendFile p fs None ps (nw (calls s)),
      (emit (SendFile p f) s)\<lparr>calls := calls s + 1\<rparr>)"

definition eitaa_record :: "PostData \<Rightarrow> PostData list \<Rightarrow> eitaa \<Rightarrow> task \<times> eitaa" where
  "eitaa_record p ps s =
     (Await_saveSynced p ps,
      eitaa_saveProcessedPosts (s\<lparr>eitaaProcessed := insert (id_p p) (eitaaProcessed s)\<rparr>))"

definition eitaa_enter :: "net \<Rightarrow> PostData \<Rightarrow> PostData list \<Rightarrow> eitaa \<Rightarrow> task \<times> eitaa" where
  "eitaa_enter nw p ps s0 =
     (let s = emit (Syncing p) s0
      in case media p of
           f # fs \<Rightarrow> eitaa_issueFile nw p f fs ps s
         | [] \<Rightarrow>
             if truthy_str (text_p p) then
               (Await_sendMessage p ps (nw (calls s)),
                (emit (SendMessage p) s)\<lparr>calls := calls s + 1\<rparr>)
             else eitaa_record p ps s)"

fun eitaa_unlinkNext :: "PostData \<Rightarrow> media_path list \<Rightarrow> PostData list \<Rightarrow> eitaa \<Rightarrow> task \<times> eitaa" where
  "eitaa_unlinkNext p [] ps s =
     (Await_unlinkSynced ps,
      emit (UnlinkPost (id_p p)) (s\<lparr>dir := unlinkPost (id_p p) (dir s)\<rparr>))"
| "eitaa_unlinkNext p (f # fs) ps s = (Await_unlinkMedia p fs ps, emit (UnlinkMedia f) s)"

fun eitaa_next :: "net \<Rightarrow> PostData list \<Rightarrow> eitaa \<Rightarrow> task \<times> eitaa" where
  "eitaa_next nw [] s = (Finished, s)"
| "eitaa_next nw (p # ps) s =
     (if toISOString_throws (date p) then eitaa_catch s else eitaa_enter nw p ps s)"

fun eitaa_resume :: "net \<Rightarrow> task \<Rightarrow> eitaa \<Rightarrow> task \<times> eitaa" where
  "eitaa_resume nw (Await_status st) s =
     (if isTelegramSyncInProgress st then (Finished, s)
      else (Await_load (loadAndSortPosts (dir s)), readAll s))"
| "eitaa_resume nw (Await_load newPosts) s =
     eitaa_next nw
       (filter (\<lambda>postData. \<not> truthy_bool (deleted postData)
                  \<and> id_p postData \<notin> eitaaProcessed s) newPosts) s"
| "eitaa_resume nw (Await_sendFile p fs mid ps r) s =
     (case r of
        Raises \<Rightarrow> eitaa_catch s
      | Returns x \<Rightarrow> (Await_fileDelay p fs None ps, s))"
| "eitaa_resume nw (Await_fileDelay p fs mid ps) s =
     (case fs of
        [] \<Rightarrow> eitaa_record p ps s
      | f # fs' \<Rightarrow> eitaa_issueFile nw p f fs' ps s)"
| "eitaa_resume nw (Await_sendMessage p ps r) s =
     (case r of
        Raises \<Rightarrow> eitaa_catch s
      | Returns x \<Rightarrow> eitaa_record p ps s)"
| "eitaa_resume nw (Await_saveSynced p ps) s =
     eitaa_unlinkNext p (media p) ps (emit (Synced (id_p p)) s)"
| "eitaa_resume nw (Await_unlinkMedia p fs ps) s = eitaa_unlinkNext p fs ps s"
| "eitaa_resume nw (Await_unlinkSynced ps) s = (Await_rateLimit ps, s)"
| "eitaa_resume nw (Await_rateLimit ps) s = eitaa_next nw ps s"
| "eitaa_resume nw Await_saveFatal s = (Finished, eitaa_exit s)"
| "eitaa_resume nw (Await_deleteMessage p mid ps r) s = (Finished, s)"
| "eitaa_resume nw (Await_saveMarked p ps) s = (Finished, s)"
| "eitaa_resume nw (Await_unlinkPost ps) s = (Finished, s)"
| "eitaa_resume nw Finished s = (Finished, s)"

fun eitaa_turn :: "net \<Rightarrow> eitaa \<times> task list \<Rightarrow> turn \<Rightarrow> eitaa \<times> task list" where
  "eitaa_turn nw (s, ts) (Happens (Start d)) = (eitaa_start nw d s, [])"
| "eitaa_turn nw (s, ts) (Happens (Tick st d)) =
     (if watching s \<and> exited s = None
      then (emit ReadStatus (s\<lparr>dir := d\<rparr>), ts @ [Await_status st])
      else (s, ts))"
| "eitaa_turn nw (s, ts) (Resumes i) =
     (if exited s = None \<and> i < length ts then
        (case eitaa_resume nw (ts ! i) s of (t, s') \<Rightarrow> (s', ts[i := t]))
      else (s, ts))"

definition eitaa_overlap :: "net \<Rightarrow> turn list \<Rightarrow> eitaa \<times> task list \<Rightarrow> eitaa \<times> task list" where
  "eitaa_overlap nw turns P = foldl (eitaa_turn nw) P turns"

section \<open>The ingestion engine (index.ts, class TelegramChannelSync)\<close>

text \<open>
  A source message, as far as the engine reads it: \<open>id\<close>, \<open>date\<close>, \<open>editDate\<close>, \<open>text\<close>,
  \<open>groupedId\<close>, \<open>replyTo\<close>, \<open>media\<close>, and whether \<open>peerId\<close> is a channel.
\<close>

datatype reply = MessageReplyHeader "int option" "int option" | OtherReply

datatype attribute =
    DocumentAttributeFilename string
  | DocumentAttributeVideo
  | DocumentAttributeAudio bool
  | DocumentAttributeAnimated
  | DocumentAttributeSticker
  | OtherAttribute

datatype photo = Photo int | PhotoEmpty

datatype document = Document int "attribute list" | DocumentEmpty

datatype webpage = WebPage "photo option" | OtherWebPage

datatype message_media =
    MessageMediaPhoto "photo option"
  | MessageMediaDocument "document option"
  | MessageMediaWebPage webpage
  | OtherMedia

record Message =
  m_id :: int
  m_date :: int
  m_editDate :: "int option"
  m_text :: string
  groupedId :: "int option"
  replyTo :: "reply option"
  m_media :: "message_media option"
  peerIsChannel :: bool

text \<open>
  The storage directory as the engine uses it: the post files by id, the directories
  \<open>media/<messageId>\<close> and the media files with their modification times, the status
  file; and, in memory, the buffer \<open>mediaGroups\<close>. \<open>clock\<close> is \<open>Date.now()\<close>, in
  milliseconds; the modification time of a media file is kept in seconds, as
  \<open>shouldDownloadFile\<close> reads it.
  File operations and media downloads are taken to succeed.
\<close>

record engine =
  posts :: "post_id \<rightharpoonup> PostData"
  mediaDirs :: "int set"
  mediaFiles :: "media_path \<rightharpoonup> int"
  mediaGroups :: "int \<rightharpoonup> Message list"
  syncStatus :: status_file
  clock :: int

definition savePostData :: "PostData \<Rightarrow> engine \<Rightarrow> engine" where
  "savePostData data e = e\<lparr>posts := (posts e)(id_p data \<mapsto> data)\<rparr>"

definition getExistingPostData :: "post_id \<Rightarrow> engine \<Rightarrow> PostData option" where
  "getExistingPostData postId e = posts e postId"

definition shouldDownloadFile :: "media_path \<Rightarrow> int \<Rightarrow> engine \<Rightarrow> bool" where
  "shouldDownloadFile filePath messageEditDate e =
     (case mediaFiles e filePath of
        Some fileModTime \<Rightarrow> messageEditDate > fileModTime
      | None \<Rightarrow> True)"

fun firstFilename :: "attribute list \<Rightarrow> string option" where
  "firstFilename [] = None"
| "firstFilename (DocumentAttributeFilename n # as) = Some n"
| "firstFilename (a # as) = firstFilename as"

fun generatedName :: "int \<Rightarrow> attribute list \<Rightarrow> media_name option" where
  "generatedName d [] = None"
| "generatedName d (DocumentAttributeVideo # as) = Some (VideoMp4 d)"
| "generatedName d (DocumentAttributeAudio voice # as) =
     Some (if voice then VoiceOgg d else AudioMp3 d)"
| "generatedName d (DocumentAttributeAnimated # as) = Some (AnimationMp4 d)"
| "generatedName d (DocumentAttributeSticker # as) = Some (StickerWebp d)"
| "generatedName d (a # as) = generatedName d as"

definition getDocumentFilename :: "int \<Rightarrow> attribute list \<Rightarrow> media_name" where
  "getDocumentFilename d as =
     (case firstFilename as of
        Some n \<Rightarrow> FileName n
      | None \<Rightarrow> (case generatedName d as of Some n \<Rightarrow> n | None \<Rightarrow> DocumentBin d))"

text \<open>The file \<open>downloadMedia\<close> handles for a message, if any.\<close>

definition mediaFileOf :: "Message \<Rightarrow> media_path option" where
  "mediaFileOf message =
     (case m_media message of
        Some (MessageMediaPhoto (Some (Photo i))) \<Rightarrow> Some (MediaPath (m_id message) (PhotoJpg i))
      | Some (MessageMediaDocument (Some (Document i as))) \<Rightarrow>
          Some (MediaPath (m_id message) (getDocumentFilename i as))
      | Some (MessageMediaWebPage (WebPage (Some (Photo i)))) \<Rightarrow>
          Some (MediaPath (m_id message) (WebpagePhotoJpg i))
      | _ \<Rightarrow> None)"

definition downloadMedia :: "Message \<Rightarrow> engine \<Rightarrow> media_path list \<times> engine" where
  "downloadMedia message e =
     (let e1 = e\<lparr>mediaDirs := insert (m_id message) (mediaDirs e)\<rparr>;
          messageEditDate =
            (case m_editDate message of
               Some t \<Rightarrow> if t \<noteq> 0 then t else m_date message
             | None \<Rightarrow> m_date message)
      in case mediaFileOf message of
           None \<Rightarrow> ([], e1)
         | Some filePath \<Rightarrow>
             ([filePath],
              if shouldDownloadFile filePath messageEditDate e1
              then e1\<lparr>mediaFiles := (mediaFiles e1)(filePath \<mapsto> clock e1 div 1000)\<rparr>
              else e1))"

text \<open>The reply fields that \<open>processMessage\<close> and \<open>processMediaGroup\<close> add to a record.\<close>

definition withReply :: "Message \<Rightarrow> PostData \<Rightarrow> PostData" where
  "withReply message postData =
     (case replyTo message of
        Some (MessageReplyHeader msgId topId) \<Rightarrow>
          (if truthy_num topId
           then postData\<lparr>replyToMsgId := msgId, replyToTopId := topId\<rparr>
           else postData\<lparr>replyToMsgId := msgId\<rparr>)
      | _ \<Rightarrow> postData)"

definition processMessage :: "Message \<Rightarrow> engine \<Rightarrow> engine" where
  "processMessage message e =
     (let postData = withReply message
            \<lparr>id_p = MsgId (m_id message), date = Some (m_date message),
             editDate = m_editDate message, text_p = Some (m_text message), media = [],
             childMessages = None, replyToMsgId = None, replyToTopId = None,
             deleted = None, pinned = None, pinnedDate = None\<rparr>
      in case m_media message of
           None \<Rightarrow> savePostData postData e
         | Some x \<Rightarrow>
             (case downloadMedia message e of
                (files, e1) \<Rightarrow> savePostData (postData\<lparr>media := files\<rparr>) e1))"

text \<open>The loop of \<open>processMediaGroup\<close> over the messages of the group.\<close>

fun downloadAll :: "Message list \<Rightarrow> media_path list \<Rightarrow> engine \<Rightarrow> media_path list \<times> engine" where
  "downloadAll [] acc e = (acc, e)"
| "downloadAll (message # rest) acc e =
     (case m_media message of
        None \<Rightarrow> downloadAll rest acc e
      | Some x \<Rightarrow>
          (case downloadMedia message e of
             (files, e1) \<Rightarrow> downloadAll rest (acc @ files) e1))"

definition processMediaGroup :: "Message list \<Rightarrow> engine \<Rightarrow> engine" where
  "processMediaGroup messages0 e =
     (let messages = sort_key m_id messages0
      in case messages of
           [] \<Rightarrow> e
         | mainMessage # rest \<Rightarrow>
             (let postData = withReply mainMessage
                    \<lparr>id_p = GroupId (groupedId mainMessage), date = Some (m_date mainMessage),
                     editDate = m_editDate mainMessage, text_p = Some (m_text mainMessage),
                     media = [], childMessages = Some (map m_id messages),
                     replyToMsgId = None, replyToTopId = None,
                     deleted = None, pinned = None, pinnedDate = None\<rparr>
              in case downloadAll messages [] e of
                   (files, e1) \<Rightarrow> savePostData (postData\<lparr>media := files\<rparr>) e1))"

text \<open>
  \<open>handleMediaGroup\<close> is two steps with the 500 ms wait between them: the message is
  appended to the buffer of its group when it arrives, and when its timer fires the
  group is processed if the message is still the last of a buffer of more than one
  message. Messages are compared by identity in the source and by value here.
\<close>

definition handleMediaGroup_arrive :: "Message \<Rightarrow> engine \<Rightarrow> engine" where
  "handleMediaGroup_arrive message e =
     (case groupedId message of
        None \<Rightarrow> e
      | Some groupId \<Rightarrow>
          (let group = (case mediaGroups e groupId of Some g \<Rightarrow> g | None \<Rightarrow> [])
           in e\<lparr>mediaGroups := (mediaGroups e)(groupId \<mapsto> group @ [message])\<rparr>))"

definition handleMediaGroup_wake :: "Message \<Rightarrow> engine \<Rightarrow> engine" where
  "handleMediaGroup_wake message e =
     (case groupedId message of
        None \<Rightarrow> e
      | Some groupId \<Rightarrow>
          (let currentGroup = (case mediaGroups e groupId of Some g \<Rightarrow> g | None \<Rightarrow> [])
           in if length currentGroup > 1 \<and> last currentGroup = message
              then (processMediaGroup currentGroup e)
                     \<lparr>mediaGroups := (mediaGroups (processMediaGroup currentGroup e))(groupId := None)\<rparr>
              else e))"

definition handleDeletedMessage :: "int \<Rightarrow> engine \<Rightarrow> engine" where
  "handleDeletedMessage messageId e =
     (let e1 = (case getExistingPostData (MsgId messageId) e of
                  Some existingPost \<Rightarrow> savePostData (existingPost\<lparr>deleted := Some True\<rparr>) e
                | None \<Rightarrow> e)
      in e1\<lparr>mediaDirs := mediaDirs e1 - {messageId},
            mediaFiles := (\<lambda>f. case f of MediaPath i n \<Rightarrow>
                              if i = messageId then None else mediaFiles e1 f)\<rparr>)"

text \<open>
  \<open>handlePinnedMessageById\<close>; \<open>fetched\<close> is what \<open>client.getMessages(peer, {ids})\<close> gives
  (\<open>None\<close> when it raises or finds nothing).
\<close>

definition handlePinnedMessageById :: "int \<Rightarrow> bool \<Rightarrow> Message option \<Rightarrow> engine \<Rightarrow> engine" where
  "handlePinnedMessageById messageId peerChannel fetched e =
     (if \<not> peerChannel then e
      else
        (case getExistingPostData (MsgId messageId) e of
           Some existingPost \<Rightarrow>
             savePostData (existingPost\<lparr>pinned := Some True, pinnedDate := Some (clock e div 1000)\<rparr>) e
         | None \<Rightarrow>
             (case fetched of
                None \<Rightarrow> e
              | Some message \<Rightarrow>
                  (let e1 = processMessage message e
                   in case getExistingPostData (MsgId messageId) e1 of
                        Some postData \<Rightarrow>
                          savePostData (postData\<lparr>pinned := Some True, pinnedDate := Some (clock e1 div 1000)\<rparr>) e1
                      | None \<Rightarrow> e1))))"

definition hasPostChanged :: "PostData \<Rightarrow> PostData \<Rightarrow> bool" where
  "hasPostChanged existing current = (editDate existing \<noteq> editDate current)"

text \<open>
  The loop of \<open>syncLatestPosts\<close> over the fetched messages; \<open>messages\<close> is the whole
  list, from which the messages of a group are filtered. The counters are
  \<open>newPosts\<close>, \<open>updatedPosts\<close> and \<open>skippedPosts\<close>.
\<close>

fun syncLoop :: "Message list \<Rightarrow> Message list \<Rightarrow> nat \<times> nat \<times> nat \<Rightarrow> engine
                  \<Rightarrow> (nat \<times> nat \<times> nat) \<times> engine" where
  "syncLoop messages [] c e = (c, e)"
| "syncLoop messages (message # rest) (newPosts, updatedPosts, skippedPosts) e =
     (case groupedId message of
        Some g \<Rightarrow>
          (let groupMessages = filter (\<lambda>m. groupedId m = groupedId message) messages
           in case getExistingPostData (GroupId (Some g)) e of
                None \<Rightarrow>
                  if length groupMessages > 0
                  then syncLoop messages rest (newPosts + 1, updatedPosts, skippedPosts)
                         (processMediaGroup groupMessages e)
                  else syncLoop messages rest (newPosts, updatedPosts, skippedPosts) e
              | Some existingGroup \<Rightarrow>
                  (let currentGroupData = withReply message
                         \<lparr>id_p = GroupId (Some g), date = Some (m_date message),
                          editDate = m_editDate message, text_p = Some (m_text message),
                          media = [], childMessages = Some [m_id message],
                          replyToMsgId = None, replyToTopId = None,
                          deleted = None, pinned = None, pinnedDate = None\<rparr>
                   in if hasPostChanged existingGroup currentGroupData
                      then syncLoop messages rest (newPosts, updatedPosts + 1, skippedPosts)
                             (processMediaGroup groupMessages e)
                      else syncLoop messages rest (newPosts, updatedPosts, skippedPosts + 1) e))
      | None \<Rightarrow>
          (case getExistingPostData (MsgId (m_id message)) e of
             None \<Rightarrow>
               syncLoop messages rest (newPosts + 1, updatedPosts, skippedPosts)
                 (processMessage message e)
           | Some existingPost \<Rightarrow>
               (let currentPostData = withReply message
                      \<lparr>id_p = MsgId (m_id message), date = Some (m_date message),
                       editDate = m_editDate message, text_p = Some (m_text message),
                       media = [], childMessages = None,
                       replyToMsgId = None, replyToTopId = None,
                       deleted = None, pinned = None, pinnedDate = None\<rparr>
                in if hasPostChanged existingPost currentPostData
                   then syncLoop messages rest (newPosts, updatedPosts + 1, skippedPosts)
                          (processMessage message e)
                   else syncLoop messages rest (newPosts, updatedPosts, skippedPosts + 1) e)))"

text \<open>
  \<open>syncLatestPosts\<close> when \<open>client.getEntity\<close> returns; \<open>fetched\<close> is what
  \<open>client.getMessages(channel, {limit})\<close> gives (\<open>None\<close> when it raises). The times in
  the status file are \<open>Date.now()\<close>. \<open>getEntity\<close> is called before the \<open>try\<close>: when it
  raises, the exception leaves \<open>syncLatestPosts\<close> and the status file stays as written
  at the beginning (\<open>syncLatestPosts_noEntity\<close>).
\<close>

definition syncLatestPosts_noEntity :: "nat \<Rightarrow> engine \<Rightarrow> engine" where
  "syncLatestPosts_noEntity limit e = e\<lparr>syncStatus := Status (InProgress (clock e) limit)\<rparr>"

definition syncLatestPosts :: "Message list option \<Rightarrow> nat \<Rightarrow> engine \<Rightarrow> engine" where
  "syncLatestPosts fetched limit e =
     (let e0 = e\<lparr>syncStatus := Status (InProgress (clock e) limit)\<rparr>
      in case fetched of
           None \<Rightarrow> e0\<lparr>syncStatus := Status (Failed (clock e0))\<rparr>
         | Some messages \<Rightarrow>
             (case syncLoop messages messages (0, 0, 0) e0 of
                ((newPosts, updatedPosts, skippedPosts), e1) \<Rightarrow>
                  e1\<lparr>syncStatus := Status (Completed (clock e1) newPosts updatedPosts skippedPosts)\<rparr>))"

text \<open>The events of the source the engine subscribes to, and its handlers.\<close>

datatype source_event =
    NewMessage Message
  | GroupTimer Message
  | EditedMessage Message
  | DeletedMessage "int list"
  | UpdatePinnedMessages "int list" bool "int \<Rightarrow> Message option"

fun handle :: "engine \<Rightarrow> source_event \<Rightarrow> engine" where
  "handle e (NewMessage message) =
     (if \<not> peerIsChannel message then e
      else if groupedId message \<noteq> None then handleMediaGroup_arrive message e
      else processMessage message e)"
| "handle e (GroupTimer message) = handleMediaGroup_wake message e"
| "handle e (EditedMessage message) =
     (if \<not> peerIsChannel message then e else processMessage message e)"
| "handle e (DeletedMessage deletedIds) = foldl (\<lambda>e i. handleDeletedMessage i e) e deletedIds"
| "handle e (UpdatePinnedMessages ids peerChannel getMessages) =
     foldl (\<lambda>e i. handlePinnedMessageById i peerChannel (getMessages i) e) e ids"

section \<open>What is observed of a run\<close>

text \<open>The part of a trace added between two states.\<close>

definition since :: "'a syncer_scheme \<Rightarrow> 'b syncer_scheme \<Rightarrow> action list" where
  "since s s' = drop (length (trace s)) (trace s')"

text \<open>A send issued for the record \<open>p\<close>.\<close>

fun isSendOf :: "PostData \<Rightarrow> action \<Rightarrow> bool" where
  "isSendOf p (SendMessage q) = (q = p)"
| "isSendOf p (SendFile q f) = (q = p)"
| "isSendOf p _ = False"

text \<open>A call of the platform's API.\<close>

fun isCall :: "action \<Rightarrow> bool" where
  "isCall (SendMessage q) = True"
| "isCall (SendFile q f) = True"
| "isCall (EditMessage m t) = True"
| "isCall (DeleteMessage k m) = True"
| "isCall _ = False"

text \<open>One of the calls number \<open>a\<close> to \<open>b - 1\<close> raised.\<close>

definition raisedDuring :: "net \<Rightarrow> nat \<Rightarrow> nat \<Rightarrow> bool" where
  "raisedDuring nw a b = list_ex (\<lambda>n. nw n = Raises) [a..<b]"

text \<open>What \<open>syncPost\<close> does after the last send of a record has returned.\<close>

definition syncTail :: "PostData \<Rightarrow> action list" where
  "syncTail p = SaveProcessed # Synced (id_p p) # map UnlinkMedia (media p) @ [UnlinkPost (id_p p)]"

section \<open>Concrete worlds\<close>

definition textPost :: "int \<Rightarrow> int \<Rightarrow> string \<Rightarrow> PostData" where
  "textPost i d t =
     \<lparr>id_p = MsgId i, date = Some d, editDate = None, text_p = Some t, media = [],
      childMessages = None, replyToMsgId = None, replyToTopId = None, deleted = None,
      pinned = None, pinnedDate = None\<rparr>"

definition bale0 :: bale where
  "bale0 = \<lparr>dir = [], calls = 0, trace = [], watching = False, exited = None,
            processedPosts = Map.empty, processedFile = None\<rparr>"

definition eitaa0 :: eitaa where
  "eitaa0 = \<lparr>dir = [], calls = 0, trace = [], watching = False, exited = None,
             eitaaProcessed = {}, eitaaFile = None\<rparr>"

text \<open>A platform that accepts every call; the n-th call gets message id 1000 + n.\<close>

definition allOk :: net where
  "allOk n = Returns (Some (Some (1000 + int n)))"

text \<open>Three text posts whose files are listed in the order of the dates 100, 300, 200.\<close>

definition dir3 :: directory where
  "dir3 = [(MsgId 1, Some (textPost 1 100 ''a'')),
           (MsgId 2, Some (textPost 2 300 ''b'')),
           (MsgId 3, Some (textPost 3 200 ''c''))]"

text \<open>
  A stretch of a process's run in which every API call returned, and one that ends with
  a call that raised.
\<close>

definition returned :: "net \<Rightarrow> 'a syncer_scheme \<Rightarrow> 'b syncer_scheme \<Rightarrow> bool" where
  "returned nw s s' =
     (calls s \<le> calls s' \<and> \<not> raisedDuring nw (calls s) (calls s')
      \<and> (\<exists>out. trace s' = trace s @ out))"

definition raised :: "net \<Rightarrow> 'a syncer_scheme \<Rightarrow> 'b syncer_scheme \<Rightarrow> bool" where
  "raised nw s s' =
     (calls s < calls s' \<and> nw (calls s' - 1) = Raises
      \<and> (\<exists>pre a. trace s' = trace s @ pre @ [a] \<and> isCall a))"

text \<open>What the \<open>catch\<close> of the watch callback does.\<close>

definition fatalTail :: "action list" where
  "fatalTail = [ClearInterval, SaveProcessed, ProcessExit 1]"

text \<open>A platform whose call number \<open>k\<close> raises and that accepts every other call.\<close>

definition failAt :: "nat \<Rightarrow> net" where
  "failAt k n = (if n = k then Raises else Returns (Some (Some (1000 + int n))))"

text \<open>
  What a stretch of a Bale process's run keeps: the ledger file is left alone together
  with the memory or holds the memory, no entry leaves the memory, and the process
  is as alive as it was.
\<close>

definition bale_keeps :: "bale \<Rightarrow> bale \<Rightarrow> bool" where
  "bale_keeps s s' =
     (((processedPosts s' = processedPosts s \<and> processedFile s' = processedFile s)
        \<or> processedFile s' = Some (processedPosts s'))
      \<and> (\<forall>k. processedPosts s k \<noteq> None \<longrightarrow> processedPosts s' k \<noteq> None)
      \<and> watching s' = watching s \<and> exited s' = exited s)"

text \<open>A process is running while its timer is armed and it has not exited.\<close>

definition running :: "'a syncer_scheme \<Rightarrow> bool" where
  "running s = (watching s \<and> exited s = None)"

text \<open>The same for a stretch of an Eitaa process's run.\<close>

definition eitaa_keeps :: "eitaa \<Rightarrow> eitaa \<Rightarrow> bool" where
  "eitaa_keeps s s' =
     (((eitaaProcessed s' = eitaaProcessed s \<and> eitaaFile s' = eitaaFile s)
        \<or> eitaaFile s' = Some (eitaaProcessed s'))
      \<and> eitaaProcessed s \<subseteq> eitaaProcessed s'
      \<and> watching s' = watching s \<and> exited s' = exited s)"

text \<open>A post with two photos.\<close>

definition mediaPost :: PostData where
  "mediaPost =
     \<lparr>id_p = MsgId 7, date = Some 500, editDate = None, text_p = Some ''two photos'',
      media = [MediaPath 7 (PhotoJpg 1), MediaPath 7 (PhotoJpg 2)],
      childMessages = None, replyToMsgId = None, replyToTopId = None, deleted = None,
      pinned = None, pinnedDate = None\<rparr>"

text \<open>The stored record of \<open>k\<close> has \<open>deleted\<close> set.\<close>

definition markedDeleted :: "post_id \<Rightarrow> engine \<Rightarrow> bool" where
  "markedDeleted k e = (case posts e k of Some r \<Rightarrow> deleted r = Some True | None \<Rightarrow> False)"

text \<open>Every post file holds the record of the id in its name.\<close>

definition consistent :: "engine \<Rightarrow> bool" where
  "consistent e = (\<forall>k r. posts e k = Some r \<longrightarrow> id_p r = k)"

text \<open>
  The events whose handler rebuilds the record of the message \<open>i\<close> from the source: a
  new or edited message with that id.
\<close>

fun rebuilds :: "int \<Rightarrow> source_event \<Rightarrow> bool" where
  "rebuilds i (NewMessage m) = (m_id m = i)"
| "rebuilds i (EditedMessage m) = (m_id m = i)"
| "rebuilds i _ = False"

text \<open>\<open>getMessages(peer, {ids: [i]})\<close> gives the message \<open>i\<close> or nothing.\<close>

fun fetchesById :: "source_event \<Rightarrow> bool" where
  "fetchesById (UpdatePinnedMessages ids pc gm) =
     list_all (\<lambda>i. case gm i of None \<Rightarrow> True | Some m \<Rightarrow> m_id m = i) ids"
| "fetchesById _ = True"

definition engine0 :: engine where
  "engine0 = \<lparr>posts = Map.empty, mediaDirs = {}, mediaFiles = Map.empty,
              mediaGroups = Map.empty, syncStatus = NoFile, clock = 2000\<rparr>"

text \<open>A store whose post 5 is marked deleted, and an edit of message 5.\<close>

definition engineDel :: engine where
  "engineDel = engine0\<lparr>posts := [MsgId 5 \<mapsto> (textPost 5 100 ''a'')\<lparr>deleted := Some True\<rparr>]\<rparr>"

definition editMsg :: Message where
  "editMsg = \<lparr>m_id = 5, m_date = 100, m_editDate = Some 200, m_text = ''b'',
              groupedId = None, replyTo = None, m_media = None, peerIsChannel = True\<rparr>"

text \<open>
  An album of two photos, fetched latest first; the caption of the second photo was
  edited at time 1000, the first photo never.
\<close>

definition albumMsg :: "int \<Rightarrow> int option \<Rightarrow> Message" where
  "albumMsg i ed = \<lparr>m_id = i, m_date = 100, m_editDate = ed, m_text = ''x'',
                    groupedId = Some 7, replyTo = None,
                    m_media = Some (MessageMediaPhoto (Some (Photo i))), peerIsChannel = True\<rparr>"

definition album :: "Message list" where
  "album = [albumMsg 2 (Some 1000), albumMsg 1 None]"

text \<open>A call of \<open>editMessageText\<close>, and a stretch of a trace without one.\<close>

fun isEdit :: "action \<Rightarrow> bool" where
  "isEdit (EditMessage m t) = True"
| "isEdit _ = False"

definition noEdit :: "'a syncer_scheme \<Rightarrow> 'b syncer_scheme \<Rightarrow> bool" where
  "noEdit s s' = (\<exists>out. trace s' = trace s @ out \<and> filter isEdit out = [])"

text \<open>
  A running Bale process whose ledger holds post 1 as delivered with \<open>editDate\<close> 1000
  and outbound message id 555; a directory in which post 1 has \<open>editDate\<close> 2000; and a
  directory in which post 1 is marked deleted.
\<close>

definition baleDelivered :: bale where
  "baleDelivered = bale0
     \<lparr>watching := True,
      processedPosts := [MsgId 1 \<mapsto> \<lparr>c_date = Some 100, c_editDate = Some 1000,
                                     c_deleted = None, baleMessageId = Some 555\<rparr>],
      processedFile := Some [MsgId 1 \<mapsto> \<lparr>c_date = Some 100, c_editDate = Some 1000,
                                          c_deleted = None, baleMessageId = Some 555\<rparr>]\<rparr>"

definition dirEdited :: directory where
  "dirEdited = [(MsgId 1, Some ((textPost 1 100 ''hello'')\<lparr>editDate := Some 2000\<rparr>))]"

definition dirDeleted :: directory where
  "dirDeleted = [(MsgId 1, Some ((textPost 1 100 ''hello'')
                    \<lparr>editDate := Some 1000, deleted := Some True\<rparr>))]"

text \<open>
  A burst: the messages \<open>ms\<close> arrive one after the other, all before the first of their
  timers fires; then the timers fire, in the order \<open>ws\<close>.
\<close>

definition burst :: "Message list \<Rightarrow> Message list \<Rightarrow> engine \<Rightarrow> engine" where
  "burst ms ws e =
     foldl (\<lambda>e m. handle e (GroupTimer m)) (foldl (\<lambda>e m. handle e (NewMessage m)) e ms) ws"

text \<open>A delete call issued for the record \<open>k\<close>.\<close>

fun isDeleteOf :: "post_id \<Rightarrow> action \<Rightarrow> bool" where
  "isDeleteOf k (DeleteMessage j m) = (j = k)"
| "isDeleteOf k _ = False"

text \<open>
  \<open>liveEntry\<close>: the memory of the Bale process holds \<open>k\<close> as delivered under the
  outbound id \<open>m\<close> and not deleted. \<open>tombMem\<close>, \<open>tombFile\<close>: the memory, the ledger file
  hold \<open>k\<close> as deleted. \<open>bale_tomb\<close>: the ledger file does, and the memory too while a
  process is running.
\<close>

definition liveEntry :: "post_id \<Rightarrow> int \<Rightarrow> bale \<Rightarrow> bool" where
  "liveEntry k m s =
     (case processedPosts s k of
        Some c \<Rightarrow> \<not> truthy_bool (c_deleted c) \<and> baleMessageId c = Some m
      | None \<Rightarrow> False)"

definition tombMem :: "post_id \<Rightarrow> bale \<Rightarrow> bool" where
  "tombMem k s =
     (case processedPosts s k of Some c \<Rightarrow> truthy_bool (c_deleted c) | None \<Rightarrow> False)"

definition tombFile :: "post_id \<Rightarrow> bale \<Rightarrow> bool" where
  "tombFile k s =
     (case processedFile s of
        Some f \<Rightarrow> (case f k of Some c \<Rightarrow> truthy_bool (c_deleted c) | None \<Rightarrow> False)
      | None \<Rightarrow> False)"

definition bale_tomb :: "post_id \<Rightarrow> bale \<Rightarrow> bool" where
  "bale_tomb k s = (tombFile k s \<and> (running s \<longrightarrow> tombMem k s))"

text \<open>Every record of \<open>k\<close> that the event brings is marked deleted.\<close>

fun seesDeleted :: "post_id \<Rightarrow> event \<Rightarrow> bool" where
  "seesDeleted k (Start d) = list_all (\<lambda>p. id_p p = k \<longrightarrow> truthy_bool (deleted p)) (loadPosts d)"
| "seesDeleted k (Tick st d) = list_all (\<lambda>p. id_p p = k \<longrightarrow> truthy_bool (deleted p)) (loadPosts d)"

text \<open>A stretch of a run without a delete call for \<open>k\<close>, in which no post file appears.\<close>

definition quiet :: "post_id \<Rightarrow> 'a syncer_scheme \<Rightarrow> 'b syncer_scheme \<Rightarrow> bool" where
  "quiet k s s' =
     ((\<exists>out. trace s' = trace s @ out \<and> filter (isDeleteOf k) out = [])
      \<and> set (dir s') \<subseteq> set (dir s))"

text \<open>A stretch of a run without a delete call for \<open>k\<close>.\<close>

definition noDelete :: "post_id \<Rightarrow> 'a syncer_scheme \<Rightarrow> 'b syncer_scheme \<Rightarrow> bool" where
  "noDelete k s s' = (\<exists>out. trace s' = trace s @ out \<and> filter (isDeleteOf k) out = [])"

text \<open>A store that holds post 1, delivered to Bale before, with its media directory.\<close>

definition engineLive :: engine where
  "engineLive = engine0
     \<lparr>posts := [MsgId 1 \<mapsto> (textPost 1 100 ''hello'')\<lparr>editDate := Some 1000\<rparr>],
      mediaDirs := {1},
      mediaFiles := [MediaPath 1 (PhotoJpg 1) \<mapsto> 1000]\<rparr>"

text \<open>
  A syncer process after \<open>start()\<close> with an empty ledger, and a directory with one text
  post.
\<close>

definition baleWatching :: bale where
  "baleWatching = bale0\<lparr>watching := True\<rparr>"

definition eitaaWatching :: eitaa where
  "eitaaWatching = eitaa0\<lparr>watching := True\<rparr>"

definition dirHello :: directory where
  "dirHello = [(MsgId 1, Some (textPost 1 100 ''hello''))]"

text \<open>
  Two callbacks that overlap. The first callback reads the status file and the
  directory and issues \<open>sendMessage\<close> for post 1; before the answer is there the interval
  fires again, and the second callback reads the status file and the directory, in which
  \<open>post_1.json\<close> still is, and issues \<open>sendMessage\<close> for post 1 as well; then the first
  callback runs to its end, and then the second.
\<close>

definition overlapTurns :: "turn list" where
  "overlapTurns =
     [Happens (Tick NoFile dirHello), Resumes 0, Resumes 0,
      Happens (Tick NoFile dirHello), Resumes 1, Resumes 1,
      Resumes 0, Resumes 0, Resumes 0, Resumes 0,
      Resumes 1, Resumes 1, Resumes 1, Resumes 1]"

text \<open>
  The same two firings of the interval when the first callback has ended before the
  second begins, which then finds the directory empty.
\<close>

definition serialTurns :: "turn list" where
  "serialTurns =
     [Happens (Tick NoFile dirHello), Resumes 0, Resumes 0,
      Resumes 0, Resumes 0, Resumes 0, Resumes 0,
      Happens (Tick NoFile []), Resumes 1, Resumes 1]"



text \<open>
  The record of a call is still to be done as far as the ledger goes: the record of a
  send has no entry, the entry of the record of a delete call is not marked deleted.
\<close>

fun bale_unrecorded :: "action \<Rightarrow> bale \<Rightarrow> bool" where
  "bale_unrecorded (SendFile p f) s = (processedPosts s (id_p p) = None)"
| "bale_unrecorded (SendMessage p) s = (processedPosts s (id_p p) = None)"
| "bale_unrecorded (DeleteMessage k m) s =
     (case processedPosts s k of Some c \<Rightarrow> \<not> truthy_bool (c_deleted c) | None \<Rightarrow> False)"
| "bale_unrecorded _ s = True"

fun eitaa_unrecorded :: "action \<Rightarrow> eitaa \<Rightarrow> bool" where
  "eitaa_unrecorded (SendFile p f) s = (id_p p \<notin> eitaaProcessed s)"
| "eitaa_unrecorded (SendMessage p) s = (id_p p \<notin> eitaaProcessed s)"
| "eitaa_unrecorded _ s = True"

text \<open>
  Two callbacks that overlap as in \<open>overlapTurns\<close>, in a directory in which post 1 is
  marked deleted.
\<close>

definition overlapDeleted :: "turn list" where
  "overlapDeleted =
     [Happens (Tick NoFile dirDeleted), Resumes 0, Resumes 0,
      Happens (Tick NoFile dirDeleted), Resumes 1, Resumes 1,
      Resumes 0, Resumes 0, Resumes 0,
      Resumes 1, Resumes 1, Resumes 1]"

text \<open>The ledger file holds \<open>k\<close> as delivered under the outbound id \<open>m\<close> and not deleted.\<close>

definition liveFile :: "post_id \<Rightarrow> int \<Rightarrow> bale \<Rightarrow> bool" where
  "liveFile k m s =
     (case processedFile s of
        Some f \<Rightarrow>
          (case f k of
             Some c \<Rightarrow> \<not> truthy_bool (c_deleted c) \<and> baleMessageId c = Some m
           | None \<Rightarrow> False)
      | None \<Rightarrow> False)"

section \<open>What remains of a callback in flight\<close>

text \<open>
  A task that is resumed \<open>n\<close> times with nothing in between, and what remains of a
  callback when it runs alone from where the task stands: the rest of the body of the
  \<open>for\<close> loop for the record in hand, the rest of the loop, and the \<open>catch\<close> if either
  throws.
\<close>

fun bale_resumes :: "net \<Rightarrow> nat \<Rightarrow> task \<times> bale \<Rightarrow> task \<times> bale" where
  "bale_resumes nw 0 c = c"
| "bale_resumes nw (Suc n) c = bale_resumes nw n (bale_resume nw (fst c) (snd c))"

definition bale_loopEnd :: "bool \<times> bale \<Rightarrow> bale" where
  "bale_loopEnd r = (case r of (True, s1) \<Rightarrow> s1 | (False, s1) \<Rightarrow> bale_fatal s1)"

definition bale_afterSends ::
  "net \<Rightarrow> PostData \<Rightarrow> PostData list \<Rightarrow> int option option \<times> bale \<Rightarrow> bale" where
  "bale_afterSends nw p ps sent =
     (case sent of
        (None, s1) \<Rightarrow> bale_fatal s1
      | (Some mid, s1) \<Rightarrow>
          bale_loopEnd (bale_watchLoop nw ps
            (bale_deletePostAndMedia p
              (emit (Synced (id_p p))
                (bale_saveProcessedPosts (bale_setProcessed p mid s1))))))"

fun bale_rest :: "net \<Rightarrow> task \<Rightarrow> bale \<Rightarrow> bale" where
  "bale_rest nw (Await_status st) s =
     (if isTelegramSyncInProgress st then s
      else bale_loopEnd (bale_watchLoop nw (loadAndSortPosts (dir s)) (readAll s)))"
| "bale_rest nw (Await_load ps) s = bale_loopEnd (bale_watchLoop nw ps s)"
| "bale_rest nw (Await_sendFile p fs mid ps r) s =
     (case r of
        Raises \<Rightarrow> bale_fatal s
      | Returns x \<Rightarrow>
          bale_afterSends nw p ps
            (bale_sendFiles nw p fs (case x of None \<Rightarrow> mid | Some m \<Rightarrow> m) s))"
| "bale_rest nw (Await_fileDelay p fs mid ps) s =
     bale_afterSends nw p ps (bale_sendFiles nw p fs mid s)"
| "bale_rest nw (Await_sendMessage p ps r) s =
     (case r of
        Raises \<Rightarrow> bale_fatal s
      | Returns x \<Rightarrow>
          bale_afterSends nw p ps (Some (case x of None \<Rightarrow> None | Some m \<Rightarrow> m), s))"
| "bale_rest nw (Await_saveSynced p ps) s =
     bale_loopEnd (bale_watchLoop nw ps (bale_deletePostAndMedia p (emit (Synced (id_p p)) s)))"
| "bale_rest nw (Await_unlinkMedia p fs ps) s =
     bale_loopEnd (bale_watchLoop nw ps
       (emit (UnlinkPost (id_p p))
         (s\<lparr>trace := trace s @ map UnlinkMedia fs, dir := unlinkPost (id_p p) (dir s)\<rparr>)))"
| "bale_rest nw (Await_unlinkSynced ps) s = bale_loopEnd (bale_watchLoop nw ps s)"
| "bale_rest nw (Await_rateLimit ps) s = bale_loopEnd (bale_watchLoop nw ps s)"
| "bale_rest nw (Await_deleteMessage p mid ps r) s =
     (case r of
        Raises \<Rightarrow> bale_fatal s
      | Returns x \<Rightarrow>
          bale_loopEnd (bale_watchLoop nw ps
            (bale_deletePostData p (bale_saveProcessedPosts (bale_setProcessed p mid s)))))"
| "bale_rest nw (Await_saveMarked p ps) s =
     bale_loopEnd (bale_watchLoop nw ps (bale_deletePostData p s))"
| "bale_rest nw (Await_unlinkPost ps) s = bale_loopEnd (bale_watchLoop nw ps s)"
| "bale_rest nw Await_saveFatal s = bale_exit s"
| "bale_rest nw Finished s = s"

text \<open>A bound on the number of times a task is still to be resumed.\<close>

definition postSteps :: "PostData \<Rightarrow> nat" where
  "postSteps p = 3 * length (media p) + 7"

definition loopSteps :: "PostData list \<Rightarrow> nat" where
  "loopSteps ps = sum_list (map postSteps ps)"

fun bale_left :: "task \<Rightarrow> bale \<Rightarrow> nat" where
  "bale_left (Await_status st) s = loopSteps (loadAndSortPosts (dir s)) + 2"
| "bale_left (Await_load ps) s = loopSteps ps + 1"
| "bale_left (Await_sendFile p fs mid ps r) s = loopSteps ps + 2 * length fs + length (media p) + 6"
| "bale_left (Await_fileDelay p fs mid ps) s = loopSteps ps + 2 * length fs + length (media p) + 5"
| "bale_left (Await_sendMessage p ps r) s = loopSteps ps + length (media p) + 5"
| "bale_left (Await_saveSynced p ps) s = loopSteps ps + length (media p) + 4"
| "bale_left (Await_unlinkMedia p fs ps) s = loopSteps ps + length fs + 3"
| "bale_left (Await_unlinkSynced ps) s = loopSteps ps + 2"
| "bale_left (Await_rateLimit ps) s = loopSteps ps + 1"
| "bale_left (Await_deleteMessage p mid ps r) s = loopSteps ps + 3"
| "bale_left (Await_saveMarked p ps) s = loopSteps ps + 2"
| "bale_left (Await_unlinkPost ps) s = loopSteps ps + 1"
| "bale_left Await_saveFatal s = 1"
| "bale_left Finished s = 0"

text \<open>The same for the Eitaa process.\<close>

fun eitaa_resumes :: "net \<Rightarrow> nat \<Rightarrow> task \<times> eitaa \<Rightarrow> task \<times> eitaa" where
  "eitaa_resumes nw 0 c = c"
| "eitaa_resumes nw (Suc n) c = eitaa_resumes nw n (eitaa_resume nw (fst c) (snd c))"

definition eitaa_loopEnd :: "bool \<times> eitaa \<Rightarrow> eitaa" where
  "eitaa_loopEnd r = (case r of (True, s1) \<Rightarrow> s1 | (False, s1) \<Rightarrow> eitaa_fatal s1)"

definition eitaa_afterSends ::
  "net \<Rightarrow> PostData \<Rightarrow> PostData list \<Rightarrow> bool \<times> eitaa \<Rightarrow> eitaa" where
  "eitaa_afterSends nw p ps sent =
     (case sent of
        (False, s1) \<Rightarrow> eitaa_fatal s1
      | (True, s1) \<Rightarrow>
          eitaa_loopEnd (eitaa_watchLoop nw ps
            (eitaa_deletePostAndMedia p
              (emit (Synced (id_p p))
                (eitaa_saveProcessedPosts
                  (s1\<lparr>eitaaProcessed := insert (id_p p) (eitaaProcessed s1)\<rparr>))))))"

fun eitaa_rest :: "net \<Rightarrow> task \<Rightarrow> eitaa \<Rightarrow> eitaa" where
  "eitaa_rest nw (Await_status st) s =
     (if isTelegramSyncInProgress st then s
      else eitaa_loopEnd (eitaa_watchLoop nw
             (filter (\<lambda>postData. \<not> truthy_bool (deleted postData)
                        \<and> id_p postData \<notin> eitaaProcessed s) (loadAndSortPosts (dir s)))
             (readAll s)))"
| "eitaa_rest nw (Await_load newPosts) s =
     eitaa_loopEnd (eitaa_watchLoop nw
       (filter (\<lambda>postData. \<not> truthy_bool (deleted postData)
                  \<and> id_p postData \<notin> eitaaProcessed s) newPosts) s)"
| "eitaa_rest nw (Await_sendFile p fs mid ps r) s =
     (case r of
        Raises \<Rightarrow> eitaa_fatal s
      | Returns x \<Rightarrow> eitaa_afterSends nw p ps (eitaa_sendFiles nw p fs s))"
| "eitaa_rest nw (Await_fileDelay p fs mid ps) s =
     eitaa_afterSends nw p ps (eitaa_sendFiles nw p fs s)"
| "eitaa_rest nw (Await_sendMessage p ps r) s =
     (case r of
        Raises \<Rightarrow> eitaa_fatal s
      | Returns x \<Rightarrow> eitaa_afterSends nw p ps (True, s))"
| "eitaa_rest nw (Await_saveSynced p ps) s =
     eitaa_loopEnd (eitaa_watchLoop nw ps (eitaa_deletePostAndMedia p (emit (Synced (id_p p)) s)))"
| "eitaa_rest nw (Await_unlinkMedia p fs ps) s =
     eitaa_loopEnd (eitaa_watchLoop nw ps
       (emit (UnlinkPost (id_p p))
         (s\<lparr>trace := trace s @ map UnlinkMedia fs, dir := unlinkPost (id_p p) (dir s)\<rparr>)))"
| "eitaa_rest nw (Await_unlinkSynced ps) s = eitaa_loopEnd (eitaa_watchLoop nw ps s)"
| "eitaa_rest nw (Await_rateLimit ps) s = eitaa_loopEnd (eitaa_watchLoop nw ps s)"
| "eitaa_rest nw (Await_deleteMessage p mid ps r) s = s"
| "eitaa_rest nw (Await_saveMarked p ps) s = s"
| "eitaa_rest nw (Await_unlinkPost ps) s = s"
| "eitaa_rest nw Await_saveFatal s = eitaa_exit s"
| "eitaa_rest nw Finished s = s"

fun eitaa_left :: "task \<Rightarrow> eitaa \<Rightarrow> nat" where
  "eitaa_left (Await_status st) s = loopSteps (loadAndSortPosts (dir s)) + 2"
| "eitaa_left (Await_load ps) s = loopSteps ps + 1"
| "eitaa_left (Await_sendFile p fs mid ps r) s = loopSteps ps + 2 * length fs + length (media p) + 6"
| "eitaa_left (Await_fileDelay p fs mid ps) s = loopSteps ps + 2 * length fs + length (media p) + 5"
| "eitaa_left (Await_sendMessage p ps r) s = loopSteps ps + length (media p) + 5"
| "eitaa_left (Await_saveSynced p ps) s = loopSteps ps + length (media p) + 4"
| "eitaa_left (Await_unlinkMedia p fs ps) s = loopSteps ps + length fs + 3"
| "eitaa_left (Await_unlinkSynced ps) s = loopSteps ps + 2"
| "eitaa_left (Await_rateLimit ps) s = loopSteps ps + 1"
| "eitaa_left (Await_deleteMessage p mid ps r) s = 1"
| "eitaa_left (Await_saveMarked p ps) s = 1"
| "eitaa_left (Await_unlinkPost ps) s = 1"
| "eitaa_left Await_saveFatal s = 1"
| "eitaa_left Finished s = 0"

section \<open>A failure while callbacks overlap\<close>

text \<open>
  Two callbacks that overlap while the platform rejects the first call: the first
  callback issues \<open>sendMessage\<close> for post 1; the interval fires again and the second
  callback reads the directory; the first callback gets its exception and reaches the
  \<open>await\<close> of \<open>saveProcessedPosts\<close> in its \<open>catch\<close>; the second callback goes on; the first
  callback exits.
\<close>

definition overlapFailing :: "turn list" where
  "overlapFailing =
     [Happens (Tick NoFile dirHello), Resumes 0, Resumes 0,
      Happens (Tick NoFile dirHello), Resumes 1,
      Resumes 0, Resumes 1, Resumes 0, Resumes 1]"

section \<open>Traces of the syncers\<close>

lemma trace_emit: "trace (emit a s) = trace s @ [a]"
  by (simp add: emit_def)

lemma bale_sendFiles_out:
  "bale_sendFiles nw p fs mid s = (r, s') \<Longrightarrow>
     \<exists>sends. list_all (isSendOf p) sends \<and> trace s' = trace s @ sends"
proof (induction fs arbitrary: mid s)
  case Nil
  then show ?case by auto
next
  case (Cons f fs)
  let ?s1 = "(emit (SendFile p f) s)\<lparr>calls := calls s + 1\<rparr>"
  show ?case
  proof (cases "nw (calls s)")
    case Raises
    with Cons.prems have "trace s' = trace s @ [SendFile p f]"
      by (auto simp: bale_sendFile_def emit_def)
    moreover have "list_all (isSendOf p) [SendFile p f]" by simp
    ultimately show ?thesis by blast
  next
    case (Returns x)
    with Cons.prems
    have "bale_sendFiles nw p fs (case x of None \<Rightarrow> mid | Some m \<Rightarrow> m) ?s1 = (r, s')"
      by (simp add: bale_sendFile_def Let_def)
    from Cons.IH[OF this] obtain sends where
      "list_all (isSendOf p) sends" "trace s' = trace ?s1 @ sends" by blast
    then have "list_all (isSendOf p) (SendFile p f # sends)"
      and "trace s' = trace s @ (SendFile p f # sends)"
      by (simp_all add: emit_def)
    then show ?thesis by blast
  qed
qed

lemma bale_syncPost_out:
  assumes "bale_syncPost nw p s = (b, s')"
  shows "\<exists>sends. list_all (isSendOf p) sends \<and>
           trace s' = trace s @ Syncing p # sends @ (if b then syncTail p else [])"
proof -
  let ?s = "emit (Syncing p) s"
  consider (m) "media p \<noteq> []" | (t) "media p = []" "truthy_str (text_p p)"
    | (n) "media p = []" "\<not> truthy_str (text_p p)" by blast
  then show ?thesis
  proof cases
    case m
    obtain r s1 where r: "bale_sendFiles nw p (media p) None ?s = (r, s1)" by fastforce
    from bale_sendFiles_out[OF r] obtain sends where
      sends: "list_all (isSendOf p) sends" "trace s1 = trace ?s @ sends" by blast
    from assms m r sends(2) have "trace s' = trace s @ Syncing p # sends @ (if b then syncTail p else [])"
      by (auto simp: bale_syncPost_def Let_def bale_deletePostAndMedia_def emit_def syncTail_def
          bale_saveProcessedPosts_def bale_setProcessed_def split: option.splits)
    with sends(1) show ?thesis by blast
  next
    case t
    have "list_all (isSendOf p) [SendMessage p]" by simp
    moreover from assms t have "trace s' = trace s @ Syncing p # [SendMessage p] @ (if b then syncTail p else [])"
      by (auto simp: bale_syncPost_def Let_def bale_deletePostAndMedia_def emit_def syncTail_def
          bale_saveProcessedPosts_def bale_setProcessed_def bale_sendMessage_def split: option.splits response.splits)
    ultimately show ?thesis by blast
  next
    case n
    have "list_all (isSendOf p) []" by simp
    moreover from assms n have "trace s' = trace s @ Syncing p # [] @ (if b then syncTail p else [])"
      by (auto simp: bale_syncPost_def Let_def bale_deletePostAndMedia_def emit_def syncTail_def
          bale_saveProcessedPosts_def bale_setProcessed_def split: option.splits)
    ultimately show ?thesis by blast
  qed
qed

lemma since_append: "trace s' = trace s @ out \<Longrightarrow> since s s' = out"
  by (simp add: since_def)

lemma eitaa_sendFiles_out:
  "eitaa_sendFiles nw p fs s = (r, s') \<Longrightarrow>
     \<exists>sends. list_all (isSendOf p) sends \<and> trace s' = trace s @ sends"
proof (induction fs arbitrary: s)
  case Nil
  then show ?case by auto
next
  case (Cons f fs)
  let ?s1 = "(emit (SendFile p f) s)\<lparr>calls := calls s + 1\<rparr>"
  show ?case
  proof (cases "nw (calls s)")
    case Raises
    with Cons.prems have "trace s' = trace s @ [SendFile p f]"
      by (auto simp: eitaa_sendFile_def emit_def)
    moreover have "list_all (isSendOf p) [SendFile p f]" by simp
    ultimately show ?thesis by blast
  next
    case (Returns x)
    with Cons.prems have "eitaa_sendFiles nw p fs ?s1 = (r, s')"
      by (simp add: eitaa_sendFile_def Let_def)
    from Cons.IH[OF this] obtain sends where
      "list_all (isSendOf p) sends" "trace s' = trace ?s1 @ sends" by blast
    then have "list_all (isSendOf p) (SendFile p f # sends)"
      and "trace s' = trace s @ (SendFile p f # sends)"
      by (simp_all add: emit_def)
    then show ?thesis by blast
  qed
qed

lemma eitaa_syncPost_out:
  assumes "eitaa_syncPost nw p s = (b, s')"
  shows "\<exists>sends. list_all (isSendOf p) sends \<and>
           trace s' = trace s @ Syncing p # sends @ (if b then syncTail p else [])"
proof -
  let ?s = "emit (Syncing p) s"
  consider (m) "media p \<noteq> []" | (t) "media p = []" "truthy_str (text_p p)"
    | (n) "media p = []" "\<not> truthy_str (text_p p)" by blast
  then show ?thesis
  proof cases
    case m
    obtain r s1 where r: "eitaa_sendFiles nw p (media p) ?s = (r, s1)" by fastforce
    from eitaa_sendFiles_out[OF r] obtain sends where
      sends: "list_all (isSendOf p) sends" "trace s1 = trace ?s @ sends" by blast
    from assms m r sends(2) have "trace s' = trace s @ Syncing p # sends @ (if b then syncTail p else [])"
      by (auto simp: eitaa_syncPost_def Let_def eitaa_deletePostAndMedia_def emit_def syncTail_def
          eitaa_saveProcessedPosts_def split: bool.splits)
    with sends(1) show ?thesis by blast
  next
    case t
    have "list_all (isSendOf p) [SendMessage p]" by simp
    moreover from assms t have "trace s' = trace s @ Syncing p # [SendMessage p] @ (if b then syncTail p else [])"
      by (auto simp: eitaa_syncPost_def Let_def eitaa_deletePostAndMedia_def emit_def syncTail_def
          eitaa_saveProcessedPosts_def eitaa_sendMessage_def split: bool.splits response.splits)
    ultimately show ?thesis by blast
  next
    case n
    have "list_all (isSendOf p) []" by simp
    moreover from assms n have "trace s' = trace s @ Syncing p # [] @ (if b then syncTail p else [])"
      by (auto simp: eitaa_syncPost_def Let_def eitaa_deletePostAndMedia_def emit_def syncTail_def
          eitaa_saveProcessedPosts_def split: bool.splits)
    ultimately show ?thesis by blast
  qed
qed

section \<open>Mutual exclusion with the catch-up pass of the ingestion engine\<close>

text \<open>
  C4. A watch cycle that starts while the status file reads \<open>status = 'in_progress'\<close>
  reads the status file and does nothing else: it reads no post file, sends nothing and
  leaves the process as it was. This holds for both platforms.
\<close>

theorem C4_in_progress_cycle_skips:
  fixes s :: bale and e :: eitaa
  shows "bale_watchCycle nw (Status (InProgress t l)) s = emit ReadStatus s
       \<and> since s (bale_watchCycle nw (Status (InProgress t l)) s) = [ReadStatus]
       \<and> eitaa_watchCycle nw (Status (InProgress t l)) e = emit ReadStatus e
       \<and> since e (eitaa_watchCycle nw (Status (InProgress t l)) e) = [ReadStatus]"
  by (simp add: bale_watchCycle_def eitaa_watchCycle_def isTelegramSyncInProgress_def
      since_def emit_def)

theorem C4_in_progress_cycle_skips_witness:
  "since (bale0\<lparr>dir := dir3\<rparr>)
     (bale_watchCycle allOk (Status (InProgress 0 15)) (bale0\<lparr>dir := dir3\<rparr>)) = [ReadStatus]
   \<and> since (eitaa0\<lparr>dir := dir3\<rparr>)
     (eitaa_watchCycle allOk (Status (InProgress 0 15)) (eitaa0\<lparr>dir := dir3\<rparr>)) = [ReadStatus]"
  using C4_in_progress_cycle_skips[of allOk 0 15 "bale0\<lparr>dir := dir3\<rparr>" "eitaa0\<lparr>dir := dir3\<rparr>"]
  by blast

lemma raisedDuring_iff: "raisedDuring nw a b \<longleftrightarrow> (\<exists>n. a \<le> n \<and> n < b \<and> nw n = Raises)"
  by (auto simp: raisedDuring_def list_ex_iff)

lemma returnedI: "calls s' = calls s \<Longrightarrow> trace s' = trace s @ out \<Longrightarrow> returned nw s s'"
  by (simp add: returned_def raisedDuring_iff)

lemma returned_refl: "returned nw s s"
  by (simp add: returned_def raisedDuring_iff)

lemma returned_trans:
  assumes "returned nw s s1" "returned nw s1 s2"
  shows "returned nw s s2"
proof -
  from assms obtain o1 o2 where "trace s1 = trace s @ o1" "trace s2 = trace s1 @ o2"
    by (auto simp: returned_def)
  then have "trace s2 = trace s @ (o1 @ o2)" by simp
  then have "\<exists>out. trace s2 = trace s @ out" by blast
  moreover from assms have "calls s \<le> calls s2" by (simp add: returned_def)
  moreover from assms have "\<not> raisedDuring nw (calls s) (calls s2)"
    unfolding returned_def raisedDuring_iff by (meson leI)
  ultimately show ?thesis by (simp add: returned_def)
qed

lemma returned_raised:
  assumes "returned nw s s1" "raised nw s1 s2"
  shows "raised nw s s2"
proof -
  from assms obtain o1 pre a where
    "trace s1 = trace s @ o1" "trace s2 = trace s1 @ pre @ [a]" "isCall a"
    by (auto simp: returned_def raised_def)
  then have "trace s2 = trace s @ (o1 @ pre) @ [a] \<and> isCall a" by simp
  then have "\<exists>pre a. trace s2 = trace s @ pre @ [a] \<and> isCall a" by blast
  with assms show ?thesis by (simp add: returned_def raised_def)
qed

lemma raised_raisedDuring: "raised nw s s' \<Longrightarrow> raisedDuring nw (calls s) (calls s')"
  unfolding raised_def raisedDuring_iff
  by (rule exI[of _ "calls s' - 1"]) auto

lemma call_returned:
  "nw (calls s) \<noteq> Raises \<Longrightarrow> returned nw s ((emit a s)\<lparr>calls := calls s + 1\<rparr>)"
  unfolding returned_def raisedDuring_iff 
  by (auto simp: emit_def less_Suc_eq_le)

lemma call_raised:
  "nw (calls s) = Raises \<Longrightarrow> isCall a \<Longrightarrow> raised nw s ((emit a s)\<lparr>calls := calls s + 1\<rparr>)"
  unfolding raised_def by (auto simp: emit_def)

lemma bale_sendFiles_outcome:
  "bale_sendFiles nw p fs mid s = (r, s') \<Longrightarrow>
     (case r of None \<Rightarrow> raised nw s s' | Some x \<Rightarrow> returned nw s s')"
proof (induction fs arbitrary: mid s)
  case Nil
  then show ?case by (auto simp: returned_refl)
next
  case (Cons f fs)
  let ?s1 = "(emit (SendFile p f) s)\<lparr>calls := calls s + 1\<rparr>"
  show ?case
  proof (cases "nw (calls s)")
    case Raises
    with Cons.prems have "r = None" "s' = ?s1"
      by (auto simp: bale_sendFile_def)
    with Raises show ?thesis using call_raised[of nw s "SendFile p f"] by simp
  next
    case (Returns x)
    with Cons.prems
    have "bale_sendFiles nw p fs (case x of None \<Rightarrow> mid | Some m \<Rightarrow> m) ?s1 = (r, s')"
      by (simp add: bale_sendFile_def Let_def)
    from Cons.IH[OF this] have ih: "case r of None \<Rightarrow> raised nw ?s1 s' | Some x \<Rightarrow> returned nw ?s1 s'" .
    from Returns have "returned nw s ?s1" by (intro call_returned) simp
    with ih show ?thesis
      by (auto split: option.splits intro: returned_trans returned_raised)
  qed
qed

lemma bale_syncTail_returned:
  "returned nw s (bale_deletePostAndMedia p (emit (Synced k)
      (bale_saveProcessedPosts (bale_setProcessed p mid s))))"
  by (rule returnedI[where out = "SaveProcessed # Synced k # map UnlinkMedia (media p) @ [UnlinkPost (id_p p)]"])
     (simp_all add: bale_deletePostAndMedia_def emit_def bale_saveProcessedPosts_def
        bale_setProcessed_def Let_def)

lemma bale_syncPost_outcome:
  assumes "bale_syncPost nw p s = (b, s')"
  shows "if b then returned nw s s' else raised nw s s'"
proof -
  let ?s = "emit (Syncing p) s"
  have r0: "returned nw s ?s" by (rule returnedI[where out = "[Syncing p]"]) (simp_all add: emit_def)
  consider (m) "media p \<noteq> []" | (t) "media p = []" "truthy_str (text_p p)"
    | (n) "media p = []" "\<not> truthy_str (text_p p)" by blast
  then show ?thesis
  proof cases
    case m
    obtain r s1 where r: "bale_sendFiles nw p (media p) None ?s = (r, s1)" by fastforce
    note o = bale_sendFiles_outcome[OF r]
    show ?thesis
    proof (cases r)
      case None
      with assms m r have "b = False" "s' = s1" by (auto simp: bale_syncPost_def Let_def)
      with o None r0 show ?thesis by (auto intro: returned_raised)
    next
      case (Some mid)
      with assms m r have "b" and
        "s' = bale_deletePostAndMedia p (emit (Synced (id_p p)) (bale_saveProcessedPosts (bale_setProcessed p mid s1)))"
        by (auto simp: bale_syncPost_def Let_def)
      with o Some r0 show ?thesis
        using bale_syncTail_returned[of nw s1 p "id_p p" mid] by (auto intro: returned_trans)
    qed
  next
    case t
    let ?s1 = "(emit (SendMessage p) ?s)\<lparr>calls := calls ?s + 1\<rparr>"
    show ?thesis
    proof (cases "nw (calls ?s)")
      case Raises
      with assms t have "b = False" "s' = ?s1"
        by (auto simp: bale_syncPost_def Let_def bale_sendMessage_def)
      moreover from Raises have "raised nw ?s ?s1" by (intro call_raised) simp_all
      ultimately show ?thesis using r0 by (auto intro: returned_raised)
    next
      case (Returns x)
      with assms t have "b" and
        "s' = bale_deletePostAndMedia p (emit (Synced (id_p p)) (bale_saveProcessedPosts
               (bale_setProcessed p (case x of None \<Rightarrow> None | Some m \<Rightarrow> m) ?s1)))"
        by (auto simp: bale_syncPost_def Let_def bale_sendMessage_def)
      moreover from Returns have "returned nw ?s ?s1" by (intro call_returned) simp
      ultimately show ?thesis using r0
        bale_syncTail_returned[of nw ?s1 p "id_p p" "case x of None \<Rightarrow> None | Some m \<Rightarrow> m"]
        by (auto intro: returned_trans)
    qed
  next
    case n
    with assms have "b" and
      "s' = bale_deletePostAndMedia p (emit (Synced (id_p p)) (bale_saveProcessedPosts (bale_setProcessed p None ?s)))"
      by (auto simp: bale_syncPost_def Let_def)
    then show ?thesis using r0 bale_syncTail_returned[of nw ?s p "id_p p" None]
      by (auto intro: returned_trans)
  qed
qed

lemma bale_watchPost_outcome:
  assumes "bale_watchPost nw p s = (b, s')"
  shows "if b then returned nw s s' else raised nw s s' \<or> s' = s"
proof (cases "processedPosts s (id_p p)")
  case None
  show ?thesis
  proof (cases "truthy_bool (deleted p)")
    case False
    show ?thesis
    proof (cases "toISOString_throws (date p)")
      case True
      with None False assms have "b = False" "s' = s" by (auto simp: bale_watchPost_def)
      then show ?thesis by simp
    next
      case ok: False
      with None False assms have "bale_syncPost nw p s = (b, s')"
        by (simp add: bale_watchPost_def)
      from bale_syncPost_outcome[OF this] show ?thesis by (auto split: if_splits)
    qed
  next
    case True
    with None assms have "b"
      and "s' = bale_deletePostData p (bale_saveProcessedPosts (bale_setProcessed p None s))"
      by (auto simp: bale_watchPost_def)
    moreover have "returned nw s (bale_deletePostData p (bale_saveProcessedPosts (bale_setProcessed p None s)))"
      by (rule returnedI[where out = "[SaveProcessed, UnlinkPost (id_p p)]"])
         (simp_all add: bale_deletePostData_def bale_saveProcessedPosts_def bale_setProcessed_def emit_def)
    ultimately show ?thesis by simp
  qed
next
  case (Some c)
  have upd: "returned nw t (bale_deletePostData p (bale_saveProcessedPosts (bale_setProcessed p m t)))" for t m
    by (rule returnedI[where out = "[SaveProcessed, UnlinkPost (id_p p)]"])
       (simp_all add: bale_deletePostData_def bale_saveProcessedPosts_def bale_setProcessed_def emit_def)
  have del: "returned nw s (bale_deletePostData p s)"
    by (rule returnedI[where out = "[UnlinkPost (id_p p)]"])
       (simp_all add: bale_deletePostData_def emit_def)
  consider (same) "\<not> (c_editDate c \<noteq> editDate p \<or> c_deleted c \<noteq> deleted p)"
    | (gone) "c_editDate c \<noteq> editDate p \<or> c_deleted c \<noteq> deleted p"
        "truthy_bool (deleted p) \<and> \<not> truthy_bool (c_deleted c)"
    | (edit) "c_editDate c \<noteq> editDate p \<or> c_deleted c \<noteq> deleted p"
        "\<not> (truthy_bool (deleted p) \<and> \<not> truthy_bool (c_deleted c))"
        "editDate p \<noteq> c_editDate c \<and> \<not> truthy_bool (deleted p)"
    | (none) "c_editDate c \<noteq> editDate p \<or> c_deleted c \<noteq> deleted p"
        "\<not> (truthy_bool (deleted p) \<and> \<not> truthy_bool (c_deleted c))"
        "\<not> (editDate p \<noteq> c_editDate c \<and> \<not> truthy_bool (deleted p))"
    by blast
  then show ?thesis
  proof cases
    case same
    with Some assms have "b" "s' = bale_deletePostData p s"
      by (auto simp: bale_watchPost_def)
    with del show ?thesis by simp
  next
    case gone
    show ?thesis
    proof (cases "\<exists>m. baleMessageId c = Some m \<and> m \<noteq> 0")
      case False
      then have "bale_deleteMessage nw p (baleMessageId c) s = (True, s)"
        by (auto simp: bale_deleteMessage_def split: option.splits)
      with Some gone assms have "b"
        "s' = bale_deletePostData p (bale_saveProcessedPosts (bale_setProcessed p (baleMessageId c) s))"
        by (auto simp: bale_watchPost_def)
      with upd show ?thesis by simp
    next
      case True
      then obtain m where m: "baleMessageId c = Some m" "m \<noteq> 0" by blast
      let ?s1 = "(emit (DeleteMessage (id_p p) m) s)\<lparr>calls := calls s + 1\<rparr>"
      show ?thesis
      proof (cases "nw (calls s)")
        case Raises
        with m have "bale_deleteMessage nw p (baleMessageId c) s = (False, ?s1)"
          by (simp add: bale_deleteMessage_def)
        with Some gone assms have "b = False" "s' = ?s1"
          by (auto simp: bale_watchPost_def)
        with Raises show ?thesis using call_raised[of nw s "DeleteMessage (id_p p) m"] by simp
      next
        case (Returns x)
        with m have "bale_deleteMessage nw p (baleMessageId c) s = (True, ?s1)"
          by (simp add: bale_deleteMessage_def)
        with Some gone assms have "b"
          "s' = bale_deletePostData p (bale_saveProcessedPosts (bale_setProcessed p (baleMessageId c) ?s1))"
          by (auto simp: bale_watchPost_def)
        moreover from Returns have "returned nw s ?s1" by (intro call_returned) simp
        ultimately show ?thesis using upd[of ?s1 "baleMessageId c"]
          by (auto intro: returned_trans)
      qed
    qed
  next
    case edit
    with Some assms have "b"
      "s' = bale_deletePostData p (bale_saveProcessedPosts (bale_setProcessed p (baleMessageId c) s))"
      by (auto simp: bale_watchPost_def)
    with upd show ?thesis by simp
  next
    case none
    with Some assms have "b" "s' = s"
      by (auto simp: bale_watchPost_def)
    then show ?thesis by (simp add: returned_refl)
  qed
qed

text \<open>
  A loop that ends by a throw has either made a call that raised, or made only calls that
  returned and thrown in a log line.
\<close>

lemma bale_watchLoop_outcome:
  "bale_watchLoop nw ps s = (b, s') \<Longrightarrow>
     (if b then returned nw s s' else raised nw s s' \<or> returned nw s s')"
proof (induction ps arbitrary: s)
  case Nil
  then show ?case by (auto simp: returned_refl)
next
  case (Cons p ps)
  obtain b1 s1 where st: "bale_watchPost nw p s = (b1, s1)" by fastforce
  note o1 = bale_watchPost_outcome[OF st]
  show ?case
  proof (cases b1)
    case False
    with Cons.prems st have "b = False" "s' = s1" by simp_all
    with o1 False show ?thesis by (auto simp: returned_refl)
  next
    case True
    with Cons.prems st have "bale_watchLoop nw ps s1 = (b, s')" by simp
    from Cons.IH[OF this] o1 True show ?thesis
      by (auto intro: returned_trans returned_raised split: if_splits)
  qed
qed

lemma bale_fatal_facts:
  "exited (bale_fatal s) = Some 1" "\<not> watching (bale_fatal s)"
  "processedFile (bale_fatal s) = Some (processedPosts (bale_fatal s))"
  "calls (bale_fatal s) = calls s"
  "trace (bale_fatal s) = trace s @ fatalTail"
  by (simp_all add: bale_fatal_def emit_def bale_saveProcessedPosts_def fatalTail_def)

lemma bale_watchCycle_fatal:
  assumes "raisedDuring nw (calls s) (calls (bale_watchCycle nw st s))"
  shows "\<exists>s1. bale_watchCycle nw st s = bale_fatal s1 \<and> raised nw s s1"
proof -
  let ?s0 = "emit ReadStatus s"
  have np: "\<not> isTelegramSyncInProgress st"
  proof
    assume "isTelegramSyncInProgress st"
    then have "calls (bale_watchCycle nw st s) = calls s"
      by (simp add: bale_watchCycle_def emit_def)
    with assms show False by (simp add: raisedDuring_def)
  qed
  obtain b s1 where r: "bale_watchLoop nw (loadAndSortPosts (dir s)) (readAll ?s0) = (b, s1)"
    by fastforce
  note o = bale_watchLoop_outcome[OF r]
  have pre: "returned nw s (readAll ?s0)"
    by (rule returnedI[where out = "ReadStatus # ReadDir # map (\<lambda>e. ReadPost (fst e)) (dir s)"])
       (simp_all add: readAll_def emit_def)
  show ?thesis
  proof (cases b)
    case True
    with np r have "bale_watchCycle nw st s = s1"
      by (simp add: bale_watchCycle_def emit_def)
    moreover from True o pre have "returned nw s s1" by (auto intro: returned_trans)
    ultimately show ?thesis using assms by (simp add: returned_def)
  next
    case False
    with np r have eq: "bale_watchCycle nw st s = bale_fatal s1"
      by (simp add: bale_watchCycle_def emit_def)
    have "\<not> returned nw (readAll ?s0) s1"
    proof
      assume "returned nw (readAll ?s0) s1"
      with pre have "returned nw s s1" by (rule returned_trans)
      with assms eq show False by (simp add: returned_def bale_fatal_facts)
    qed
    with False o have "raised nw (readAll ?s0) s1" by auto
    with pre have "raised nw s s1" by (rule returned_raised)
    with eq show ?thesis by blast
  qed
qed

lemma bale_fatal_cycle:
  assumes "raisedDuring nw (calls s) (calls (bale_watchCycle nw st s))"
  shows "exited (bale_watchCycle nw st s) = Some 1"
    and "\<not> watching (bale_watchCycle nw st s)"
    and "processedFile (bale_watchCycle nw st s) = Some (processedPosts (bale_watchCycle nw st s))"
    and "nw (calls (bale_watchCycle nw st s) - 1) = Raises"
    and "\<exists>pre a. since s (bale_watchCycle nw st s) = pre @ a # fatalTail \<and> isCall a"
    and "bale_step nw (bale_watchCycle nw st s) (Tick st' d) = bale_watchCycle nw st s"
proof -
  from bale_watchCycle_fatal[OF assms] obtain s1 where
    eq: "bale_watchCycle nw st s = bale_fatal s1" and r: "raised nw s s1" by blast
  from eq show "exited (bale_watchCycle nw st s) = Some 1"
    and "\<not> watching (bale_watchCycle nw st s)"
    and "processedFile (bale_watchCycle nw st s) = Some (processedPosts (bale_watchCycle nw st s))"
    by (simp_all add: bale_fatal_facts)
  from eq r show "nw (calls (bale_watchCycle nw st s) - 1) = Raises"
    by (simp add: bale_fatal_facts raised_def)
  from r obtain pre a where "trace s1 = trace s @ pre @ [a]" "isCall a"
    by (auto simp: raised_def)
  then have "trace (bale_fatal s1) = trace s @ (pre @ a # fatalTail)" "isCall a"
    by (simp_all add: bale_fatal_facts)
  with eq show "\<exists>pre a. since s (bale_watchCycle nw st s) = pre @ a # fatalTail \<and> isCall a"
    by (auto simp: since_def)
  from eq show "bale_step nw (bale_watchCycle nw st s) (Tick st' d) = bale_watchCycle nw st s"
    by (simp add: bale_fatal_facts)
qed

lemma eitaa_sendFiles_outcome:
  "eitaa_sendFiles nw p fs s = (b, s') \<Longrightarrow> (if b then returned nw s s' else raised nw s s')"
proof (induction fs arbitrary: s)
  case Nil
  then show ?case by (auto simp: returned_refl)
next
  case (Cons f fs)
  let ?s1 = "(emit (SendFile p f) s)\<lparr>calls := calls s + 1\<rparr>"
  show ?case
  proof (cases "nw (calls s)")
    case Raises
    with Cons.prems have "b = False" "s' = ?s1"
      by (auto simp: eitaa_sendFile_def)
    with Raises show ?thesis using call_raised[of nw s "SendFile p f"] by simp
  next
    case (Returns x)
    with Cons.prems have "eitaa_sendFiles nw p fs ?s1 = (b, s')"
      by (simp add: eitaa_sendFile_def Let_def)
    from Cons.IH[OF this] have ih: "if b then returned nw ?s1 s' else raised nw ?s1 s'" .
    from Returns have "returned nw s ?s1" by (intro call_returned) simp
    with ih show ?thesis
      by (auto split: if_splits intro: returned_trans returned_raised)
  qed
qed

lemma eitaa_syncTail_returned:
  "returned nw s (eitaa_deletePostAndMedia p (emit (Synced k)
      (eitaa_saveProcessedPosts (s\<lparr>eitaaProcessed := insert (id_p p) (eitaaProcessed s)\<rparr>))))"
  by (rule returnedI[where out = "SaveProcessed # Synced k # map UnlinkMedia (media p) @ [UnlinkPost (id_p p)]"])
     (simp_all add: eitaa_deletePostAndMedia_def emit_def eitaa_saveProcessedPosts_def Let_def)

lemma eitaa_syncPost_outcome:
  assumes "eitaa_syncPost nw p s = (b, s')"
  shows "if b then returned nw s s' else raised nw s s'"
proof -
  let ?s = "emit (Syncing p) s"
  have r0: "returned nw s ?s" by (rule returnedI[where out = "[Syncing p]"]) (simp_all add: emit_def)
  obtain b1 s1 where sent:
    "(if media p \<noteq> [] then eitaa_sendFiles nw p (media p) ?s
      else if truthy_str (text_p p) then eitaa_sendMessage nw p ?s
      else (True, ?s)) = (b1, s1)" by fastforce
  have o: "if b1 then returned nw ?s s1 else raised nw ?s s1"
  proof (cases "media p \<noteq> []")
    case True
    with sent have "eitaa_sendFiles nw p (media p) ?s = (b1, s1)" by simp
    then show ?thesis by (rule eitaa_sendFiles_outcome)
  next
    case False
    show ?thesis
    proof (cases "truthy_str (text_p p)")
      case t: True
      let ?s1 = "(emit (SendMessage p) ?s)\<lparr>calls := calls ?s + 1\<rparr>"
      show ?thesis
      proof (cases "nw (calls ?s)")
        case Raises
        with sent False t have "b1 = False" "s1 = ?s1"
          by (auto simp: eitaa_sendMessage_def)
        moreover from Raises have "raised nw ?s ?s1" by (intro call_raised) simp_all
        ultimately show ?thesis by simp
      next
        case (Returns x)
        with sent False t have "b1" "s1 = ?s1"
          by (auto simp: eitaa_sendMessage_def)
        moreover from Returns have "returned nw ?s ?s1" by (intro call_returned) simp
        ultimately show ?thesis by simp
      qed
    next
      case f: False
      with sent False have "b1" "s1 = ?s" by auto
      then show ?thesis by (simp add: returned_refl)
    qed
  qed
  show ?thesis
  proof (cases b1)
    case False
    with assms sent have "b = False" "s' = s1" by (auto simp: eitaa_syncPost_def Let_def)
    with o False r0 show ?thesis by (auto intro: returned_raised)
  next
    case True
    with assms sent have "b" and
      "s' = eitaa_deletePostAndMedia p (emit (Synced (id_p p))
              (eitaa_saveProcessedPosts (s1\<lparr>eitaaProcessed := insert (id_p p) (eitaaProcessed s1)\<rparr>)))"
      by (auto simp: eitaa_syncPost_def Let_def)
    with o True r0 show ?thesis
      using eitaa_syncTail_returned[of nw s1 p "id_p p"] by (auto intro: returned_trans)
  qed
qed

lemma eitaa_watchLoop_outcome:
  "eitaa_watchLoop nw ps s = (b, s') \<Longrightarrow>
     (if b then returned nw s s' else raised nw s s' \<or> returned nw s s')"
proof (induction ps arbitrary: s)
  case Nil
  then show ?case by (auto simp: returned_refl)
next
  case (Cons p ps)
  show ?case
  proof (cases "toISOString_throws (date p)")
    case True
    with Cons.prems have "b = False" "s' = s" by simp_all
    then show ?thesis by (simp add: returned_refl)
  next
    case ok: False
    obtain b1 s1 where st: "eitaa_syncPost nw p s = (b1, s1)" by fastforce
    note o1 = eitaa_syncPost_outcome[OF st]
    show ?thesis
    proof (cases b1)
      case False
      with Cons.prems st ok have "b = False" "s' = s1" by simp_all
      with o1 False show ?thesis by simp
    next
      case True
      with Cons.prems st ok have "eitaa_watchLoop nw ps s1 = (b, s')" by simp
      from Cons.IH[OF this] o1 True show ?thesis
        by (auto intro: returned_trans returned_raised split: if_splits)
    qed
  qed
qed

lemma eitaa_fatal_facts:
  "exited (eitaa_fatal s) = Some 1" "\<not> watching (eitaa_fatal s)"
  "eitaaFile (eitaa_fatal s) = Some (eitaaProcessed (eitaa_fatal s))"
  "calls (eitaa_fatal s) = calls s"
  "trace (eitaa_fatal s) = trace s @ fatalTail"
  by (simp_all add: eitaa_fatal_def emit_def eitaa_saveProcessedPosts_def fatalTail_def)

lemma eitaa_watchCycle_fatal:
  assumes "raisedDuring nw (calls s) (calls (eitaa_watchCycle nw st s))"
  shows "\<exists>s1. eitaa_watchCycle nw st s = eitaa_fatal s1 \<and> raised nw s s1"
proof -
  let ?s0 = "emit ReadStatus s"
  let ?un = "filter (\<lambda>postData. \<not> truthy_bool (deleted postData)
                 \<and> id_p postData \<notin> eitaaProcessed s) (loadAndSortPosts (dir s))"
  have np: "\<not> isTelegramSyncInProgress st"
  proof
    assume "isTelegramSyncInProgress st"
    then have "calls (eitaa_watchCycle nw st s) = calls s"
      by (simp add: eitaa_watchCycle_def emit_def)
    with assms show False by (simp add: raisedDuring_def)
  qed
  obtain b s1 where r: "eitaa_watchLoop nw ?un (readAll ?s0) = (b, s1)"
    by fastforce
  note o = eitaa_watchLoop_outcome[OF r]
  have pre: "returned nw s (readAll ?s0)"
    by (rule returnedI[where out = "ReadStatus # ReadDir # map (\<lambda>e. ReadPost (fst e)) (dir s)"])
       (simp_all add: readAll_def emit_def)
  show ?thesis
  proof (cases b)
    case True
    with np r have "eitaa_watchCycle nw st s = s1"
      by (simp add: eitaa_watchCycle_def emit_def readAll_def)
    moreover from True o pre have "returned nw s s1" by (auto intro: returned_trans)
    ultimately show ?thesis using assms by (simp add: returned_def)
  next
    case False
    with np r have eq: "eitaa_watchCycle nw st s = eitaa_fatal s1"
      by (simp add: eitaa_watchCycle_def emit_def readAll_def)
    have "\<not> returned nw (readAll ?s0) s1"
    proof
      assume "returned nw (readAll ?s0) s1"
      with pre have "returned nw s s1" by (rule returned_trans)
      with assms eq show False by (simp add: returned_def eitaa_fatal_facts)
    qed
    with False o have "raised nw (readAll ?s0) s1" by auto
    with pre have "raised nw s s1" by (rule returned_raised)
    with eq show ?thesis by blast
  qed
qed

lemma eitaa_fatal_cycle:
  assumes "raisedDuring nw (calls s) (calls (eitaa_watchCycle nw st s))"
  shows "exited (eitaa_watchCycle nw st s) = Some 1"
    and "\<not> watching (eitaa_watchCycle nw st s)"
    and "eitaaFile (eitaa_watchCycle nw st s) = Some (eitaaProcessed (eitaa_watchCycle nw st s))"
    and "nw (calls (eitaa_watchCycle nw st s) - 1) = Raises"
    and "\<exists>pre a. since s (eitaa_watchCycle nw st s) = pre @ a # fatalTail \<and> isCall a"
    and "eitaa_step nw (eitaa_watchCycle nw st s) (Tick st' d) = eitaa_watchCycle nw st s"
proof -
  from eitaa_watchCycle_fatal[OF assms] obtain s1 where
    eq: "eitaa_watchCycle nw st s = eitaa_fatal s1" and r: "raised nw s s1" by blast
  from eq show "exited (eitaa_watchCycle nw st s) = Some 1"
    and "\<not> watching (eitaa_watchCycle nw st s)"
    and "eitaaFile (eitaa_watchCycle nw st s) = Some (eitaaProcessed (eitaa_watchCycle nw st s))"
    by (simp_all add: eitaa_fatal_facts)
  from eq r show "nw (calls (eitaa_watchCycle nw st s) - 1) = Raises"
    by (simp add: eitaa_fatal_facts raised_def)
  from r obtain pre a where "trace s1 = trace s @ pre @ [a]" "isCall a"
    by (auto simp: raised_def)
  then have "trace (eitaa_fatal s1) = trace s @ (pre @ a # fatalTail)" "isCall a"
    by (simp_all add: eitaa_fatal_facts)
  with eq show "\<exists>pre a. since s (eitaa_watchCycle nw st s) = pre @ a # fatalTail \<and> isCall a"
    by (auto simp: since_def)
  from eq show "eitaa_step nw (eitaa_watchCycle nw st s) (Tick st' d) = eitaa_watchCycle nw st s"
    by (simp add: eitaa_fatal_facts)
qed

section \<open>What a syncer keeps of its ledger\<close>

lemma bale_keeps_refl: "bale_keeps s s"
  by (simp add: bale_keeps_def)

lemma bale_keeps_trans: "bale_keeps s s1 \<Longrightarrow> bale_keeps s1 s2 \<Longrightarrow> bale_keeps s s2"
  unfolding bale_keeps_def by auto

lemma bale_sendFiles_frame:
  "bale_sendFiles nw p fs mid s = (r, s') \<Longrightarrow> s' = s\<lparr>trace := trace s', calls := calls s'\<rparr>"
proof (induction fs arbitrary: mid s)
  case Nil
  then show ?case by simp
next
  case (Cons f fs)
  let ?s1 = "(emit (SendFile p f) s)\<lparr>calls := calls s + 1\<rparr>"
  show ?case
  proof (cases "nw (calls s)")
    case Raises
    with Cons.prems show ?thesis by (auto simp: bale_sendFile_def emit_def)
  next
    case (Returns x)
    with Cons.prems
    have "bale_sendFiles nw p fs (case x of None \<Rightarrow> mid | Some m \<Rightarrow> m) ?s1 = (r, s')"
      by (simp add: bale_sendFile_def Let_def)
    from Cons.IH[OF this] have "s' = ?s1\<lparr>trace := trace s', calls := calls s'\<rparr>" .
    then show ?thesis by (simp add: emit_def)
  qed
qed

lemma bale_syncPost_state:
  assumes "bale_syncPost nw p s = (b, s')"
  shows "b \<Longrightarrow> \<exists>mid. processedPosts s' = (processedPosts s)(id_p p \<mapsto>
              \<lparr>c_date = date p, c_editDate = editDate p, c_deleted = deleted p, baleMessageId = mid\<rparr>)"
    and "b \<Longrightarrow> processedFile s' = Some (processedPosts s')"
    and "b \<Longrightarrow> dir s' = unlinkPost (id_p p) (dir s)"
    and "\<not> b \<Longrightarrow> processedPosts s' = processedPosts s \<and> processedFile s' = processedFile s \<and> dir s' = dir s"
    and "watching s' = watching s" and "exited s' = exited s"
proof -
  let ?s = "emit (Syncing p) s"
  obtain r s1 where sent: "(if media p \<noteq> [] then bale_sendFiles nw p (media p) None ?s
             else if truthy_str (text_p p) then
               (case bale_sendMessage nw p ?s of
                  (None, s1) \<Rightarrow> (None, s1)
                | (Some r, s1) \<Rightarrow> (Some (case r of None \<Rightarrow> None | Some m \<Rightarrow> m), s1))
             else (Some None, ?s)) = (r, s1)" by fastforce
  have fr: "s1 = s\<lparr>trace := trace s1, calls := calls s1\<rparr>"
  proof (cases "media p \<noteq> []")
    case True
    with sent have "bale_sendFiles nw p (media p) None ?s = (r, s1)" by simp
    from bale_sendFiles_frame[OF this] show ?thesis by (simp add: emit_def)
  next
    case False
    with sent show ?thesis
      by (auto simp: bale_sendMessage_def emit_def Let_def split: if_splits response.splits)
  qed
  from assms sent have res: "(b, s') = (case r of None \<Rightarrow> (False, s1)
      | Some mid \<Rightarrow> (True, bale_deletePostAndMedia p (emit (Synced (id_p p))
                  (bale_saveProcessedPosts (bale_setProcessed p mid s1)))))"
    by (simp add: bale_syncPost_def Let_def)
  have pp: "processedPosts s1 = processedPosts s" "processedFile s1 = processedFile s"
    "dir s1 = dir s" "watching s1 = watching s" "exited s1 = exited s"
    by (subst fr, simp)+
  from res pp show "b \<Longrightarrow> \<exists>mid. processedPosts s' = (processedPosts s)(id_p p \<mapsto>
              \<lparr>c_date = date p, c_editDate = editDate p, c_deleted = deleted p, baleMessageId = mid\<rparr>)"
    by (auto simp: bale_deletePostAndMedia_def emit_def bale_saveProcessedPosts_def
        bale_setProcessed_def Let_def split: option.splits)
  from res pp show "b \<Longrightarrow> processedFile s' = Some (processedPosts s')"
    by (auto simp: bale_deletePostAndMedia_def emit_def bale_saveProcessedPosts_def
        bale_setProcessed_def Let_def split: option.splits)
  from res pp show "b \<Longrightarrow> dir s' = unlinkPost (id_p p) (dir s)"
    by (auto simp: bale_deletePostAndMedia_def emit_def bale_saveProcessedPosts_def
        bale_setProcessed_def Let_def split: option.splits)
  from res pp show "\<not> b \<Longrightarrow> processedPosts s' = processedPosts s \<and> processedFile s' = processedFile s \<and> dir s' = dir s"
    by (auto split: option.splits)
  from res pp show "watching s' = watching s" "exited s' = exited s"
    by (auto simp: bale_deletePostAndMedia_def emit_def bale_saveProcessedPosts_def
        bale_setProcessed_def Let_def split: option.splits)
qed

lemma bale_syncPost_keeps:
  assumes "bale_syncPost nw p s = (b, s')"
  shows "bale_keeps s s'"
proof (cases b)
  case True
  with bale_syncPost_state[OF assms] show ?thesis
    by (auto simp: bale_keeps_def)
next
  case False
  with bale_syncPost_state[OF assms] show ?thesis
    by (auto simp: bale_keeps_def)
qed

lemma bale_update_keeps:
  "bale_keeps s (bale_deletePostData p (bale_saveProcessedPosts (bale_setProcessed p m s)))"
  by (simp add: bale_keeps_def bale_deletePostData_def bale_saveProcessedPosts_def
      bale_setProcessed_def emit_def)

lemma bale_update_trace:
  "trace (bale_deletePostData p (bale_saveProcessedPosts (bale_setProcessed p m s)))
     = trace s @ [SaveProcessed, UnlinkPost (id_p p)]"
  by (simp add: bale_deletePostData_def bale_saveProcessedPosts_def bale_setProcessed_def emit_def)

lemma bale_deletePostData_keeps: "bale_keeps s (bale_deletePostData p s)"
  by (simp add: bale_keeps_def bale_deletePostData_def emit_def)

lemma bale_deleteMessage_keeps:
  assumes "bale_deleteMessage nw p m s = (b, s')"
  shows "bale_keeps s s'"
  using assms
  by (auto simp: bale_deleteMessage_def bale_keeps_def emit_def Let_def
      split: option.splits if_splits response.splits)

lemma bale_watchPost_keeps:
  assumes "bale_watchPost nw p s = (b, s')"
  shows "bale_keeps s s'"
proof (cases "processedPosts s (id_p p)")
  case None
  show ?thesis
  proof (cases "truthy_bool (deleted p)")
    case False
    show ?thesis
    proof (cases "toISOString_throws (date p)")
      case True
      with None False assms have "s' = s" by (auto simp: bale_watchPost_def)
      then show ?thesis by (simp add: bale_keeps_refl)
    next
      case ok: False
      with None False assms have "bale_syncPost nw p s = (b, s')"
        by (simp add: bale_watchPost_def)
      then show ?thesis by (rule bale_syncPost_keeps)
    qed
  next
    case True
    with None assms have
      "s' = bale_deletePostData p (bale_saveProcessedPosts (bale_setProcessed p None s))"
      by (auto simp: bale_watchPost_def)
    then show ?thesis by (simp add: bale_update_keeps)
  qed
next
  case (Some c)
  obtain b1 s1 where d: "bale_deleteMessage nw p (baleMessageId c) s = (b1, s1)" by fastforce
  note ds = bale_deleteMessage_keeps[OF d]
  from Some assms d have
    "s' = s \<or> s' = s1 \<or> s' = bale_deletePostData p s
     \<or> s' = bale_deletePostData p (bale_saveProcessedPosts (bale_setProcessed p (baleMessageId c) s))
     \<or> s' = bale_deletePostData p (bale_saveProcessedPosts (bale_setProcessed p (baleMessageId c) s1))"
    by (auto simp: bale_watchPost_def split: if_splits bool.splits)
  with ds bale_deletePostData_keeps[of s p] bale_update_keeps[of s p "baleMessageId c"]
    bale_update_keeps[of s1 p "baleMessageId c"] show ?thesis
    by (auto intro: bale_keeps_refl bale_keeps_trans)
qed

lemma bale_watchLoop_keeps:
  "bale_watchLoop nw ps s = (b, s') \<Longrightarrow> bale_keeps s s'"
proof (induction ps arbitrary: s)
  case Nil
  then show ?case by (simp add: bale_keeps_refl)
next
  case (Cons p ps)
  obtain b1 s1 where st: "bale_watchPost nw p s = (b1, s1)" by fastforce
  note o1 = bale_watchPost_keeps[OF st]
  show ?case
  proof (cases b1)
    case False
    with Cons.prems st have "s' = s1" by simp
    with o1 show ?thesis by simp
  next
    case True
    with Cons.prems st have "bale_watchLoop nw ps s1 = (b, s')" by simp
    from Cons.IH[OF this] o1 show ?thesis by (auto intro: bale_keeps_trans)
  qed
qed

lemma bale_syncExistingLoop_keeps:
  "bale_syncExistingLoop nw ps s = (b, s') \<Longrightarrow> bale_keeps s s'"
proof (induction ps arbitrary: s)
  case Nil
  then show ?case by (simp add: bale_keeps_refl)
next
  case (Cons p ps)
  show ?case
  proof (cases "\<not> truthy_bool (deleted p) \<and> processedPosts s (id_p p) = None")
    case False
    with Cons.prems have "bale_syncExistingLoop nw ps s = (b, s')" by auto
    then show ?thesis by (rule Cons.IH)
  next
    case True
    obtain b1 s1 where st: "bale_syncPost nw p s = (b1, s1)" by fastforce
    note o1 = bale_syncPost_keeps[OF st]
    show ?thesis
    proof (cases b1)
      case False
      with Cons.prems st True have "s' = s1" by simp
      with o1 show ?thesis by simp
    next
      case b1: True
      with Cons.prems st True have "bale_syncExistingLoop nw ps s1 = (b, s')" by simp
      from Cons.IH[OF this] o1 show ?thesis by (auto intro: bale_keeps_trans)
    qed
  qed
qed

lemma eitaa_keeps_refl: "eitaa_keeps s s"
  by (simp add: eitaa_keeps_def)

lemma eitaa_keeps_trans: "eitaa_keeps s s1 \<Longrightarrow> eitaa_keeps s1 s2 \<Longrightarrow> eitaa_keeps s s2"
  unfolding eitaa_keeps_def by auto

lemma eitaa_sendFiles_frame:
  "eitaa_sendFiles nw p fs s = (r, s') \<Longrightarrow> s' = s\<lparr>trace := trace s', calls := calls s'\<rparr>"
proof (induction fs arbitrary: s)
  case Nil
  then show ?case by simp
next
  case (Cons f fs)
  let ?s1 = "(emit (SendFile p f) s)\<lparr>calls := calls s + 1\<rparr>"
  show ?case
  proof (cases "nw (calls s)")
    case Raises
    with Cons.prems show ?thesis by (auto simp: eitaa_sendFile_def emit_def)
  next
    case (Returns x)
    with Cons.prems have "eitaa_sendFiles nw p fs ?s1 = (r, s')"
      by (simp add: eitaa_sendFile_def Let_def)
    from Cons.IH[OF this] have "s' = ?s1\<lparr>trace := trace s', calls := calls s'\<rparr>" .
    then show ?thesis by (simp add: emit_def)
  qed
qed

lemma eitaa_syncPost_state:
  assumes "eitaa_syncPost nw p s = (b, s')"
  shows "b \<Longrightarrow> eitaaProcessed s' = insert (id_p p) (eitaaProcessed s)"
    and "b \<Longrightarrow> eitaaFile s' = Some (eitaaProcessed s')"
    and "b \<Longrightarrow> dir s' = unlinkPost (id_p p) (dir s)"
    and "\<not> b \<Longrightarrow> eitaaProcessed s' = eitaaProcessed s \<and> eitaaFile s' = eitaaFile s \<and> dir s' = dir s"
    and "watching s' = watching s" and "exited s' = exited s"
proof -
  let ?s = "emit (Syncing p) s"
  obtain r s1 where sent: "(if media p \<noteq> [] then eitaa_sendFiles nw p (media p) ?s
             else if truthy_str (text_p p) then eitaa_sendMessage nw p ?s
             else (True, ?s)) = (r, s1)" by fastforce
  have fr: "s1 = s\<lparr>trace := trace s1, calls := calls s1\<rparr>"
  proof (cases "media p \<noteq> []")
    case True
    with sent have "eitaa_sendFiles nw p (media p) ?s = (r, s1)" by simp
    from eitaa_sendFiles_frame[OF this] show ?thesis by (simp add: emit_def)
  next
    case False
    with sent show ?thesis
      by (auto simp: eitaa_sendMessage_def emit_def Let_def split: if_splits response.splits)
  qed
  from assms sent have res: "(b, s') = (if r then (True, eitaa_deletePostAndMedia p
                (emit (Synced (id_p p))
                  (eitaa_saveProcessedPosts
                    (s1\<lparr>eitaaProcessed := insert (id_p p) (eitaaProcessed s1)\<rparr>)))) else (False, s1))"
    by (simp add: eitaa_syncPost_def Let_def split: bool.splits)
  have pp: "eitaaProcessed s1 = eitaaProcessed s" "eitaaFile s1 = eitaaFile s"
    "dir s1 = dir s" "watching s1 = watching s" "exited s1 = exited s"
    by (subst fr, simp)+
  from res pp show "b \<Longrightarrow> eitaaProcessed s' = insert (id_p p) (eitaaProcessed s)"
    and "b \<Longrightarrow> eitaaFile s' = Some (eitaaProcessed s')"
    and "b \<Longrightarrow> dir s' = unlinkPost (id_p p) (dir s)"
    and "\<not> b \<Longrightarrow> eitaaProcessed s' = eitaaProcessed s \<and> eitaaFile s' = eitaaFile s \<and> dir s' = dir s"
    and "watching s' = watching s" and "exited s' = exited s"
    by (auto simp: eitaa_deletePostAndMedia_def emit_def eitaa_saveProcessedPosts_def
        Let_def split: if_splits)
qed

lemma eitaa_syncPost_keeps:
  assumes "eitaa_syncPost nw p s = (b, s')"
  shows "eitaa_keeps s s'"
  using eitaa_syncPost_state[OF assms] by (cases b) (auto simp: eitaa_keeps_def)

lemma eitaa_syncExistingLoop_keeps:
  "eitaa_syncExistingLoop nw ps s = (b, s') \<Longrightarrow> eitaa_keeps s s'"
proof (induction ps arbitrary: s)
  case Nil
  then show ?case by (simp add: eitaa_keeps_refl)
next
  case (Cons p ps)
  show ?case
  proof (cases "\<not> truthy_bool (deleted p) \<and> id_p p \<notin> eitaaProcessed s")
    case False
    with Cons.prems have "eitaa_syncExistingLoop nw ps s = (b, s')" by auto
    then show ?thesis by (rule Cons.IH)
  next
    case True
    obtain b1 s1 where st: "eitaa_syncPost nw p s = (b1, s1)" by fastforce
    note o1 = eitaa_syncPost_keeps[OF st]
    show ?thesis
    proof (cases b1)
      case False
      with Cons.prems st True have "s' = s1" by simp
      with o1 show ?thesis by simp
    next
      case b1: True
      with Cons.prems st True have "eitaa_syncExistingLoop nw ps s1 = (b, s')" by simp
      from Cons.IH[OF this] o1 show ?thesis by (auto intro: eitaa_keeps_trans)
    qed
  qed
qed

lemma bale_sendFiles_ok:
  "bale_sendFiles nw p fs mid s = (Some r, s') \<Longrightarrow>
     trace s' = trace s @ map (SendFile p) fs \<and> calls s' = calls s + length fs
     \<and> (fs \<noteq> [] \<longrightarrow> (\<forall>x. nw (calls s + length fs - 1) = Returns (Some x) \<longrightarrow> r = x))"
proof (induction fs arbitrary: mid s)
  case Nil
  then show ?case by simp
next
  case (Cons f fs)
  let ?s1 = "(emit (SendFile p f) s)\<lparr>calls := calls s + 1\<rparr>"
  show ?case
  proof (cases "nw (calls s)")
    case Raises
    with Cons.prems show ?thesis by (simp add: bale_sendFile_def)
  next
    case (Returns y)
    let ?mid = "case y of None \<Rightarrow> mid | Some m \<Rightarrow> m"
    from Cons.prems Returns have l: "bale_sendFiles nw p fs ?mid ?s1 = (Some r, s')"
      by (simp add: bale_sendFile_def Let_def)
    from Cons.IH[OF l] have ih: "trace s' = trace ?s1 @ map (SendFile p) fs"
      "calls s' = calls ?s1 + length fs"
      "fs \<noteq> [] \<longrightarrow> (\<forall>x. nw (calls ?s1 + length fs - 1) = Returns (Some x) \<longrightarrow> r = x)"
      by simp_all
    have last: "\<forall>x. nw (calls s + length (f # fs) - 1) = Returns (Some x) \<longrightarrow> r = x"
    proof (cases "fs = []")
      case True
      with l have "r = ?mid" by simp
      with True Returns show ?thesis by auto
    next
      case False
      with ih(3) show ?thesis by (simp add: emit_def)
    qed
    from ih(1,2) last show ?thesis by (simp add: emit_def)
  qed
qed

lemma isCall_unlinks: "filter isCall (map UnlinkMedia ms) = []"
  by (induction ms) simp_all

lemma isCall_sendFiles: "filter isCall (map (SendFile p) fs) = map (SendFile p) fs"
  by (induction fs) simp_all

lemma bale_syncPost_media:
  assumes "bale_syncPost nw p s = (True, s1)" "media p \<noteq> []"
    and "nw (calls s + length (media p) - 1) = Returns (Some x)"
  shows "processedPosts s1 (id_p p) =
           Some \<lparr>c_date = date p, c_editDate = editDate p, c_deleted = deleted p, baleMessageId = x\<rparr>"
    and "filter isCall (since s s1) = map (SendFile p) (media p)"
proof -
  let ?s = "emit (Syncing p) s"
  obtain r s0 where sf: "bale_sendFiles nw p (media p) None ?s = (r, s0)" by fastforce
  with assms(1,2) obtain mid where r: "r = Some mid"
    and s1: "s1 = bale_deletePostAndMedia p (emit (Synced (id_p p))
                (bale_saveProcessedPosts (bale_setProcessed p mid s0)))"
    by (auto simp: bale_syncPost_def Let_def split: option.splits)
  from bale_sendFiles_ok[OF sf[unfolded r]] assms(2,3)
  have t: "trace s0 = trace ?s @ map (SendFile p) (media p)" and m: "mid = x"
    by (simp_all add: emit_def)
  from s1 m show "processedPosts s1 (id_p p) =
           Some \<lparr>c_date = date p, c_editDate = editDate p, c_deleted = deleted p, baleMessageId = x\<rparr>"
    by (simp add: bale_deletePostAndMedia_def emit_def bale_saveProcessedPosts_def
        bale_setProcessed_def Let_def)
  from s1 t have "trace s1 = trace s @ (Syncing p # map (SendFile p) (media p) @ syncTail p)"
    by (simp add: bale_deletePostAndMedia_def emit_def bale_saveProcessedPosts_def
        bale_setProcessed_def Let_def syncTail_def)
  then have "since s s1 = Syncing p # map (SendFile p) (media p) @ syncTail p"
    by (rule since_append)
  then show "filter isCall (since s s1) = map (SendFile p) (media p)"
    by (simp add: syncTail_def isCall_unlinks isCall_sendFiles)
qed

lemma bale_watchPost_delete:
  assumes "processedPosts s (id_p q) = Some c" "truthy_bool (deleted q)"
    "\<not> truthy_bool (c_deleted c)" "baleMessageId c = Some m" "m \<noteq> 0"
  shows "filter isCall (since s (snd (bale_watchPost nw q s))) = [DeleteMessage (id_p q) m]"
    and "nw (calls s) \<noteq> Raises \<Longrightarrow>
           bale_watchPost nw q s =
             (True, bale_deletePostData q (bale_saveProcessedPosts (bale_setProcessed q (Some m)
                ((emit (DeleteMessage (id_p q) m) s)\<lparr>calls := calls s + 1\<rparr>))))"
proof -
  from assms(2,3) have ch: "c_deleted c \<noteq> deleted q" by (auto simp: truthy_bool_def)
  show "filter isCall (since s (snd (bale_watchPost nw q s))) = [DeleteMessage (id_p q) m]"
    using assms ch
    by (cases "nw (calls s)")
       (simp_all add: bale_watchPost_def bale_deleteMessage_def Let_def since_def emit_def
          bale_deletePostData_def bale_saveProcessedPosts_def bale_setProcessed_def)
  assume "nw (calls s) \<noteq> Raises"
  then show "bale_watchPost nw q s =
             (True, bale_deletePostData q (bale_saveProcessedPosts (bale_setProcessed q (Some m)
                ((emit (DeleteMessage (id_p q) m) s)\<lparr>calls := calls s + 1\<rparr>))))"
    using assms ch
    by (cases "nw (calls s)")
       (simp_all add: bale_watchPost_def bale_deleteMessage_def Let_def)
qed

section \<open>The outbound id of a post with several media files\<close>

text \<open>
  C10. When the Bale syncer delivers a record with two or more media files, it sends
  one file per media item, and the ledger entry of the record keeps the message id
  returned for the last item only. When the record later shows up deleted, the watch
  loop issues one API call for it: a delete call for that one message id, so the
  messages of the earlier items stay on the platform.
\<close>

theorem C10_last_media_id:
  assumes "bale_syncPost nw p s = (True, s1)" and "2 \<le> length (media p)"
    and "nw (calls s + length (media p) - 1) = Returns (Some (Some m))" and "m \<noteq> 0"
    and "\<not> truthy_bool (deleted p)"
    and "processedPosts s2 (id_p p) = processedPosts s1 (id_p p)"
    and "id_p q = id_p p" and "truthy_bool (deleted q)"
  shows "map_option baleMessageId (processedPosts s1 (id_p p)) = Some (Some m)
       \<and> filter isCall (since s s1) = map (SendFile p) (media p)
       \<and> filter isCall (since s2 (snd (bale_watchPost nw2 q s2))) = [DeleteMessage (id_p p) m]"
proof -
  from assms(2) have ne: "media p \<noteq> []" by auto
  note sp = bale_syncPost_media[OF assms(1) ne assms(3)]
  let ?c = "\<lparr>c_date = date p, c_editDate = editDate p, c_deleted = deleted p,
             baleMessageId = Some m\<rparr>"
  from sp(1) assms(6,7) have "processedPosts s2 (id_p q) = Some ?c" by simp
  from bale_watchPost_delete(1)[OF this assms(8), of m nw2] assms(4,5,7)
  have "filter isCall (since s2 (snd (bale_watchPost nw2 q s2))) = [DeleteMessage (id_p p) m]"
    by simp
  with sp show ?thesis by simp
qed

lemma mediaPost_synced: "fst (bale_syncPost allOk mediaPost bale0) = True"
  by code_simp

theorem C10_last_media_id_witness:
  "bale_syncPost allOk mediaPost bale0 = (True, snd (bale_syncPost allOk mediaPost bale0))
   \<and> map_option baleMessageId
        (processedPosts (snd (bale_syncPost allOk mediaPost bale0)) (MsgId 7)) = Some (Some 1001)
   \<and> filter isCall (since (snd (bale_syncPost allOk mediaPost bale0))
        (snd (bale_watchPost allOk (mediaPost\<lparr>deleted := Some True\<rparr>)
           (snd (bale_syncPost allOk mediaPost bale0))))) = [DeleteMessage (MsgId 7) 1001]"
proof -
  have 1: "bale_syncPost allOk mediaPost bale0 = (True, snd (bale_syncPost allOk mediaPost bale0))"
    using mediaPost_synced by (simp add: prod_eq_iff)
  have 2: "2 \<le> length (media mediaPost)" by (simp add: mediaPost_def)
  have 3: "allOk (calls bale0 + length (media mediaPost) - 1) = Returns (Some (Some 1001))"
    by (simp add: allOk_def bale0_def mediaPost_def)
  have 4: "(1001::int) \<noteq> 0" by simp
  have 5: "\<not> truthy_bool (deleted mediaPost)" by (simp add: mediaPost_def truthy_bool_def)
  have 7: "id_p (mediaPost\<lparr>deleted := Some True\<rparr>) = id_p mediaPost" by simp
  have 8: "truthy_bool (deleted (mediaPost\<lparr>deleted := Some True\<rparr>))"
    by (simp add: truthy_bool_def)
  have k: "id_p mediaPost = MsgId 7" by (simp add: mediaPost_def)
  from C10_last_media_id[OF 1 2 3 4 5 refl 7 8, of allOk] 1 show ?thesis
    unfolding k by blast
qed

lemma withReply_fields:
  "id_p (withReply m p) = id_p p" "editDate (withReply m p) = editDate p"
  "deleted (withReply m p) = deleted p"
  by (simp_all add: withReply_def split: option.splits reply.splits)

lemma downloadMedia_posts: "posts (snd (downloadMedia m e)) = posts e"
  by (simp add: downloadMedia_def Let_def split: option.splits)

lemma downloadAll_posts: "posts (snd (downloadAll ms acc e)) = posts e"
proof (induction ms arbitrary: acc e)
  case Nil
  then show ?case by simp
next
  case (Cons m ms)
  show ?case
  proof (cases "m_media m")
    case None
    with Cons show ?thesis by simp
  next
    case (Some x)
    obtain fs e1 where d: "downloadMedia m e = (fs, e1)" by fastforce
    with downloadMedia_posts[of m e] have "posts e1 = posts e" by simp
    with Some d Cons[of "acc @ fs" e1] show ?thesis by simp
  qed
qed

lemma processMessage_posts:
  "\<exists>r. posts (processMessage m e) = (posts e)(MsgId (m_id m) \<mapsto> r) \<and> deleted r = None
        \<and> editDate r = m_editDate m \<and> id_p r = MsgId (m_id m)"
proof -
  let ?base = "withReply m \<lparr>id_p = MsgId (m_id m), date = Some (m_date m),
             editDate = m_editDate m, text_p = Some (m_text m), media = [],
             childMessages = None, replyToMsgId = None, replyToTopId = None,
             deleted = None, pinned = None, pinnedDate = None\<rparr>"
  have f: "deleted (?base\<lparr>media := fs\<rparr>) = None" "editDate (?base\<lparr>media := fs\<rparr>) = m_editDate m"
    "id_p (?base\<lparr>media := fs\<rparr>) = MsgId (m_id m)"
    "deleted ?base = None" "editDate ?base = m_editDate m" "id_p ?base = MsgId (m_id m)" for fs
    by (simp_all add: withReply_fields)
  show ?thesis
  proof (cases "m_media m")
    case None
    then have "posts (processMessage m e) = (posts e)(MsgId (m_id m) \<mapsto> ?base)"
      by (simp add: processMessage_def savePostData_def withReply_fields Let_def)
    with f show ?thesis by blast
  next
    case (Some x)
    obtain fs e1 where d: "downloadMedia m e = (fs, e1)" by fastforce
    with downloadMedia_posts[of m e] have "posts e1 = posts e" by simp
    with Some d have "posts (processMessage m e) = (posts e)(MsgId (m_id m) \<mapsto> ?base\<lparr>media := fs\<rparr>)"
      by (simp add: processMessage_def savePostData_def withReply_fields Let_def)
    with f show ?thesis by blast
  qed
qed

lemma withReply_childMessages: "childMessages (withReply m p) = childMessages p"
  by (simp add: withReply_def split: option.splits reply.splits)

lemma processMediaGroup_posts:
  "processMediaGroup ms e = e
   \<or> (\<exists>r. posts (processMediaGroup ms e) = (posts e)(GroupId (groupedId (hd (sort_key m_id ms))) \<mapsto> r)
          \<and> id_p r = GroupId (groupedId (hd (sort_key m_id ms)))
          \<and> childMessages r = Some (map m_id (sort_key m_id ms)) \<and> ms \<noteq> [])"
proof (cases "sort_key m_id ms")
  case Nil
  then show ?thesis by (simp add: processMediaGroup_def)
next
  case (Cons main rest)
  let ?base = "withReply main
                    \<lparr>id_p = GroupId (groupedId main), date = Some (m_date main),
                     editDate = m_editDate main, text_p = Some (m_text main),
                     media = [], childMessages = Some (map m_id (main # rest)),
                     replyToMsgId = None, replyToTopId = None,
                     deleted = None, pinned = None, pinnedDate = None\<rparr>"
  obtain fs e1 where d: "downloadAll (main # rest) [] e = (fs, e1)" by fastforce
  with downloadAll_posts[of "main # rest" "[]" e] have pe: "posts e1 = posts e" by simp
  from Cons have ne: "ms \<noteq> []" by auto
  from Cons d pe have "posts (processMediaGroup ms e) = (posts e)(GroupId (groupedId main) \<mapsto> ?base\<lparr>media := fs\<rparr>)"
    by (simp add: processMediaGroup_def savePostData_def withReply_fields Let_def)
  moreover have "id_p (?base\<lparr>media := fs\<rparr>) = GroupId (groupedId main)"
    "childMessages (?base\<lparr>media := fs\<rparr>) = Some (map m_id (main # rest))"
    by (simp_all add: withReply_fields withReply_childMessages)
  ultimately show ?thesis using Cons ne by auto
qed

lemma processMediaGroup_other:
  "posts (processMediaGroup ms e) (MsgId i) = posts e (MsgId i)"
  using processMediaGroup_posts[of ms e] by auto

lemma handleDeletedMessage_kept:
  "markedDeleted k e \<Longrightarrow> markedDeleted k (handleDeletedMessage j e)"
  by (auto simp: markedDeleted_def handleDeletedMessage_def getExistingPostData_def
      savePostData_def Let_def split: option.splits)

lemma handlePinned_kept:
  assumes "markedDeleted k e" "case fetched of None \<Rightarrow> True | Some m \<Rightarrow> m_id m = j"
    and "consistent e"
  shows "markedDeleted k (handlePinnedMessageById j pc fetched e)"
proof (cases "posts e (MsgId j)")
  case (Some r)
  with assms(3) have "id_p r = MsgId j" by (simp add: consistent_def)
  with Some assms(1) show ?thesis
    by (auto simp: markedDeleted_def handlePinnedMessageById_def getExistingPostData_def
        savePostData_def split: option.splits)
next
  case None
  show ?thesis
  proof (cases fetched)
    case n: None
    with None assms(1) show ?thesis
      by (simp add: handlePinnedMessageById_def getExistingPostData_def)
  next
    case (Some m)
    with assms(2) have mj: "m_id m = j" by simp
    from processMessage_posts[of m e] obtain r where
      r: "posts (processMessage m e) = (posts e)(MsgId j \<mapsto> r)" "id_p r = MsgId j"
      using mj by auto
    from None assms(1) have kj: "k \<noteq> MsgId j" by (auto simp: markedDeleted_def)
    with r assms(1) None Some show ?thesis
      by (auto simp: markedDeleted_def handlePinnedMessageById_def getExistingPostData_def
          savePostData_def Let_def split: option.splits)
  qed
qed

lemma savePostData_consistent: "consistent e \<Longrightarrow> consistent (savePostData r e)"
  by (simp add: consistent_def savePostData_def)

lemma consistent_posts: "consistent e \<Longrightarrow> posts e' = posts e \<Longrightarrow> consistent e'"
  by (simp add: consistent_def)

lemma consistent_upd: "consistent e \<Longrightarrow> posts e' = (posts e)(k \<mapsto> r) \<Longrightarrow> id_p r = k \<Longrightarrow> consistent e'"
  by (simp add: consistent_def)

lemma processMessage_consistent: "consistent e \<Longrightarrow> consistent (processMessage m e)"
  using processMessage_posts[of m e] consistent_upd by blast

lemma processMediaGroup_consistent: "consistent e \<Longrightarrow> consistent (processMediaGroup ms e)"
  using processMediaGroup_posts[of ms e] consistent_upd by metis

lemma handleDeletedMessage_consistent: "consistent e \<Longrightarrow> consistent (handleDeletedMessage j e)"
  by (auto simp: consistent_def handleDeletedMessage_def getExistingPostData_def
      savePostData_def Let_def split: option.splits if_splits)

lemma handlePinned_consistent:
  "consistent e \<Longrightarrow> consistent (handlePinnedMessageById j pc fetched e)"
proof -
  assume c: "consistent e"
  have sv: "consistent e1 \<Longrightarrow> posts e1 k = Some r \<Longrightarrow>
            consistent (savePostData (r\<lparr>pinned := Some True, pinnedDate := Some t\<rparr>) e1)" for e1 k r t
    by (auto simp: consistent_def savePostData_def)
  show ?thesis
    using c sv processMessage_consistent[OF c]
    by (auto simp: handlePinnedMessageById_def getExistingPostData_def Let_def split: option.splits)
qed

lemma handle_deleted_kept:
  "markedDeleted k e \<Longrightarrow> markedDeleted k (foldl (\<lambda>e i. handleDeletedMessage i e) e ids)"
  by (induction ids arbitrary: e) (simp_all add: handleDeletedMessage_kept)

lemma handle_deleted_consistent:
  "consistent e \<Longrightarrow> consistent (foldl (\<lambda>e i. handleDeletedMessage i e) e ids)"
  by (induction ids arbitrary: e) (simp_all add: handleDeletedMessage_consistent)

lemma handle_pinned_kept:
  "markedDeleted k e \<Longrightarrow> consistent e \<Longrightarrow>
   list_all (\<lambda>i. case gm i of None \<Rightarrow> True | Some m \<Rightarrow> m_id m = i) ids \<Longrightarrow>
   markedDeleted k (foldl (\<lambda>e i. handlePinnedMessageById i pc (gm i) e) e ids)"
proof (induction ids arbitrary: e)
  case Nil
  then show ?case by simp
next
  case (Cons i ids)
  from Cons.prems have "markedDeleted k (handlePinnedMessageById i pc (gm i) e)"
    by (intro handlePinned_kept) simp_all
  moreover from Cons.prems have "consistent (handlePinnedMessageById i pc (gm i) e)"
    by (intro handlePinned_consistent)
  ultimately show ?case using Cons by simp
qed

lemma handle_pinned_consistent:
  "consistent e \<Longrightarrow> consistent (foldl (\<lambda>e i. handlePinnedMessageById i pc (gm i) e) e ids)"
  by (induction ids arbitrary: e) (simp_all add: handlePinned_consistent)

lemma markedDeleted_other:
  "markedDeleted k e \<Longrightarrow> posts e' = (posts e)(j \<mapsto> r) \<Longrightarrow> j \<noteq> k \<Longrightarrow> markedDeleted k e'"
  by (simp add: markedDeleted_def)

lemma handleMediaGroup_arrive_posts: "posts (handleMediaGroup_arrive m e) = posts e"
  by (simp add: handleMediaGroup_arrive_def Let_def split: option.splits)

lemma handleMediaGroup_wake_other:
  "posts (handleMediaGroup_wake m e) (MsgId i) = posts e (MsgId i)"
  by (simp add: handleMediaGroup_wake_def Let_def processMediaGroup_other split: option.splits)

lemma handle_kept:
  assumes "markedDeleted (MsgId i) e" "consistent e" "\<not> rebuilds i ev" "fetchesById ev"
  shows "markedDeleted (MsgId i) (handle e ev)"
proof (cases ev)
  case (NewMessage m)
  with assms(3) have ne: "MsgId (m_id m) \<noteq> MsgId i" by simp
  from processMessage_posts[of m e] obtain r where
    "posts (processMessage m e) = (posts e)(MsgId (m_id m) \<mapsto> r)" by blast
  with assms(1) ne have "markedDeleted (MsgId i) (processMessage m e)"
    using markedDeleted_other by blast
  with NewMessage assms(1) show ?thesis
    by (simp add: markedDeleted_def handleMediaGroup_arrive_posts)
next
  case (GroupTimer m)
  with assms(1) show ?thesis by (simp add: markedDeleted_def handleMediaGroup_wake_other)
next
  case (EditedMessage m)
  with assms(3) have ne: "MsgId (m_id m) \<noteq> MsgId i" by simp
  from processMessage_posts[of m e] obtain r where
    "posts (processMessage m e) = (posts e)(MsgId (m_id m) \<mapsto> r)" by blast
  with assms(1) ne have "markedDeleted (MsgId i) (processMessage m e)"
    using markedDeleted_other by blast
  with EditedMessage assms(1) show ?thesis by simp
next
  case (DeletedMessage ids)
  with assms(1) show ?thesis by (simp add: handle_deleted_kept)
next
  case (UpdatePinnedMessages ids pc gm)
  with assms show ?thesis by (simp add: handle_pinned_kept)
qed

lemma syncLoop_step_kept:
  assumes "posts e (MsgId i) = Some r"
    and "groupedId message = None \<and> m_id message = i \<longrightarrow> m_editDate message = editDate r"
  shows "\<exists>c' e'. syncLoop messages (message # rest) c e = syncLoop messages rest c' e'
           \<and> posts e' (MsgId i) = Some r"
proof -
  obtain n u k where c: "c = (n, u, k)" by (cases c) auto
  let ?gm = "filter (\<lambda>m. groupedId m = groupedId message) messages"
  have pg: "posts (processMediaGroup ?gm e) (MsgId i) = Some r"
    using assms(1) by (simp add: processMediaGroup_other)
  have pm: "m_id message \<noteq> i \<Longrightarrow> posts (processMessage message e) (MsgId i) = Some r"
  proof -
    assume ne: "m_id message \<noteq> i"
    from processMessage_posts[of message e] obtain r' where
      "posts (processMessage message e) = (posts e)(MsgId (m_id message) \<mapsto> r')" by blast
    with ne assms(1) show ?thesis by simp
  qed
  show ?thesis
  proof (cases "groupedId message")
    case (Some g)
    show ?thesis
    proof (cases "getExistingPostData (GroupId (Some g)) e")
      case None
      with Some c assms(1) pg show ?thesis by (auto simp: Let_def)
    next
      case ex: (Some existingGroup)
      with Some c assms(1) pg show ?thesis by (auto simp: Let_def)
    qed
  next
    case None
    show ?thesis
    proof (cases "getExistingPostData (MsgId (m_id message)) e")
      case n: None
      with assms(1) have "m_id message \<noteq> i" by (auto simp: getExistingPostData_def)
      with pm None n c show ?thesis by auto
    next
      case ex: (Some existingPost)
      show ?thesis
      proof (cases "m_id message = i")
        case True
        with ex assms(1) have er: "existingPost = r" by (simp add: getExistingPostData_def)
        from True None assms(2) have "m_editDate message = editDate r" by simp
        with er have nc: "\<not> hasPostChanged existingPost (withReply message
                      \<lparr>id_p = MsgId (m_id message), date = Some (m_date message),
                       editDate = m_editDate message, text_p = Some (m_text message),
                       media = [], childMessages = None,
                       replyToMsgId = None, replyToTopId = None,
                       deleted = None, pinned = None, pinnedDate = None\<rparr>)"
          by (simp add: hasPostChanged_def withReply_fields)
        with None ex c assms(1) show ?thesis by (auto simp: Let_def)
      next
        case False
        with pm None ex c assms(1) show ?thesis by (auto simp: Let_def)
      qed
    qed
  qed
qed

lemma syncLoop_kept:
  "posts e (MsgId i) = Some r \<Longrightarrow>
   \<forall>m\<in>set rest. groupedId m = None \<and> m_id m = i \<longrightarrow> m_editDate m = editDate r \<Longrightarrow>
   posts (snd (syncLoop all rest c e)) (MsgId i) = Some r"
proof (induction rest arbitrary: c e)
  case Nil
  then show ?case by simp
next
  case (Cons message rest)
  from Cons.prems(2) have m: "groupedId message = None \<and> m_id message = i \<longrightarrow> m_editDate message = editDate r"
    and rest: "\<forall>m\<in>set rest. groupedId m = None \<and> m_id m = i \<longrightarrow> m_editDate m = editDate r"
    by simp_all
  from syncLoop_step_kept[OF Cons.prems(1) m, of all rest c] obtain c' e' where
    st: "syncLoop all (message # rest) c e = syncLoop all rest c' e'"
    and p: "posts e' (MsgId i) = Some r" by blast
  from Cons.IH[OF p rest, of c'] st show ?case by simp
qed

lemma syncLatestPosts_kept:
  assumes "posts e (MsgId i) = Some r"
    and "\<forall>m\<in>set msgs. groupedId m = None \<and> m_id m = i \<longrightarrow> m_editDate m = editDate r"
  shows "posts (syncLatestPosts (Some msgs) limit e) (MsgId i) = Some r"
proof -
  let ?e0 = "e\<lparr>syncStatus := Status (InProgress (clock e) limit)\<rparr>"
  from assms(1) have "posts ?e0 (MsgId i) = Some r" by simp
  from syncLoop_kept[OF this assms(2), of msgs "(0, 0, 0)"] show ?thesis
    by (auto simp: syncLatestPosts_def Let_def split: prod.splits)
qed

lemma handle_consistent: "consistent e \<Longrightarrow> consistent (handle e ev)"
proof (cases ev)
  case (NewMessage m)
  assume "consistent e"
  with NewMessage show ?thesis
    using consistent_posts[OF _ handleMediaGroup_arrive_posts]
    by (auto simp: processMessage_consistent)
next
  case (GroupTimer m)
  assume c: "consistent e"
  have "consistent (processMediaGroup ms e)" for ms using c by (rule processMediaGroup_consistent)
  then have "consistent ((processMediaGroup ms e)\<lparr>mediaGroups := x\<rparr>)" for ms x
    by (simp add: consistent_def)
  with GroupTimer c show ?thesis
    by (simp add: handleMediaGroup_wake_def Let_def split: option.splits)
next
  case (EditedMessage m)
  assume "consistent e"
  with EditedMessage show ?thesis by (simp add: processMessage_consistent)
next
  case (DeletedMessage ids)
  assume "consistent e"
  with DeletedMessage show ?thesis by (simp add: handle_deleted_consistent)
next
  case (UpdatePinnedMessages ids pc gm)
  assume "consistent e"
  with UpdatePinnedMessages show ?thesis by (simp add: handle_pinned_consistent)
qed

lemma syncLoop_step:
  "\<exists>c' e'. syncLoop messages (message # rest) c e = syncLoop messages rest c' e'
     \<and> (e' = e \<or> e' = processMessage message e
         \<or> e' = processMediaGroup (filter (\<lambda>m. groupedId m = groupedId message) messages) e)"
proof -
  obtain n u k where c: "c = (n, u, k)" by (cases c) auto
  show ?thesis unfolding c
    by (auto simp: Let_def split: option.splits)
qed

lemma syncLoop_consistent:
  "consistent e \<Longrightarrow> consistent (snd (syncLoop all rest c e))"
proof (induction rest arbitrary: c e)
  case Nil
  then show ?case by simp
next
  case (Cons message rest)
  from syncLoop_step[of all message rest c e] obtain c' e' where
    st: "syncLoop all (message # rest) c e = syncLoop all rest c' e'"
    and e': "e' = e \<or> e' = processMessage message e
         \<or> e' = processMediaGroup (filter (\<lambda>m. groupedId m = groupedId message) all) e" by blast
  from e' Cons.prems have "consistent e'"
    by (auto simp: processMessage_consistent processMediaGroup_consistent)
  from Cons.IH[OF this, of c'] st show ?case by simp
qed

lemma syncLatestPosts_consistent:
  "consistent e \<Longrightarrow> consistent (syncLatestPosts fetched limit e)"
proof -
  assume c: "consistent e"
  then have c0: "consistent (e\<lparr>syncStatus := x\<rparr>)" for x by (simp add: consistent_def)
  show ?thesis
  proof (cases fetched)
    case None
    with c show ?thesis by (simp add: syncLatestPosts_def consistent_def)
  next
    case (Some msgs)
    let ?e0 = "e\<lparr>syncStatus := Status (InProgress (clock e) limit)\<rparr>"
    obtain c1 e1 where l: "syncLoop msgs msgs (0, 0, 0) ?e0 = (c1, e1)" by fastforce
    from c0 have "consistent (snd (syncLoop msgs msgs (0, 0, 0) ?e0))"
      by (rule syncLoop_consistent)
    with l have "consistent e1" by simp
    then have "consistent (e1\<lparr>syncStatus := x\<rparr>)" for x by (simp add: consistent_def)
    with Some l show ?thesis
      by (simp add: syncLatestPosts_def Let_def split: prod.splits)
  qed
qed

section \<open>The tombstone of a record\<close>

text \<open>
  C3, as the code has it. While the stored record of a message has \<open>deleted\<close> set (and
  every post file holds the record of the id in its name, which the engine maintains),
  it keeps \<open>deleted\<close> set through delete events, pin events (the pinned message being
  fetched by its id), album timers and every new or edited message of another id, and
  through a catch-up pass in which no message of that id has an \<open>editDate\<close> different
  from the stored one. \<open>processMessage\<close>, which handles an edit event and a catch-up
  rewrite, builds the record anew from the source message: the record it stores has
  \<open>deleted\<close> unset.
\<close>

theorem C3_deleted_kept:
  assumes "markedDeleted (MsgId i) e" and "consistent e"
  shows "(\<not> rebuilds i ev \<and> fetchesById ev \<longrightarrow> markedDeleted (MsgId i) (handle e ev))
       \<and> ((\<forall>m\<in>set msgs. groupedId m = None \<and> m_id m = i \<longrightarrow>
              Some (m_editDate m) = map_option editDate (posts e (MsgId i)))
            \<longrightarrow> markedDeleted (MsgId i) (syncLatestPosts (Some msgs) limit e))
       \<and> (m_id m = i \<longrightarrow> map_option deleted (posts (processMessage m e) (MsgId i)) = Some None)
       \<and> consistent (handle e ev) \<and> consistent (syncLatestPosts (Some msgs) limit e)"
proof -
  from assms(1) obtain r where r: "posts e (MsgId i) = Some r" "deleted r = Some True"
    by (auto simp: markedDeleted_def split: option.splits)
  have "markedDeleted (MsgId i) (syncLatestPosts (Some msgs) limit e)"
    if "\<forall>m\<in>set msgs. groupedId m = None \<and> m_id m = i \<longrightarrow>
              Some (m_editDate m) = map_option editDate (posts e (MsgId i))"
  proof -
    from that r have "\<forall>m\<in>set msgs. groupedId m = None \<and> m_id m = i \<longrightarrow> m_editDate m = editDate r"
      by simp
    from syncLatestPosts_kept[OF r(1) this, of limit] r(2) show ?thesis
      by (simp add: markedDeleted_def)
  qed
  moreover have "map_option deleted (posts (processMessage m e) (MsgId i)) = Some None"
    if "m_id m = i"
    using processMessage_posts[of m e] that by auto
  ultimately show ?thesis
    using handle_kept[OF assms, of ev] handle_consistent[OF assms(2), of ev]
      syncLatestPosts_consistent[OF assms(2), of "Some msgs" limit]
    by blast
qed

lemma engineDel_marked: "markedDeleted (MsgId 5) engineDel"
  by (simp add: markedDeleted_def engineDel_def engine0_def textPost_def)

lemma engineDel_consistent: "consistent engineDel"
  by (simp add: consistent_def engineDel_def engine0_def textPost_def)

theorem C3_deleted_kept_witness:
  "markedDeleted (MsgId 5) engineDel \<and> consistent engineDel
   \<and> markedDeleted (MsgId 5) (handle engineDel (DeletedMessage [5]))
   \<and> markedDeleted (MsgId 5)
        (syncLatestPosts (Some [editMsg\<lparr>m_editDate := None\<rparr>]) 15 engineDel)
   \<and> map_option deleted (posts (processMessage editMsg engineDel) (MsgId 5)) = Some None"
proof -
  have 1: "\<not> rebuilds 5 (DeletedMessage [5]) \<and> fetchesById (DeletedMessage [5])" by simp
  have 2: "\<forall>m\<in>set [editMsg\<lparr>m_editDate := None\<rparr>]. groupedId m = None \<and> m_id m = 5 \<longrightarrow>
              Some (m_editDate m) = map_option editDate (posts engineDel (MsgId 5))"
    by (simp add: engineDel_def engine0_def textPost_def)
  have 3: "m_id editMsg = 5" by (simp add: editMsg_def)
  from C3_deleted_kept[OF engineDel_marked engineDel_consistent,
      where ev = "DeletedMessage [5]" and msgs = "[editMsg\<lparr>m_editDate := None\<rparr>]"
        and m = editMsg and limit = 15] 1 2 3 engineDel_marked engineDel_consistent
  show ?thesis by blast
qed

text \<open>
  The claim as stated fails: post 5 is stored with \<open>deleted\<close> set, and both an edit event
  for message 5 and a catch-up pass that finds message 5 with another \<open>editDate\<close> store a
  record of post 5 in which \<open>deleted\<close> is unset.
\<close>

theorem C3_counterexample:
  "map_option deleted (posts engineDel (MsgId 5)) = Some (Some True)
   \<and> map_option deleted (posts (handle engineDel (EditedMessage editMsg)) (MsgId 5)) = Some None
   \<and> map_option deleted (posts (syncLatestPosts (Some [editMsg]) 15 engineDel) (MsgId 5))
       = Some None"
  by code_simp

section \<open>Running the catch-up pass twice\<close>

text \<open>
  C6 at an album whose second photo was edited and whose first photo was not. The
  first pass creates the record of the album (one new post, one skipped). The second
  pass, over the same two messages and the store the first pass left, compares the
  \<open>editDate\<close> of the stored record, which is that of the first photo, with the
  \<open>editDate\<close> of the second photo, finds them different and processes the group again:
  it reports one updated post, although it stores the same record.
\<close>

theorem C6_album_counted_as_updated:
  "syncStatus (syncLatestPosts (Some album) 15 engine0) = Status (Completed 2000 1 0 1)
   \<and> syncStatus (syncLatestPosts (Some album) 15 (syncLatestPosts (Some album) 15 engine0))
       = Status (Completed 2000 0 1 1)
   \<and> posts (syncLatestPosts (Some album) 15 (syncLatestPosts (Some album) 15 engine0))
        (GroupId (Some 7))
       = posts (syncLatestPosts (Some album) 15 engine0) (GroupId (Some 7))"
  by code_simp

section \<open>Media groups\<close>

lemma arrive_buffer:
  assumes "\<forall>m\<in>set ms. peerIsChannel m \<and> groupedId m = Some g"
  shows "foldl (\<lambda>e m. handle e (NewMessage m)) e ms =
           (if ms = [] then e
            else e\<lparr>mediaGroups := (mediaGroups e)(g \<mapsto>
                    (case mediaGroups e g of Some b \<Rightarrow> b | None \<Rightarrow> []) @ ms)\<rparr>)"
  using assms
proof (induction ms arbitrary: e)
  case Nil
  then show ?case by simp
next
  case (Cons m ms)
  let ?e1 = "e\<lparr>mediaGroups := (mediaGroups e)(g \<mapsto>
                    (case mediaGroups e g of Some b \<Rightarrow> b | None \<Rightarrow> []) @ [m])\<rparr>"
  from Cons.prems have h: "handle e (NewMessage m) = ?e1"
    by (simp add: handleMediaGroup_arrive_def Let_def)
  from Cons.prems have "\<forall>m\<in>set ms. peerIsChannel m \<and> groupedId m = Some g" by simp
  from Cons.IH[OF this, of ?e1] h show ?case by simp
qed

lemma wake_idle:
  assumes "groupedId m = Some g"
    and "case mediaGroups e g of None \<Rightarrow> True | Some b \<Rightarrow> \<not> (1 < length b \<and> last b = m)"
  shows "handle e (GroupTimer m) = e"
  using assms by (auto simp: handleMediaGroup_wake_def Let_def split: option.splits)

lemma wakes_idle:
  assumes "\<forall>m\<in>set ws. groupedId m = Some g"
    and "case mediaGroups e g of None \<Rightarrow> True | Some b \<Rightarrow> last b \<notin> set ws"
  shows "foldl (\<lambda>e m. handle e (GroupTimer m)) e ws = e"
  using assms
proof (induction ws)
  case Nil
  then show ?case by simp
next
  case (Cons m ws)
  from Cons.prems have "handle e (GroupTimer m) = e"
    by (intro wake_idle[where g = g]) (auto split: option.splits)
  moreover from Cons.prems have "foldl (\<lambda>e m. handle e (GroupTimer m)) e ws = e"
    by (intro Cons.IH) (auto split: option.splits)
  ultimately show ?case by simp
qed

lemma downloadMedia_groups: "mediaGroups (snd (downloadMedia m e)) = mediaGroups e"
  by (simp add: downloadMedia_def Let_def split: option.splits)

lemma downloadAll_groups: "mediaGroups (snd (downloadAll ms acc e)) = mediaGroups e"
proof (induction ms arbitrary: acc e)
  case Nil
  then show ?case by simp
next
  case (Cons m ms)
  show ?case
  proof (cases "m_media m")
    case None
    with Cons show ?thesis by simp
  next
    case (Some x)
    obtain fs e1 where d: "downloadMedia m e = (fs, e1)" by fastforce
    with downloadMedia_groups[of m e] have "mediaGroups e1 = mediaGroups e" by simp
    with Some d Cons[of "acc @ fs" e1] show ?thesis by simp
  qed
qed

lemma processMediaGroup_groups: "mediaGroups (processMediaGroup ms e) = mediaGroups e"
proof (cases "sort_key m_id ms")
  case Nil
  then show ?thesis by (simp add: processMediaGroup_def)
next
  case (Cons main rest)
  obtain fs e1 where d: "downloadAll (main # rest) [] e = (fs, e1)" by fastforce
  with downloadAll_groups[of "main # rest" "[]" e] have "mediaGroups e1 = mediaGroups e" by simp
  with Cons d show ?thesis
    by (simp add: processMediaGroup_def savePostData_def Let_def)
qed

lemma map_sort_key: "map f (sort_key f xs) = sort (map f xs)"
proof -
  have "mset (map f (sort_key f xs)) = mset (map f xs)" by simp
  moreover have "sorted (map f (sort_key f xs))" by simp
  ultimately show ?thesis by (metis properties_for_sort)
qed

lemma processMediaGroup_store:
  assumes "ms \<noteq> []"
  shows "\<exists>r. posts (processMediaGroup ms e) = (posts e)(GroupId (groupedId (hd (sort_key m_id ms))) \<mapsto> r)
          \<and> id_p r = GroupId (groupedId (hd (sort_key m_id ms)))
          \<and> childMessages r = Some (map m_id (sort_key m_id ms))"
proof -
  from assms have "sort_key m_id ms \<noteq> []" by (metis length_sort length_0_conv)
  then obtain main rest where Cons: "sort_key m_id ms = main # rest" by (cases "sort_key m_id ms") auto
  let ?base = "withReply main
                    \<lparr>id_p = GroupId (groupedId main), date = Some (m_date main),
                     editDate = m_editDate main, text_p = Some (m_text main),
                     media = [], childMessages = Some (map m_id (main # rest)),
                     replyToMsgId = None, replyToTopId = None,
                     deleted = None, pinned = None, pinnedDate = None\<rparr>"
  obtain fs e1 where d: "downloadAll (main # rest) [] e = (fs, e1)" by fastforce
  with downloadAll_posts[of "main # rest" "[]" e] have pe: "posts e1 = posts e" by simp
  from Cons d pe have "posts (processMediaGroup ms e) = (posts e)(GroupId (groupedId main) \<mapsto> ?base\<lparr>media := fs\<rparr>)"
    by (simp add: processMediaGroup_def savePostData_def withReply_fields Let_def)
  moreover have "id_p (?base\<lparr>media := fs\<rparr>) = GroupId (groupedId main)"
    "childMessages (?base\<lparr>media := fs\<rparr>) = Some (map m_id (main # rest))"
    by (simp_all add: withReply_fields withReply_childMessages)
  ultimately show ?thesis using Cons by auto
qed

lemma wake_last:
  assumes "mediaGroups e g = Some ms" "1 < length ms" "\<forall>m\<in>set ms. groupedId m = Some g"
  shows "\<exists>r. posts (handle e (GroupTimer (last ms))) = (posts e)(GroupId (Some g) \<mapsto> r)
           \<and> id_p r = GroupId (Some g) \<and> childMessages r = Some (sort (map m_id ms))"
    and "mediaGroups (handle e (GroupTimer (last ms))) = (mediaGroups e)(g := None)"
proof -
  from assms(2) have ne: "ms \<noteq> []" by auto
  with assms(3) have gl: "groupedId (last ms) = Some g" by simp
  from assms(1,2) gl have eq: "handle e (GroupTimer (last ms)) =
      (processMediaGroup ms e)\<lparr>mediaGroups := (mediaGroups (processMediaGroup ms e))(g := None)\<rparr>"
    by (simp add: handleMediaGroup_wake_def Let_def)
  from ne have sne: "sort_key m_id ms \<noteq> []" by (metis length_sort length_0_conv)
  have "hd (sort_key m_id ms) \<in> set ms" using hd_in_set[OF sne] by simp
  with assms(3) have gh: "groupedId (hd (sort_key m_id ms)) = Some g" by blast
  from processMediaGroup_store[OF ne, of e] obtain r where
    "posts (processMediaGroup ms e) = (posts e)(GroupId (Some g) \<mapsto> r)"
    "id_p r = GroupId (Some g)" "childMessages r = Some (sort (map m_id ms))"
    unfolding gh map_sort_key by blast
  with eq show "\<exists>r. posts (handle e (GroupTimer (last ms))) = (posts e)(GroupId (Some g) \<mapsto> r)
           \<and> id_p r = GroupId (Some g) \<and> childMessages r = Some (sort (map m_id ms))"
    by auto
  from eq show "mediaGroups (handle e (GroupTimer (last ms))) = (mediaGroups e)(g := None)"
    by (simp add: processMediaGroup_groups)
qed

lemma burst_result:
  assumes "2 \<le> length ms" "\<forall>m\<in>set ms. peerIsChannel m \<and> groupedId m = Some g"
    "distinct (map m_id ms)" "mediaGroups e g = None" "mset ws = mset ms"
  shows "\<exists>r. posts (burst ms ws e) = (posts e)(GroupId (Some g) \<mapsto> r)
           \<and> id_p r = GroupId (Some g) \<and> childMessages r = Some (sort (map m_id ms))"
    and "mediaGroups (burst ms ws e) = mediaGroups e"
proof -
  from assms(1) have ne: "ms \<noteq> []" and len: "1 < length ms" by auto
  let ?ea = "e\<lparr>mediaGroups := (mediaGroups e)(g \<mapsto> ms)\<rparr>"
  from arrive_buffer[OF assms(2), of e] ne assms(4)
  have arr: "foldl (\<lambda>e m. handle e (NewMessage m)) e ms = ?ea" by simp
  from assms(3) have dms: "distinct ms" by (simp add: distinct_map)
  with assms(5) have dws: "distinct ws" by (metis mset_eq_imp_distinct_iff)
  from assms(5) have sws: "set ws = set ms" by (rule mset_eq_setD)
  from ne sws have "last ms \<in> set ws" by simp
  then obtain pre post where ws: "ws = pre @ last ms # post" by (meson split_list)
  with dws have npre: "last ms \<notin> set pre" and npost: "last ms \<notin> set post" by auto
  from ws sws assms(2) have gpre: "\<forall>m\<in>set pre. groupedId m = Some g"
    and gpost: "\<forall>m\<in>set post. groupedId m = Some g" by auto
  have g2: "\<forall>m\<in>set ms. groupedId m = Some g" using assms(2) by simp
  have p1: "foldl (\<lambda>e m. handle e (GroupTimer m)) ?ea pre = ?ea"
    using gpre npre by (intro wakes_idle[where g = g]) simp_all
  let ?e2 = "handle ?ea (GroupTimer (last ms))"
  have mg: "mediaGroups ?ea g = Some ms" by simp
  note wl = wake_last[OF mg len g2]
  from wl(2) have mg2: "mediaGroups ?e2 = (mediaGroups e)(g := None)" by simp
  have p3: "foldl (\<lambda>e m. handle e (GroupTimer m)) ?e2 post = ?e2"
    using gpost mg2 by (intro wakes_idle[where g = g]) simp_all
  have "burst ms ws e = ?e2"
    unfolding burst_def arr ws by (simp only: foldl_append foldl_Cons p1 p3)
  with wl(1) mg2 assms(4) show "\<exists>r. posts (burst ms ws e) = (posts e)(GroupId (Some g) \<mapsto> r)
           \<and> id_p r = GroupId (Some g) \<and> childMessages r = Some (sort (map m_id ms))"
    and "mediaGroups (burst ms ws e) = mediaGroups e"
    by auto
qed

lemma later_arrival_idles_timer:
  assumes "groupedId m = Some g" "groupedId m' = Some g" "peerIsChannel m'" "m' \<noteq> m"
  shows "handle (handle e (NewMessage m')) (GroupTimer m) = handle e (NewMessage m')"
  using assms
  by (intro wake_idle[where g = g]) (simp_all add: handleMediaGroup_arrive_def Let_def)

text \<open>
  C5. Let two or more messages of one group, with distinct ids, arrive from the channel
  one after the other while no message of that group is buffered, all of them before
  the first of their 500 ms timers fires; then the timers fire in the order of arrival.
  The engine stores one record, under the id of the group, whose \<open>childMessages\<close> are
  the ids of all the messages in ascending order; every other post file is as it was,
  and the buffer of the group is empty again. And a timer finalizes nothing when
  another message of the group has arrived after its own: the timer of \<open>m\<close>, firing
  after the arrival of a later message \<open>m'\<close>, leaves the engine as it is. Each handler
  runs to its end before the next event, and media downloads succeed.
\<close>

theorem C5_media_group_complete:
  assumes "2 \<le> length ms" and "\<forall>m\<in>set ms. peerIsChannel m \<and> groupedId m = Some g"
    and "distinct (map m_id ms)" and "mediaGroups e g = None"
  shows "(\<exists>r. posts (burst ms ms e) = (posts e)(GroupId (Some g) \<mapsto> r)
            \<and> id_p r = GroupId (Some g) \<and> childMessages r = Some (sort (map m_id ms)))
       \<and> mediaGroups (burst ms ms e) = mediaGroups e
       \<and> (\<forall>m m'. groupedId m = Some g \<and> groupedId m' = Some g \<and> peerIsChannel m' \<and> m' \<noteq> m
            \<longrightarrow> handle (handle e' (NewMessage m')) (GroupTimer m) = handle e' (NewMessage m'))"
  using burst_result[OF assms refl] later_arrival_idles_timer[of _ g _ e']
  by blast

lemma album_hyps:
  "2 \<le> length album" "\<forall>m\<in>set album. peerIsChannel m \<and> groupedId m = Some 7"
  "distinct (map m_id album)" "mediaGroups engine0 7 = None"
  by (simp_all add: album_def albumMsg_def engine0_def)

theorem C5_media_group_complete_witness:
  "2 \<le> length album \<and> distinct (map m_id album) \<and> mediaGroups engine0 7 = None
   \<and> map_option childMessages (posts (burst album album engine0) (GroupId (Some 7)))
       = Some (Some [1, 2])
   \<and> mediaGroups (burst album album engine0) = mediaGroups engine0"
proof -
  from C5_media_group_complete[OF album_hyps] obtain r where
    r: "posts (burst album album engine0) = (posts engine0)(GroupId (Some 7) \<mapsto> r)"
    "childMessages r = Some (sort (map m_id album))"
    and g: "mediaGroups (burst album album engine0) = mediaGroups engine0"
    by blast
  have "sort (map m_id album) = [1, 2]" by (simp add: album_def albumMsg_def)
  with r have "map_option childMessages (posts (burst album album engine0) (GroupId (Some 7)))
       = Some (Some [1, 2])" by simp
  with album_hyps g show ?thesis by blast
qed

section \<open>Edits on Bale\<close>

lemma noEdit_refl: "noEdit s s"
  by (simp add: noEdit_def)

lemma noEdit_trans: "noEdit s s1 \<Longrightarrow> noEdit s1 s2 \<Longrightarrow> noEdit s s2"
  by (auto simp: noEdit_def)

lemma noEditI: "trace s' = trace s @ out \<Longrightarrow> filter isEdit out = [] \<Longrightarrow> noEdit s s'"
  by (auto simp: noEdit_def)

lemma isEdit_sends: "list_all (isSendOf p) sends \<Longrightarrow> filter isEdit sends = []"
proof (induction sends)
  case Nil
  then show ?case by simp
next
  case (Cons a sends)
  then show ?case by (cases a) auto
qed

lemma isEdit_unlinks: "filter isEdit (map UnlinkMedia ms) = []"
  by (induction ms) simp_all

lemma isEdit_reads: "filter isEdit (map (\<lambda>e. ReadPost (fst e)) d) = []"
  by (induction d) simp_all

lemma bale_syncPost_noEdit:
  assumes "bale_syncPost nw p s = (b, s')"
  shows "noEdit s s'"
proof -
  from bale_syncPost_out[OF assms] obtain sends where
    sh: "list_all (isSendOf p) sends"
    "trace s' = trace s @ Syncing p # sends @ (if b then syncTail p else [])" by blast
  from sh(1) have "filter isEdit (Syncing p # sends @ (if b then syncTail p else [])) = []"
    by (simp add: isEdit_sends syncTail_def isEdit_unlinks)
  with sh(2) show ?thesis by (rule noEditI)
qed

lemma bale_update_noEdit:
  "noEdit s (bale_deletePostData p (bale_saveProcessedPosts (bale_setProcessed p m s)))"
  by (rule noEditI[OF bale_update_trace]) simp

lemma bale_deleteMessage_noEdit:
  assumes "bale_deleteMessage nw p m s = (b, s')"
  shows "noEdit s s'"
proof (rule noEditI)
  from assms show "trace s' = trace s @ (case m of None \<Rightarrow> [] | Some x \<Rightarrow> if x = 0 then [] else [DeleteMessage (id_p p) x])"
    by (auto simp: bale_deleteMessage_def emit_def Let_def
        split: option.splits if_splits response.splits)
  show "filter isEdit (case m of None \<Rightarrow> [] | Some x \<Rightarrow> if x = 0 then [] else [DeleteMessage (id_p p) x]) = []"
    by (simp split: option.splits)
qed

lemma bale_watchPost_noEdit:
  assumes "bale_watchPost nw p s = (b, s')"
  shows "noEdit s s'"
proof (cases "processedPosts s (id_p p)")
  case None
  show ?thesis
  proof (cases "truthy_bool (deleted p)")
    case False
    show ?thesis
    proof (cases "toISOString_throws (date p)")
      case True
      with None False assms have "s' = s" by (auto simp: bale_watchPost_def)
      then show ?thesis by (simp add: noEdit_refl)
    next
      case ok: False
      with None False assms have "bale_syncPost nw p s = (b, s')"
        by (simp add: bale_watchPost_def)
      then show ?thesis by (rule bale_syncPost_noEdit)
    qed
  next
    case True
    with None assms have
      "s' = bale_deletePostData p (bale_saveProcessedPosts (bale_setProcessed p None s))"
      by (auto simp: bale_watchPost_def)
    then show ?thesis by (simp add: bale_update_noEdit)
  qed
next
  case (Some c)
  obtain b1 s1 where d: "bale_deleteMessage nw p (baleMessageId c) s = (b1, s1)" by fastforce
  note ds = bale_deleteMessage_noEdit[OF d]
  have del: "noEdit s (bale_deletePostData p s)"
    by (rule noEditI[where out = "[UnlinkPost (id_p p)]"])
       (simp_all add: bale_deletePostData_def emit_def)
  from Some assms d have
    "s' = s \<or> s' = s1 \<or> s' = bale_deletePostData p s
     \<or> s' = bale_deletePostData p (bale_saveProcessedPosts (bale_setProcessed p (baleMessageId c) s))
     \<or> s' = bale_deletePostData p (bale_saveProcessedPosts (bale_setProcessed p (baleMessageId c) s1))"
    by (auto simp: bale_watchPost_def split: if_splits bool.splits)
  with ds del bale_update_noEdit[of s p "baleMessageId c"]
    bale_update_noEdit[of s1 p "baleMessageId c"] show ?thesis
    by (auto intro: noEdit_refl noEdit_trans)
qed

lemma bale_watchLoop_noEdit:
  "bale_watchLoop nw ps s = (b, s') \<Longrightarrow> noEdit s s'"
proof (induction ps arbitrary: s)
  case Nil
  then show ?case by (simp add: noEdit_refl)
next
  case (Cons p ps)
  obtain b1 s1 where st: "bale_watchPost nw p s = (b1, s1)" by fastforce
  note o1 = bale_watchPost_noEdit[OF st]
  show ?case
  proof (cases b1)
    case False
    with Cons.prems st have "s' = s1" by simp
    with o1 show ?thesis by simp
  next
    case True
    with Cons.prems st have "bale_watchLoop nw ps s1 = (b, s')" by simp
    from Cons.IH[OF this] o1 show ?thesis by (auto intro: noEdit_trans)
  qed
qed

lemma bale_syncExistingLoop_noEdit:
  "bale_syncExistingLoop nw ps s = (b, s') \<Longrightarrow> noEdit s s'"
proof (induction ps arbitrary: s)
  case Nil
  then show ?case by (simp add: noEdit_refl)
next
  case (Cons p ps)
  show ?case
  proof (cases "\<not> truthy_bool (deleted p) \<and> processedPosts s (id_p p) = None")
    case False
    with Cons.prems have "bale_syncExistingLoop nw ps s = (b, s')" by auto
    then show ?thesis by (rule Cons.IH)
  next
    case True
    obtain b1 s1 where st: "bale_syncPost nw p s = (b1, s1)" by fastforce
    note o1 = bale_syncPost_noEdit[OF st]
    show ?thesis
    proof (cases b1)
      case False
      with Cons.prems st True have "s' = s1" by simp
      with o1 show ?thesis by simp
    next
      case b1: True
      with Cons.prems st True have "bale_syncExistingLoop nw ps s1 = (b, s')" by simp
      from Cons.IH[OF this] o1 show ?thesis by (auto intro: noEdit_trans)
    qed
  qed
qed

lemma bale_watchCycle_noEdit: "noEdit s (bale_watchCycle nw st s)"
proof (cases "isTelegramSyncInProgress st")
  case True
  then have "bale_watchCycle nw st s = emit ReadStatus s" by (simp add: bale_watchCycle_def)
  moreover have "noEdit s (emit ReadStatus s)"
    by (rule noEditI[where out = "[ReadStatus]"]) (simp_all add: emit_def)
  ultimately show ?thesis by simp
next
  case False
  let ?sA = "readAll (emit ReadStatus s)"
  obtain b s1 where r: "bale_watchLoop nw (loadAndSortPosts (dir s)) ?sA = (b, s1)" by fastforce
  have a: "noEdit s ?sA"
    by (rule noEditI[where out = "ReadStatus # ReadDir # map (\<lambda>e. ReadPost (fst e)) (dir s)"])
       (simp_all add: readAll_def emit_def isEdit_reads)
  with bale_watchLoop_noEdit[OF r] have n1: "noEdit s s1" by (auto intro: noEdit_trans)
  have "noEdit s1 (bale_fatal s1)"
    by (rule noEditI[where out = fatalTail]) (simp_all add: bale_fatal_facts fatalTail_def)
  with n1 have n2: "noEdit s (bale_fatal s1)" by (auto intro: noEdit_trans)
  from False r have "bale_watchCycle nw st s = (if b then s1 else bale_fatal s1)"
    by (simp add: bale_watchCycle_def emit_def)
  with n1 n2 show ?thesis by simp
qed

lemma bale_start_noEdit: "noEdit s (bale_start nw d s)"
proof -
  let ?s0 = "bale_loadProcessedPosts
                 (s\<lparr>dir := d, watching := False, exited := None, processedPosts := Map.empty\<rparr>)"
  have d0: "dir ?s0 = d" by (simp add: bale_loadProcessedPosts_def split: option.splits)
  obtain b s1 where r: "bale_syncExistingLoop nw (loadAndSortPosts d) (readAll ?s0) = (b, s1)"
    by fastforce
  have "noEdit s (readAll ?s0)"
    by (rule noEditI[where out = "ReadDir # map (\<lambda>e. ReadPost (fst e)) d"])
       (simp_all add: readAll_def bale_loadProcessedPosts_def isEdit_reads split: option.splits)
  with bale_syncExistingLoop_noEdit[OF r] have n1: "noEdit s s1" by (auto intro: noEdit_trans)
  have "noEdit s1 (s1\<lparr>watching := True\<rparr>)"
    by (rule noEditI[where out = "[]"]) simp_all
  moreover have "noEdit s1 ((emit (ProcessExit 1) s1)\<lparr>exited := Some 1\<rparr>)"
    by (rule noEditI[where out = "[ProcessExit 1]"]) (simp_all add: emit_def)
  ultimately have n2: "noEdit s (s1\<lparr>watching := True\<rparr>)"
    "noEdit s ((emit (ProcessExit 1) s1)\<lparr>exited := Some 1\<rparr>)"
    using n1 by (auto intro: noEdit_trans)
  from r d0 have "bale_start nw d s = (if b then s1\<lparr>watching := True\<rparr>
                   else (emit (ProcessExit 1) s1)\<lparr>exited := Some 1\<rparr>)"
    by (simp add: bale_start_def bale_syncExistingPosts_def)
  with n2 show ?thesis by simp
qed

lemma bale_step_noEdit: "noEdit s (bale_step nw s ev)"
proof (cases ev)
  case (Start d)
  then show ?thesis by (simp add: bale_start_noEdit)
next
  case (Tick st d)
  have "noEdit s (s\<lparr>dir := d\<rparr>)" by (rule noEditI[where out = "[]"]) simp_all
  with bale_watchCycle_noEdit[of "s\<lparr>dir := d\<rparr>" nw st]
  have "noEdit s (bale_watchCycle nw st (s\<lparr>dir := d\<rparr>))" by (auto intro: noEdit_trans)
  with Tick show ?thesis by (simp add: noEdit_refl)
qed

text \<open>Neither does a callback that overlaps with others, in whatever order they are resumed.\<close>

lemma bale_catch_noEdit: "noEdit s (snd (bale_catch s))"
  by (simp add: noEdit_def bale_catch_def bale_saveProcessedPosts_def emit_def)

lemma bale_mark_noEdit: "noEdit s (snd (bale_mark p mid ps s))"
  by (simp add: noEdit_def bale_mark_def bale_saveProcessedPosts_def bale_setProcessed_def
      emit_def)

lemma bale_record_noEdit: "noEdit s (snd (bale_record p mid ps s))"
  by (simp add: noEdit_def bale_record_def bale_saveProcessedPosts_def bale_setProcessed_def
      emit_def)

lemma bale_issueFile_noEdit: "noEdit s (snd (bale_issueFile nw p f fs mid ps s))"
  by (simp add: noEdit_def bale_issueFile_def emit_def)

lemma bale_enter_noEdit: "noEdit s (snd (bale_enter nw p ps s))"
  by (simp add: noEdit_def bale_enter_def bale_issueFile_def bale_record_def
      bale_saveProcessedPosts_def bale_setProcessed_def emit_def Let_def split: list.splits)

lemma bale_unlinkNext_noEdit: "noEdit s (snd (bale_unlinkNext p fs ps s))"
  by (cases fs) (simp_all add: noEdit_def emit_def)

lemma bale_next_noEdit: "noEdit s (snd (bale_next nw ps s))"
proof (induction ps)
  case Nil
  then show ?case by (simp add: noEdit_refl)
next
  case (Cons p ps)
  have del: "noEdit s ((emit (DeleteMessage (id_p p) m) s)\<lparr>calls := calls s + 1\<rparr>)" for m
    by (simp add: noEdit_def emit_def)
  have un: "noEdit s (bale_deletePostData p s)"
    by (simp add: noEdit_def bale_deletePostData_def emit_def)
  from Cons del un show ?case
    by (simp add: bale_catch_noEdit bale_enter_noEdit bale_mark_noEdit
        split: option.splits)
qed

lemma bale_resume_noEdit: "noEdit s (snd (bale_resume nw t s))"
proof (cases t)
  case (Await_status st)
  then show ?thesis by (simp add: noEdit_def readAll_def)
next
  case (Await_saveSynced p ps)
  have "noEdit s (emit (Synced (id_p p)) s)" by (simp add: noEdit_def emit_def)
  with bale_unlinkNext_noEdit[of "emit (Synced (id_p p)) s" p "media p" ps] Await_saveSynced
  show ?thesis by (auto intro: noEdit_trans)
next
  case (Await_saveMarked p ps)
  then show ?thesis by (simp add: noEdit_def bale_deletePostData_def emit_def)
next
  case Await_saveFatal
  then show ?thesis by (simp add: noEdit_def bale_exit_def emit_def)
qed (simp_all add: noEdit_refl bale_next_noEdit bale_catch_noEdit bale_record_noEdit
      bale_issueFile_noEdit bale_mark_noEdit bale_unlinkNext_noEdit
      split: response.splits list.splits)

lemma bale_turn_noEdit: "noEdit (fst P) (fst (bale_turn nw P tu))"
proof (cases P)
  case (Pair s ts)
  show ?thesis
  proof (cases tu)
    case (Happens ev)
    show ?thesis
    proof (cases ev)
      case (Start d)
      with Pair Happens show ?thesis by (simp add: bale_start_noEdit)
    next
      case (Tick st d)
      have "noEdit s (emit ReadStatus (s\<lparr>dir := d\<rparr>))" by (simp add: noEdit_def emit_def)
      with Pair Happens Tick show ?thesis by (simp add: noEdit_refl)
    qed
  next
    case (Resumes i)
    with Pair bale_resume_noEdit[of s nw "ts ! i"] show ?thesis
      by (auto simp: noEdit_refl split: prod.splits)
  qed
qed

lemma bale_overlap_noEdit: "noEdit (fst P) (fst (bale_overlap nw turns P))"
proof (induction turns arbitrary: P)
  case Nil
  then show ?case by (simp add: bale_overlap_def noEdit_refl)
next
  case (Cons tu turns)
  have "bale_overlap nw (tu # turns) P = bale_overlap nw turns (bale_turn nw P tu)"
    by (simp add: bale_overlap_def)
  with bale_turn_noEdit[of P nw tu] Cons[of "bale_turn nw P tu"] show ?case
    by (auto intro: noEdit_trans)
qed

lemma bale_never_edits: "filter isEdit (since s (fst (bale_overlap nw turns (s, ts)))) = []"
  using bale_overlap_noEdit[of "(s, ts)" nw turns] by (auto simp: noEdit_def since_def)

text \<open>
  C7 at the scenario of the specification. Post 1 was delivered to Bale with
  \<open>editDate\<close> 1000 and outbound id 555, and the watch loop finds its record with
  \<open>editDate\<close> 2000 and \<open>deleted\<close> unset. The cycle logs that it is sending an edit
  request, updates the ledger entry and removes the record file, but the call of
  \<open>editMessage\<close> is commented out: no API call is made. By \<open>bale_never_edits\<close> no run
  of the Bale syncer makes that call, whether its callbacks overlap or not.
\<close>

theorem C7_edit_call_missing:
  "since baleDelivered (bale_step allOk baleDelivered (Tick NoFile dirEdited))
     = [ReadStatus, ReadDir, ReadPost (MsgId 1), SaveProcessed, UnlinkPost (MsgId 1)]
   \<and> map_option c_editDate
        (processedPosts (bale_step allOk baleDelivered (Tick NoFile dirEdited)) (MsgId 1))
       = Some (Some 2000)
   \<and> filter isCall (since baleDelivered (bale_step allOk baleDelivered (Tick NoFile dirEdited)))
       = []"
  by code_simp

section \<open>A callback that runs alone\<close>

lemma bale_fatal_catch: "bale_exit (snd (bale_catch s)) = bale_fatal s"
  by (simp add: bale_exit_def bale_catch_def bale_fatal_def)

lemma bale_rest_catch: "bale_rest nw (fst (bale_catch s)) (snd (bale_catch s)) = bale_fatal s"
  by (simp add: bale_exit_def bale_catch_def bale_fatal_def)

lemma bale_rest_mark:
  "bale_rest nw (fst (bale_mark p mid ps s)) (snd (bale_mark p mid ps s))
     = bale_loopEnd (bale_watchLoop nw ps
         (bale_deletePostData p (bale_saveProcessedPosts (bale_setProcessed p mid s))))"
  by (simp add: bale_mark_def)

lemma bale_rest_record:
  "bale_rest nw (fst (bale_record p mid ps s)) (snd (bale_record p mid ps s))
     = bale_afterSends nw p ps (Some mid, s)"
  by (simp add: bale_record_def bale_afterSends_def)

lemma bale_rest_issueFile:
  "bale_rest nw (fst (bale_issueFile nw p f fs mid ps s)) (snd (bale_issueFile nw p f fs mid ps s))
     = bale_afterSends nw p ps (bale_sendFiles nw p (f # fs) mid s)"
  by (cases "nw (calls s)")
     (simp_all add: bale_issueFile_def bale_sendFile_def bale_afterSends_def Let_def)

lemma bale_rest_enter:
  "bale_rest nw (fst (bale_enter nw p ps s)) (snd (bale_enter nw p ps s))
     = bale_loopEnd (case bale_syncPost nw p s of
                       (False, s1) \<Rightarrow> (False, s1)
                     | (True, s1) \<Rightarrow> bale_watchLoop nw ps s1)"
proof (cases "media p")
  case Nil
  show ?thesis
  proof (cases "truthy_str (text_p p)")
    case True
    with Nil show ?thesis
      by (cases "nw (calls s)")
         (simp_all add: bale_enter_def bale_syncPost_def bale_sendMessage_def bale_afterSends_def
            bale_loopEnd_def Let_def emit_def)
  next
    case False
    with Nil show ?thesis
      by (simp add: bale_enter_def bale_syncPost_def bale_rest_record bale_afterSends_def
          bale_loopEnd_def Let_def)
  qed
next
  case (Cons f fs)
  obtain r s1 where sf: "bale_sendFiles nw p (f # fs) None (emit (Syncing p) s) = (r, s1)"
    by fastforce
  with Cons show ?thesis
    by (cases r)
       (simp_all add: bale_enter_def bale_syncPost_def bale_rest_issueFile bale_afterSends_def
          bale_loopEnd_def Let_def del: bale_sendFiles.simps)
qed

lemma bale_rest_next:
  "bale_rest nw (fst (bale_next nw ps s)) (snd (bale_next nw ps s))
     = bale_loopEnd (bale_watchLoop nw ps s)"
proof (induction ps arbitrary: s)
  case Nil
  then show ?case by (simp add: bale_loopEnd_def)
next
  case (Cons p ps)
  show ?case
  proof (cases "processedPosts s (id_p p)")
    case None
    then show ?thesis
      by (simp add: bale_watchPost_def bale_rest_catch bale_rest_enter bale_rest_mark
          bale_loopEnd_def)
  next
    case (Some c)
    show ?thesis
    proof (cases "nw (calls s)")
      case Raises
      with Some Cons.IH[of s] show ?thesis
        by (simp add: bale_watchPost_def bale_rest_mark bale_deleteMessage_def bale_loopEnd_def
            Let_def split: option.splits)
    next
      case (Returns x)
      with Some Cons.IH[of s] show ?thesis
        by (simp add: bale_watchPost_def bale_rest_mark bale_deleteMessage_def bale_loopEnd_def
            Let_def split: option.splits)
    qed
  qed
qed

lemma bale_rest_unlinkNext:
  "bale_rest nw (fst (bale_unlinkNext p fs ps s)) (snd (bale_unlinkNext p fs ps s))
     = bale_loopEnd (bale_watchLoop nw ps
         (emit (UnlinkPost (id_p p))
           (s\<lparr>trace := trace s @ map UnlinkMedia fs, dir := unlinkPost (id_p p) (dir s)\<rparr>)))"
  by (cases fs) (simp_all add: emit_def)

text \<open>Resuming a task does not change what remains of the callback.\<close>

lemma bale_rest_resume:
  "bale_rest nw (fst (bale_resume nw t s)) (snd (bale_resume nw t s)) = bale_rest nw t s"
proof (cases t)
  case (Await_status st)
  then show ?thesis by simp
next
  case (Await_load ps)
  then show ?thesis by (simp add: bale_rest_next)
next
  case (Await_sendFile p fs mid ps r)
  then show ?thesis by (cases r) (simp_all add: bale_rest_catch)
next
  case (Await_fileDelay p fs mid ps)
  then show ?thesis
    by (cases fs) (simp_all add: bale_rest_record bale_rest_issueFile del: bale_sendFiles.simps(2))
next
  case (Await_sendMessage p ps r)
  then show ?thesis by (cases r) (simp_all add: bale_rest_catch bale_rest_record)
next
  case (Await_saveSynced p ps)
  then show ?thesis
    by (simp add: bale_rest_unlinkNext bale_deletePostAndMedia_def emit_def Let_def)
next
  case (Await_unlinkMedia p fs ps)
  then show ?thesis by (simp add: bale_rest_unlinkNext)
next
  case (Await_deleteMessage p mid ps r)
  then show ?thesis by (cases r) (simp_all add: bale_rest_catch bale_rest_mark)
next
  case (Await_rateLimit ps)
  then show ?thesis by (simp add: bale_rest_next)
next
  case (Await_unlinkPost ps)
  then show ?thesis by (simp add: bale_rest_next)
qed simp_all

text \<open>Every resume of a task that has not finished brings the callback nearer to its end.\<close>

lemma loopSteps_Cons: "loopSteps (p # ps) = 3 * length (media p) + 7 + loopSteps ps"
  by (simp add: loopSteps_def postSteps_def)

lemma bale_left_enter:
  "bale_left (fst (bale_enter nw p ps s)) (snd (bale_enter nw p ps s))
     \<le> 3 * length (media p) + 7 + loopSteps ps"
  by (cases "media p")
     (simp_all add: bale_enter_def bale_issueFile_def bale_record_def Let_def)

lemma bale_left_next:
  "bale_left (fst (bale_next nw ps s)) (snd (bale_next nw ps s)) \<le> loopSteps ps"
proof (induction ps arbitrary: s)
  case Nil
  then show ?case by simp
next
  case (Cons p ps)
  have e: "bale_left (fst (bale_enter nw p ps s)) (snd (bale_enter nw p ps s))
             \<le> loopSteps (p # ps)"
    using bale_left_enter[of nw p ps s] by (simp add: loopSteps_Cons)
  have n: "bale_left (fst (bale_next nw ps s)) (snd (bale_next nw ps s)) \<le> loopSteps (p # ps)"
    using Cons.IH[of s] by (simp add: loopSteps_Cons)
  show ?case
  proof (cases "processedPosts s (id_p p)")
    case None
    with e show ?thesis
      by (simp add: bale_catch_def bale_mark_def loopSteps_Cons)
  next
    case (Some c)
    with n show ?thesis
      by (simp add: bale_mark_def loopSteps_Cons split: option.splits)
  qed
qed

lemma bale_left_unlinkNext:
  "bale_left (fst (bale_unlinkNext p fs ps s)) (snd (bale_unlinkNext p fs ps s))
     = loopSteps ps + length fs + 2"
  by (cases fs) simp_all

lemma bale_left_resume:
  assumes "t \<noteq> Finished"
  shows "bale_left (fst (bale_resume nw t s)) (snd (bale_resume nw t s)) < bale_left t s"
proof (cases t)
  case (Await_status st)
  then show ?thesis by simp
next
  case (Await_load ps)
  with bale_left_next[of nw ps s] show ?thesis by simp
next
  case (Await_sendFile p fs mid ps r)
  then show ?thesis by (cases r) (simp_all add: bale_catch_def)
next
  case (Await_fileDelay p fs mid ps)
  then show ?thesis by (cases fs) (simp_all add: bale_record_def bale_issueFile_def)
next
  case (Await_sendMessage p ps r)
  then show ?thesis by (cases r) (simp_all add: bale_catch_def bale_record_def)
next
  case (Await_saveSynced p ps)
  then show ?thesis by (simp add: bale_left_unlinkNext)
next
  case (Await_unlinkMedia p fs ps)
  then show ?thesis by (simp add: bale_left_unlinkNext)
next
  case (Await_unlinkSynced ps)
  then show ?thesis by simp
next
  case (Await_rateLimit ps)
  with bale_left_next[of nw ps s] show ?thesis by simp
next
  case (Await_deleteMessage p mid ps r)
  then show ?thesis by (cases r) (simp_all add: bale_catch_def bale_mark_def)
next
  case (Await_saveMarked p ps)
  then show ?thesis by simp
next
  case (Await_unlinkPost ps)
  with bale_left_next[of nw ps s] show ?thesis by simp
next
  case Await_saveFatal
  then show ?thesis by simp
next
  case Finished
  with assms show ?thesis by simp
qed

lemma bale_left_0: "bale_left t s = 0 \<Longrightarrow> t = Finished"
  by (cases t) simp_all

text \<open>
  A task that is resumed often enough ends, and it leaves the process where the callback
  leaves it when it runs alone.
\<close>

lemma bale_resumes_rest:
  "bale_left t s \<le> n \<Longrightarrow> bale_resumes nw n (t, s) = (Finished, bale_rest nw t s)"
proof (induction n arbitrary: t s)
  case 0
  then have "t = Finished" by (simp add: bale_left_0)
  then show ?case by simp
next
  case (Suc n)
  show ?case
  proof (cases "t = Finished")
    case True
    then have "bale_resumes nw (Suc n) (t, s) = bale_resumes nw n (Finished, s)" by simp
    also have "\<dots> = (Finished, bale_rest nw Finished s)" by (rule Suc.IH) simp
    finally show ?thesis using True by simp
  next
    case False
    let ?t = "fst (bale_resume nw t s)" and ?s = "snd (bale_resume nw t s)"
    from bale_left_resume[OF False, of nw s] Suc.prems have "bale_left ?t ?s \<le> n" by simp
    then have "bale_resumes nw n (?t, ?s) = (Finished, bale_rest nw ?t ?s)" by (rule Suc.IH)
    then show ?thesis by (simp add: bale_rest_resume)
  qed
qed

text \<open>Only the last step of the \<open>catch\<close> makes the process exit.\<close>

lemma bale_next_exited: "exited (snd (bale_next nw ps s)) = exited s"
  by (induction ps arbitrary: s)
     (simp_all add: bale_catch_def bale_enter_def bale_mark_def bale_issueFile_def
        bale_record_def bale_saveProcessedPosts_def bale_setProcessed_def
        bale_deletePostData_def emit_def Let_def split: option.splits list.splits)

lemma bale_resume_exited:
  "exited (snd (bale_resume nw t s)) = exited s \<or> fst (bale_resume nw t s) = Finished"
proof (cases t)
  case (Await_fileDelay p fs mid ps)
  then show ?thesis
    by (cases fs)
       (simp_all add: bale_record_def bale_issueFile_def bale_saveProcessedPosts_def
          bale_setProcessed_def emit_def)
next
  case (Await_saveSynced p ps)
  then show ?thesis by (cases "media p") (simp_all add: emit_def)
next
  case (Await_unlinkMedia p fs ps)
  then show ?thesis by (cases fs) (simp_all add: emit_def)
qed (simp_all add: bale_next_exited bale_catch_def bale_record_def bale_mark_def
       bale_saveProcessedPosts_def bale_setProcessed_def bale_deletePostData_def
       readAll_def emit_def split: response.splits)

lemma bale_overlap_resumes:
  assumes "i < length ts" and "exited s = None \<or> ts ! i = Finished"
  shows "bale_overlap nw (replicate n (Resumes i)) (s, ts)
           = (snd (bale_resumes nw n (ts ! i, s)), ts[i := fst (bale_resumes nw n (ts ! i, s))])"
  using assms
proof (induction n arbitrary: s ts)
  case 0
  then show ?case by (simp add: bale_overlap_def)
next
  case (Suc n)
  let ?t = "fst (bale_resume nw (ts ! i) s)" and ?s = "snd (bale_resume nw (ts ! i) s)"
  show ?case
  proof (cases "exited s = None")
    case True
    from bale_resume_exited[of nw "ts ! i" s] True
    have ex: "exited ?s = None \<or> ts[i := ?t] ! i = Finished"
      using Suc.prems(1) by auto
    from Suc.prems(1) have len: "i < length (ts[i := ?t])" by simp
    have "bale_overlap nw (replicate (Suc n) (Resumes i)) (s, ts)
            = bale_overlap nw (replicate n (Resumes i)) (?s, ts[i := ?t])"
      using True Suc.prems(1) by (simp add: bale_overlap_def split: prod.splits)
    also have "\<dots> = (snd (bale_resumes nw n (ts[i := ?t] ! i, ?s)),
                      (ts[i := ?t])[i := fst (bale_resumes nw n (ts[i := ?t] ! i, ?s))])"
      using len ex by (rule Suc.IH)
    finally show ?thesis using Suc.prems(1) by simp
  next
    case False
    with Suc.prems(2) have fin: "ts ! i = Finished" by simp
    have "bale_overlap nw (replicate (Suc n) (Resumes i)) (s, ts)
            = bale_overlap nw (replicate n (Resumes i)) (s, ts)"
      using False by (cases "exited s") (simp_all add: bale_overlap_def)
    also have "\<dots> = (snd (bale_resumes nw n (ts ! i, s)),
                      ts[i := fst (bale_resumes nw n (ts ! i, s))])"
      using Suc.prems by (rule Suc.IH)
    finally show ?thesis using fin by simp
  qed
qed

lemma bale_rest_status:
  "bale_rest nw (Await_status st) (emit ReadStatus s) = bale_watchCycle nw st s"
  by (simp add: bale_watchCycle_def bale_loopEnd_def Let_def split: prod.splits bool.splits)

text \<open>
  So \<open>bale_step\<close> is what a watch callback does that runs alone: when the timer fires and
  the new task is resumed until it ends, with no turn of another task in between, the
  process is where \<open>bale_step\<close> puts it, whatever the tasks before it are waiting for.
\<close>

lemma bale_callback_alone:
  "\<exists>n. bale_overlap nw (Happens (Tick st d) # replicate n (Resumes (length ts))) (s, ts)
         = (bale_step nw s (Tick st d),
            if watching s \<and> exited s = None then ts @ [Finished] else ts)"
proof (cases "watching s \<and> exited s = None")
  case True
  let ?s = "emit ReadStatus (s\<lparr>dir := d\<rparr>)" and ?ts = "ts @ [Await_status st]"
  let ?n = "bale_left (Await_status st) ?s"
  have i: "length ts < length ?ts" by simp
  have e: "exited ?s = None \<or> ?ts ! length ts = Finished" using True by (simp add: emit_def)
  have "bale_overlap nw (Happens (Tick st d) # replicate ?n (Resumes (length ts))) (s, ts)
          = bale_overlap nw (replicate ?n (Resumes (length ts))) (?s, ?ts)"
    using True by (simp add: bale_overlap_def)
  also have "\<dots> = (snd (bale_resumes nw ?n (?ts ! length ts, ?s)),
                    ?ts[length ts := fst (bale_resumes nw ?n (?ts ! length ts, ?s))])"
    using i e by (rule bale_overlap_resumes)
  finally have run:
    "bale_overlap nw (Happens (Tick st d) # replicate ?n (Resumes (length ts))) (s, ts)
       = (snd (bale_resumes nw ?n (?ts ! length ts, ?s)),
          ?ts[length ts := fst (bale_resumes nw ?n (?ts ! length ts, ?s))])" .
  have nth: "?ts ! length ts = Await_status st" by simp
  have "bale_resumes nw ?n (Await_status st, ?s) = (Finished, bale_rest nw (Await_status st) ?s)"
    by (rule bale_resumes_rest) (rule order_refl)
  with run nth
  have "bale_overlap nw (Happens (Tick st d) # replicate ?n (Resumes (length ts))) (s, ts)
          = (bale_rest nw (Await_status st) ?s, ?ts[length ts := Finished])"
    by (simp only: fst_conv snd_conv)
  also have "bale_rest nw (Await_status st) ?s = bale_step nw s (Tick st d)"
    using True by (simp add: bale_rest_status del: bale_rest.simps)
  also have "?ts[length ts := Finished] = ts @ [Finished]" by simp
  finally show ?thesis using True by (intro exI[of _ ?n]) simp
next
  case False
  then have "bale_overlap nw (Happens (Tick st d) # replicate 0 (Resumes (length ts))) (s, ts)
               = (bale_step nw s (Tick st d), ts)"
    by (auto simp: bale_overlap_def)
  with False show ?thesis by (intro exI[of _ 0]) auto
qed

text \<open>The same for the callback of the Eitaa process and \<open>eitaa_step\<close>.\<close>

lemma eitaa_rest_catch: "eitaa_rest nw (fst (eitaa_catch s)) (snd (eitaa_catch s)) = eitaa_fatal s"
  by (simp add: eitaa_exit_def eitaa_catch_def eitaa_fatal_def)

lemma eitaa_rest_record:
  "eitaa_rest nw (fst (eitaa_record p ps s)) (snd (eitaa_record p ps s))
     = eitaa_afterSends nw p ps (True, s)"
  by (simp add: eitaa_record_def eitaa_afterSends_def)

lemma eitaa_rest_issueFile:
  "eitaa_rest nw (fst (eitaa_issueFile nw p f fs ps s)) (snd (eitaa_issueFile nw p f fs ps s))
     = eitaa_afterSends nw p ps (eitaa_sendFiles nw p (f # fs) s)"
  by (cases "nw (calls s)")
     (simp_all add: eitaa_issueFile_def eitaa_sendFile_def eitaa_afterSends_def Let_def)

lemma eitaa_rest_enter:
  "eitaa_rest nw (fst (eitaa_enter nw p ps s)) (snd (eitaa_enter nw p ps s))
     = eitaa_loopEnd (case eitaa_syncPost nw p s of
                        (False, s1) \<Rightarrow> (False, s1)
                      | (True, s1) \<Rightarrow> eitaa_watchLoop nw ps s1)"
proof (cases "media p")
  case Nil
  show ?thesis
  proof (cases "truthy_str (text_p p)")
    case True
    with Nil show ?thesis
      by (cases "nw (calls s)")
         (simp_all add: eitaa_enter_def eitaa_syncPost_def eitaa_sendMessage_def
            eitaa_afterSends_def eitaa_loopEnd_def Let_def emit_def)
  next
    case False
    with Nil show ?thesis
      by (simp add: eitaa_enter_def eitaa_syncPost_def eitaa_rest_record eitaa_afterSends_def
          eitaa_loopEnd_def Let_def)
  qed
next
  case (Cons f fs)
  obtain r s1 where sf: "eitaa_sendFiles nw p (f # fs) (emit (Syncing p) s) = (r, s1)"
    by fastforce
  with Cons show ?thesis
    by (cases r)
       (simp_all add: eitaa_enter_def eitaa_syncPost_def eitaa_rest_issueFile eitaa_afterSends_def
          eitaa_loopEnd_def Let_def del: eitaa_sendFiles.simps)
qed

lemma eitaa_rest_next:
  "eitaa_rest nw (fst (eitaa_next nw ps s)) (snd (eitaa_next nw ps s))
     = eitaa_loopEnd (eitaa_watchLoop nw ps s)"
  by (cases ps) (simp_all add: eitaa_rest_catch eitaa_rest_enter eitaa_loopEnd_def)

lemma eitaa_rest_unlinkNext:
  "eitaa_rest nw (fst (eitaa_unlinkNext p fs ps s)) (snd (eitaa_unlinkNext p fs ps s))
     = eitaa_loopEnd (eitaa_watchLoop nw ps
         (emit (UnlinkPost (id_p p))
           (s\<lparr>trace := trace s @ map UnlinkMedia fs, dir := unlinkPost (id_p p) (dir s)\<rparr>)))"
  by (cases fs) (simp_all add: emit_def)

lemma eitaa_rest_resume:
  "eitaa_rest nw (fst (eitaa_resume nw t s)) (snd (eitaa_resume nw t s)) = eitaa_rest nw t s"
proof (cases t)
  case (Await_status st)
  then show ?thesis by (simp add: readAll_def)
next
  case (Await_load ps)
  then show ?thesis by (simp add: eitaa_rest_next)
next
  case (Await_sendFile p fs mid ps r)
  then show ?thesis by (cases r) (simp_all add: eitaa_rest_catch)
next
  case (Await_fileDelay p fs mid ps)
  then show ?thesis
    by (cases fs) (simp_all add: eitaa_rest_record eitaa_rest_issueFile del: eitaa_sendFiles.simps(2))
next
  case (Await_sendMessage p ps r)
  then show ?thesis by (cases r) (simp_all add: eitaa_rest_catch eitaa_rest_record)
next
  case (Await_saveSynced p ps)
  then show ?thesis
    by (simp add: eitaa_rest_unlinkNext eitaa_deletePostAndMedia_def emit_def Let_def)
next
  case (Await_unlinkMedia p fs ps)
  then show ?thesis by (simp add: eitaa_rest_unlinkNext)
next
  case (Await_rateLimit ps)
  then show ?thesis by (simp add: eitaa_rest_next)
qed simp_all

lemma eitaa_left_next:
  "eitaa_left (fst (eitaa_next nw ps s)) (snd (eitaa_next nw ps s)) \<le> loopSteps ps"
proof (cases ps)
  case Nil
  then show ?thesis by simp
next
  case (Cons p ps')
  then show ?thesis
    by (cases "media p")
       (simp_all add: eitaa_catch_def eitaa_enter_def eitaa_issueFile_def eitaa_record_def
          loopSteps_Cons Let_def)
qed

lemma loopSteps_filter: "loopSteps (filter P ps) \<le> loopSteps ps"
  by (induction ps) (simp_all add: loopSteps_Cons)

lemma eitaa_left_unlinkNext:
  "eitaa_left (fst (eitaa_unlinkNext p fs ps s)) (snd (eitaa_unlinkNext p fs ps s))
     = loopSteps ps + length fs + 2"
  by (cases fs) simp_all

lemma eitaa_left_resume:
  assumes "t \<noteq> Finished"
  shows "eitaa_left (fst (eitaa_resume nw t s)) (snd (eitaa_resume nw t s)) < eitaa_left t s"
proof (cases t)
  case (Await_status st)
  then show ?thesis by simp
next
  case (Await_load ps)
  let ?ps = "filter (\<lambda>postData. \<not> truthy_bool (deleted postData)
                       \<and> id_p postData \<notin> eitaaProcessed s) ps"
  from eitaa_left_next[of nw ?ps s] loopSteps_filter[of _ ps]
  have "eitaa_left (fst (eitaa_next nw ?ps s)) (snd (eitaa_next nw ?ps s)) \<le> loopSteps ps"
    by (rule order_trans)
  with Await_load show ?thesis by simp
next
  case (Await_sendFile p fs mid ps r)
  then show ?thesis by (cases r) (simp_all add: eitaa_catch_def)
next
  case (Await_fileDelay p fs mid ps)
  then show ?thesis by (cases fs) (simp_all add: eitaa_record_def eitaa_issueFile_def)
next
  case (Await_sendMessage p ps r)
  then show ?thesis by (cases r) (simp_all add: eitaa_catch_def eitaa_record_def)
next
  case (Await_saveSynced p ps)
  then show ?thesis by (simp add: eitaa_left_unlinkNext)
next
  case (Await_unlinkMedia p fs ps)
  then show ?thesis by (simp add: eitaa_left_unlinkNext)
next
  case (Await_rateLimit ps)
  with eitaa_left_next[of nw ps s] show ?thesis by simp
next
  case Finished
  with assms show ?thesis by simp
qed simp_all

lemma eitaa_left_0: "eitaa_left t s = 0 \<Longrightarrow> t = Finished"
  by (cases t) simp_all

lemma eitaa_resumes_rest:
  "eitaa_left t s \<le> n \<Longrightarrow> eitaa_resumes nw n (t, s) = (Finished, eitaa_rest nw t s)"
proof (induction n arbitrary: t s)
  case 0
  then have "t = Finished" by (simp add: eitaa_left_0)
  then show ?case by simp
next
  case (Suc n)
  show ?case
  proof (cases "t = Finished")
    case True
    then have "eitaa_resumes nw (Suc n) (t, s) = eitaa_resumes nw n (Finished, s)" by simp
    also have "\<dots> = (Finished, eitaa_rest nw Finished s)" by (rule Suc.IH) simp
    finally show ?thesis using True by simp
  next
    case False
    let ?t = "fst (eitaa_resume nw t s)" and ?s = "snd (eitaa_resume nw t s)"
    from eitaa_left_resume[OF False, of nw s] Suc.prems have "eitaa_left ?t ?s \<le> n" by simp
    then have "eitaa_resumes nw n (?t, ?s) = (Finished, eitaa_rest nw ?t ?s)" by (rule Suc.IH)
    then show ?thesis by (simp add: eitaa_rest_resume)
  qed
qed

lemma eitaa_next_exited: "exited (snd (eitaa_next nw ps s)) = exited s"
  by (cases ps)
     (simp_all add: eitaa_catch_def eitaa_enter_def eitaa_issueFile_def
        eitaa_record_def eitaa_saveProcessedPosts_def emit_def Let_def split: list.splits)

lemma eitaa_resume_exited:
  "exited (snd (eitaa_resume nw t s)) = exited s \<or> fst (eitaa_resume nw t s) = Finished"
proof (cases t)
  case (Await_fileDelay p fs mid ps)
  then show ?thesis
    by (cases fs)
       (simp_all add: eitaa_record_def eitaa_issueFile_def eitaa_saveProcessedPosts_def emit_def)
next
  case (Await_saveSynced p ps)
  then show ?thesis by (cases "media p") (simp_all add: emit_def)
next
  case (Await_unlinkMedia p fs ps)
  then show ?thesis by (cases fs) (simp_all add: emit_def)
qed (simp_all add: eitaa_next_exited eitaa_catch_def eitaa_record_def
       eitaa_saveProcessedPosts_def readAll_def emit_def split: response.splits)

lemma eitaa_overlap_resumes:
  assumes "i < length ts" and "exited s = None \<or> ts ! i = Finished"
  shows "eitaa_overlap nw (replicate n (Resumes i)) (s, ts)
           = (snd (eitaa_resumes nw n (ts ! i, s)), ts[i := fst (eitaa_resumes nw n (ts ! i, s))])"
  using assms
proof (induction n arbitrary: s ts)
  case 0
  then show ?case by (simp add: eitaa_overlap_def)
next
  case (Suc n)
  let ?t = "fst (eitaa_resume nw (ts ! i) s)" and ?s = "snd (eitaa_resume nw (ts ! i) s)"
  show ?case
  proof (cases "exited s = None")
    case True
    from eitaa_resume_exited[of nw "ts ! i" s] True
    have ex: "exited ?s = None \<or> ts[i := ?t] ! i = Finished"
      using Suc.prems(1) by auto
    from Suc.prems(1) have len: "i < length (ts[i := ?t])" by simp
    have "eitaa_overlap nw (replicate (Suc n) (Resumes i)) (s, ts)
            = eitaa_overlap nw (replicate n (Resumes i)) (?s, ts[i := ?t])"
      using True Suc.prems(1) by (simp add: eitaa_overlap_def split: prod.splits)
    also have "\<dots> = (snd (eitaa_resumes nw n (ts[i := ?t] ! i, ?s)),
                      (ts[i := ?t])[i := fst (eitaa_resumes nw n (ts[i := ?t] ! i, ?s))])"
      using len ex by (rule Suc.IH)
    finally show ?thesis using Suc.prems(1) by simp
  next
    case False
    with Suc.prems(2) have fin: "ts ! i = Finished" by simp
    have "eitaa_overlap nw (replicate (Suc n) (Resumes i)) (s, ts)
            = eitaa_overlap nw (replicate n (Resumes i)) (s, ts)"
      using False by (cases "exited s") (simp_all add: eitaa_overlap_def)
    also have "\<dots> = (snd (eitaa_resumes nw n (ts ! i, s)),
                      ts[i := fst (eitaa_resumes nw n (ts ! i, s))])"
      using Suc.prems by (rule Suc.IH)
    finally show ?thesis using fin by simp
  qed
qed

lemma eitaa_rest_status:
  "eitaa_rest nw (Await_status st) (emit ReadStatus s) = eitaa_watchCycle nw st s"
  by (simp add: eitaa_watchCycle_def eitaa_loopEnd_def readAll_def emit_def Let_def
      split: prod.splits bool.splits)

lemma eitaa_callback_alone:
  "\<exists>n. eitaa_overlap nw (Happens (Tick st d) # replicate n (Resumes (length ts))) (s, ts)
         = (eitaa_step nw s (Tick st d),
            if watching s \<and> exited s = None then ts @ [Finished] else ts)"
proof (cases "watching s \<and> exited s = None")
  case True
  let ?s = "emit ReadStatus (s\<lparr>dir := d\<rparr>)" and ?ts = "ts @ [Await_status st]"
  let ?n = "eitaa_left (Await_status st) ?s"
  have i: "length ts < length ?ts" by simp
  have e: "exited ?s = None \<or> ?ts ! length ts = Finished" using True by (simp add: emit_def)
  have "eitaa_overlap nw (Happens (Tick st d) # replicate ?n (Resumes (length ts))) (s, ts)
          = eitaa_overlap nw (replicate ?n (Resumes (length ts))) (?s, ?ts)"
    using True by (simp add: eitaa_overlap_def)
  also have "\<dots> = (snd (eitaa_resumes nw ?n (?ts ! length ts, ?s)),
                    ?ts[length ts := fst (eitaa_resumes nw ?n (?ts ! length ts, ?s))])"
    using i e by (rule eitaa_overlap_resumes)
  finally have run:
    "eitaa_overlap nw (Happens (Tick st d) # replicate ?n (Resumes (length ts))) (s, ts)
       = (snd (eitaa_resumes nw ?n (?ts ! length ts, ?s)),
          ?ts[length ts := fst (eitaa_resumes nw ?n (?ts ! length ts, ?s))])" .
  have nth: "?ts ! length ts = Await_status st" by simp
  have "eitaa_resumes nw ?n (Await_status st, ?s) = (Finished, eitaa_rest nw (Await_status st) ?s)"
    by (rule eitaa_resumes_rest) (rule order_refl)
  with run nth
  have "eitaa_overlap nw (Happens (Tick st d) # replicate ?n (Resumes (length ts))) (s, ts)
          = (eitaa_rest nw (Await_status st) ?s, ?ts[length ts := Finished])"
    by (simp only: fst_conv snd_conv)
  also have "eitaa_rest nw (Await_status st) ?s = eitaa_step nw s (Tick st d)"
    using True by (simp add: eitaa_rest_status del: eitaa_rest.simps)
  also have "?ts[length ts := Finished] = ts @ [Finished]" by simp
  finally show ?thesis using True by (intro exI[of _ ?n]) simp
next
  case False
  then have "eitaa_overlap nw (Happens (Tick st d) # replicate 0 (Resumes (length ts))) (s, ts)
               = (eitaa_step nw s (Tick st d), ts)"
    by (auto simp: eitaa_overlap_def)
  with False show ?thesis by (intro exI[of _ 0]) auto
qed

section \<open>At most one delivery per platform\<close>

text \<open>
  C1 fails when watch callbacks overlap. The ledger is empty and the directory holds the
  text post 1, which is never edited or deleted; the platform accepts every call. The
  first callback has issued \<open>sendMessage\<close> for post 1 and waits for the answer when the
  interval fires again (\<open>setInterval\<close> does not wait for the callback, and nothing bounds
  the time a call takes). The second callback finds \<open>post_1.json\<close> in the directory and
  no entry for post 1 in the ledger, which \<open>syncPost\<close> writes only after the answer, and
  sends post 1 a second time. Both callbacks end normally. This holds for both
  platforms; when the first callback ends before the interval fires again, post 1 is
  sent once.
\<close>

theorem C1_overlapping_callbacks_send_twice:
  "trace (fst (bale_overlap allOk overlapTurns (baleWatching, [])))
     = [ReadStatus, ReadDir, ReadPost (MsgId 1),
        Syncing (textPost 1 100 ''hello''), SendMessage (textPost 1 100 ''hello''),
        ReadStatus, ReadDir, ReadPost (MsgId 1),
        Syncing (textPost 1 100 ''hello''), SendMessage (textPost 1 100 ''hello''),
        SaveProcessed, Synced (MsgId 1), UnlinkPost (MsgId 1),
        SaveProcessed, Synced (MsgId 1), UnlinkPost (MsgId 1)]
   \<and> snd (bale_overlap allOk overlapTurns (baleWatching, [])) = [Finished, Finished]
   \<and> exited (fst (bale_overlap allOk overlapTurns (baleWatching, []))) = None
   \<and> filter isCall (trace (fst (eitaa_overlap allOk overlapTurns (eitaaWatching, []))))
       = [SendMessage (textPost 1 100 ''hello''), SendMessage (textPost 1 100 ''hello'')]
   \<and> snd (eitaa_overlap allOk overlapTurns (eitaaWatching, [])) = [Finished, Finished]
   \<and> exited (fst (eitaa_overlap allOk overlapTurns (eitaaWatching, []))) = None
   \<and> filter isCall (trace (fst (bale_overlap allOk serialTurns (baleWatching, []))))
       = [SendMessage (textPost 1 100 ''hello'')]
   \<and> filter isCall (trace (fst (eitaa_overlap allOk serialTurns (eitaaWatching, []))))
       = [SendMessage (textPost 1 100 ''hello'')]"
  by code_simp

section \<open>Delivery order\<close>


section \<open>A send that raises\<close>

lemma returned_not_raised: "returned nw s s' \<Longrightarrow> raised nw s s' \<Longrightarrow> False"
  using raised_raisedDuring[of nw s s'] by (simp add: returned_def)

lemma raised_last: "raised nw s s' \<Longrightarrow> isCall (last (trace s'))"
  by (auto simp: raised_def)

lemma bale_unrecorded_cong:
  "processedPosts t = processedPosts s \<Longrightarrow> bale_unrecorded a s \<Longrightarrow> bale_unrecorded a t"
  by (cases a) simp_all

lemma eitaa_unrecorded_cong:
  "eitaaProcessed t = eitaaProcessed s \<Longrightarrow> eitaa_unrecorded a s \<Longrightarrow> eitaa_unrecorded a t"
  by (cases a) simp_all

lemma last_send:
  assumes "list_all (isSendOf p) sends" "isCall (last (Syncing p # sends))"
  shows "isSendOf p (last (Syncing p # sends))"
proof (cases "sends = []")
  case True
  with assms(2) show ?thesis by simp
next
  case False
  then have "last (Syncing p # sends) = last sends" "last sends \<in> set sends" by simp_all
  with assms(1) show ?thesis by (simp add: list_all_iff)
qed

lemma isSendOf_bale_unrecorded:
  "isSendOf p a \<Longrightarrow> processedPosts s (id_p p) = None \<Longrightarrow> bale_unrecorded a s"
  by (cases a) auto

lemma isSendOf_eitaa_unrecorded:
  "isSendOf p a \<Longrightarrow> id_p p \<notin> eitaaProcessed s \<Longrightarrow> eitaa_unrecorded a s"
  by (cases a) auto

lemma bale_syncPost_unrecorded:
  assumes "bale_syncPost nw p s = (False, s')" "processedPosts s (id_p p) = None"
  shows "bale_unrecorded (last (trace s')) s'"
proof -
  from bale_syncPost_out[OF assms(1)] obtain sends where
    sh: "list_all (isSendOf p) sends" "trace s' = trace s @ Syncing p # sends" by auto
  from bale_syncPost_outcome[OF assms(1)] have "isCall (last (trace s'))"
    by (simp add: raised_last)
  with sh(2) have "isCall (last (Syncing p # sends))" by simp
  from last_send[OF sh(1) this] sh(2) have "isSendOf p (last (trace s'))" by simp
  moreover from bale_syncPost_state(4)[OF assms(1)] assms(2)
  have "processedPosts s' (id_p p) = None" by simp
  ultimately show ?thesis by (rule isSendOf_bale_unrecorded)
qed

lemma bale_watchPost_unrecorded:
  assumes "bale_watchPost nw p s = (False, s')" "raised nw s s'"
  shows "bale_unrecorded (last (trace s')) s'"
proof (cases "processedPosts s (id_p p)")
  case None
  from assms(2) have ne: "s' \<noteq> s" by (auto simp: raised_def)
  with None assms(1) have "bale_syncPost nw p s = (False, s')"
    by (auto simp: bale_watchPost_def split: if_splits)
  from bale_syncPost_unrecorded[OF this None] show ?thesis .
next
  case (Some c)
  with assms(1) obtain m where m: "baleMessageId c = Some m" "m \<noteq> 0"
    "\<not> truthy_bool (c_deleted c)"
    and s': "s' = (emit (DeleteMessage (id_p p) m) s)\<lparr>calls := calls s + 1\<rparr>"
    by (auto simp: bale_watchPost_def bale_deleteMessage_def Let_def
        split: if_splits option.splits response.splits prod.splits)
  with Some show ?thesis by (simp add: emit_def)
qed

lemma bale_watchLoop_unrecorded:
  "bale_watchLoop nw ps s = (False, s') \<Longrightarrow> raised nw s s' \<Longrightarrow>
     bale_unrecorded (last (trace s')) s'"
proof (induction ps arbitrary: s)
  case Nil
  then show ?case by simp
next
  case (Cons p ps)
  obtain b1 s1 where st: "bale_watchPost nw p s = (b1, s1)" by fastforce
  note o1 = bale_watchPost_outcome[OF st]
  show ?case
  proof (cases b1)
    case False
    with Cons.prems st have "s' = s1" by simp
    with st False Cons.prems(2) show ?thesis by (simp add: bale_watchPost_unrecorded)
  next
    case True
    with Cons.prems st have l: "bale_watchLoop nw ps s1 = (False, s')" by simp
    from True o1 have r1: "returned nw s s1" by simp
    have "raised nw s1 s'"
    proof (rule ccontr)
      assume "\<not> raised nw s1 s'"
      with bale_watchLoop_outcome[OF l] have "returned nw s1 s'" by simp
      with r1 have "returned nw s s'" by (rule returned_trans)
      from returned_not_raised[OF this Cons.prems(2)] show False .
    qed
    from Cons.IH[OF l this] show ?thesis .
  qed
qed

lemma bale_watchCycle_unrecorded:
  assumes "raisedDuring nw (calls s) (calls (bale_watchCycle nw st s))"
  shows "\<exists>pre a. since s (bale_watchCycle nw st s) = pre @ a # fatalTail \<and> isCall a
           \<and> bale_unrecorded a (bale_watchCycle nw st s)"
proof -
  let ?s0 = "emit ReadStatus s"
  from bale_watchCycle_fatal[OF assms] obtain s1 where
    eq: "bale_watchCycle nw st s = bale_fatal s1" and ra: "raised nw s s1" by blast
  have np: "\<not> isTelegramSyncInProgress st"
  proof
    assume "isTelegramSyncInProgress st"
    then have "calls (bale_watchCycle nw st s) = calls s"
      by (simp add: bale_watchCycle_def emit_def)
    with assms show False by (simp add: raisedDuring_def)
  qed
  obtain b s2 where r: "bale_watchLoop nw (loadAndSortPosts (dir s)) (readAll ?s0) = (b, s2)"
    by fastforce
  have pre: "returned nw s (readAll ?s0)"
    by (rule returnedI[where out = "ReadStatus # ReadDir # map (\<lambda>e. ReadPost (fst e)) (dir s)"])
       (simp_all add: readAll_def emit_def)
  have nb: "\<not> b"
  proof
    assume b
    with np r have "bale_watchCycle nw st s = s2" by (simp add: bale_watchCycle_def emit_def)
    moreover from \<open>b\<close> bale_watchLoop_outcome[OF r] pre have "returned nw s s2"
      by (auto intro: returned_trans)
    ultimately show False using assms by (simp add: returned_def)
  qed
  with np r have eq2: "bale_watchCycle nw st s = bale_fatal s2"
    by (simp add: bale_watchCycle_def emit_def)
  have ra2: "raised nw (readAll ?s0) s2"
  proof (rule ccontr)
    assume "\<not> raised nw (readAll ?s0) s2"
    with nb bale_watchLoop_outcome[OF r] have "returned nw (readAll ?s0) s2" by simp
    with pre have "returned nw s s2" by (rule returned_trans)
    with assms eq2 show False by (simp add: returned_def bale_fatal_facts)
  qed
  from nb r have "bale_watchLoop nw (loadAndSortPosts (dir s)) (readAll ?s0) = (False, s2)"
    by simp
  from bale_watchLoop_unrecorded[OF this ra2] have un: "bale_unrecorded (last (trace s2)) s2" .
  from returned_raised[OF pre ra2] obtain pre' a where
    tr: "trace s2 = trace s @ pre' @ [a]" "isCall a" by (auto simp: raised_def)
  have pp: "processedPosts (bale_fatal s2) = processedPosts s2"
    by (simp add: bale_fatal_def bale_saveProcessedPosts_def emit_def)
  from tr(1) have "last (trace s2) = a" by simp
  with un have "bale_unrecorded a s2" by simp
  with pp have "bale_unrecorded a (bale_fatal s2)" by (rule bale_unrecorded_cong)
  moreover from tr(1) have "since s (bale_fatal s2) = pre' @ a # fatalTail"
    by (simp add: since_def bale_fatal_facts)
  ultimately show ?thesis using eq2 tr(2) by auto
qed

lemma bale_syncExistingLoop_outcome:
  "bale_syncExistingLoop nw ps s = (b, s') \<Longrightarrow> (if b then returned nw s s' else raised nw s s')"
proof (induction ps arbitrary: s)
  case Nil
  then show ?case by (auto simp: returned_refl)
next
  case (Cons p ps)
  show ?case
  proof (cases "\<not> truthy_bool (deleted p) \<and> processedPosts s (id_p p) = None")
    case False
    with Cons.prems have "bale_syncExistingLoop nw ps s = (b, s')" by auto
    then show ?thesis by (rule Cons.IH)
  next
    case True
    obtain b1 s1 where st: "bale_syncPost nw p s = (b1, s1)" by fastforce
    note o1 = bale_syncPost_outcome[OF st]
    show ?thesis
    proof (cases b1)
      case False
      with Cons.prems st True have "b = False" "s' = s1" by simp_all
      with o1 False show ?thesis by simp
    next
      case b1: True
      with Cons.prems st True have "bale_syncExistingLoop nw ps s1 = (b, s')" by simp
      from Cons.IH[OF this] o1 b1 show ?thesis
        by (auto intro: returned_trans returned_raised split: if_splits)
    qed
  qed
qed

lemma eitaa_syncExistingLoop_outcome:
  "eitaa_syncExistingLoop nw ps s = (b, s') \<Longrightarrow> (if b then returned nw s s' else raised nw s s')"
proof (induction ps arbitrary: s)
  case Nil
  then show ?case by (auto simp: returned_refl)
next
  case (Cons p ps)
  show ?case
  proof (cases "\<not> truthy_bool (deleted p) \<and> id_p p \<notin> eitaaProcessed s")
    case False
    with Cons.prems have "eitaa_syncExistingLoop nw ps s = (b, s')" by auto
    then show ?thesis by (rule Cons.IH)
  next
    case True
    obtain b1 s1 where st: "eitaa_syncPost nw p s = (b1, s1)" by fastforce
    note o1 = eitaa_syncPost_outcome[OF st]
    show ?thesis
    proof (cases b1)
      case False
      with Cons.prems st True have "b = False" "s' = s1" by simp_all
      with o1 False show ?thesis by simp
    next
      case b1: True
      with Cons.prems st True have "eitaa_syncExistingLoop nw ps s1 = (b, s')" by simp
      from Cons.IH[OF this] o1 b1 show ?thesis
        by (auto intro: returned_trans returned_raised split: if_splits)
    qed
  qed
qed

text \<open>
  A catch-up pass in which a call raises: the process exits with code 1 right after that
  call, without arming the timer and without writing the ledger again. The ledger file
  holds what the memory holds, unless the pass has recorded nothing: then the memory is
  as it was loaded.
\<close>

lemma bale_fatal_start:
  assumes "raisedDuring nw (calls s) (calls (bale_start nw d s))"
  shows "exited (bale_start nw d s) = Some 1"
    and "\<not> watching (bale_start nw d s)"
    and "nw (calls (bale_start nw d s) - 1) = Raises"
    and "\<exists>pre a. since s (bale_start nw d s) = pre @ [a, ProcessExit 1] \<and> isCall a"
    and "processedFile (bale_start nw d s) = Some (processedPosts (bale_start nw d s))
         \<or> processedFile (bale_start nw d s) = processedFile s
            \<and> processedPosts (bale_start nw d s)
                = (case processedFile s of None \<Rightarrow> Map.empty | Some m \<Rightarrow> m)"
    and "bale_step nw (bale_start nw d s) (Tick st' d') = bale_start nw d s"
proof -
  let ?s0 = "bale_loadProcessedPosts
                 (s\<lparr>dir := d, watching := False, exited := None, processedPosts := Map.empty\<rparr>)"
  have d0: "dir ?s0 = d" "calls ?s0 = calls s" "trace ?s0 = trace s" "\<not> watching ?s0"
    "processedFile ?s0 = processedFile s"
    "processedPosts ?s0 = (case processedFile s of None \<Rightarrow> Map.empty | Some m \<Rightarrow> m)"
    by (simp_all add: bale_loadProcessedPosts_def split: option.splits)
  obtain b s1 where r: "bale_syncExistingLoop nw (loadAndSortPosts d) (readAll ?s0) = (b, s1)"
    by fastforce
  note o = bale_syncExistingLoop_outcome[OF r]
  note k = bale_syncExistingLoop_keeps[OF r]
  have pre: "returned nw s (readAll ?s0)"
    by (rule returnedI[where out = "ReadDir # map (\<lambda>e. ReadPost (fst e)) d"])
       (simp_all add: readAll_def d0)
  from r d0(1) have st: "bale_start nw d s = (if b then s1\<lparr>watching := True\<rparr>
                   else (emit (ProcessExit 1) s1)\<lparr>exited := Some 1\<rparr>)"
    by (simp add: bale_start_def bale_syncExistingPosts_def)
  have nb: "\<not> b"
  proof
    assume b
    with o pre have "returned nw s s1" by (auto intro: returned_trans)
    moreover from \<open>b\<close> st have "calls (bale_start nw d s) = calls s1" by simp
    ultimately show False using assms by (simp add: returned_def)
  qed
  with st have eq: "bale_start nw d s = (emit (ProcessExit 1) s1)\<lparr>exited := Some 1\<rparr>" by simp
  from nb o pre have ra: "raised nw s s1" by (auto intro: returned_raised)
  from k d0(4) have w1: "\<not> watching s1" by (simp add: bale_keeps_def readAll_def)
  from eq show "exited (bale_start nw d s) = Some 1" by simp
  from eq w1 show "\<not> watching (bale_start nw d s)" by (simp add: emit_def)
  from eq ra show "nw (calls (bale_start nw d s) - 1) = Raises"
    by (simp add: raised_def emit_def)
  from ra obtain pre a where "trace s1 = trace s @ pre @ [a]" "isCall a"
    by (auto simp: raised_def)
  then have "trace ((emit (ProcessExit 1) s1)\<lparr>exited := Some 1\<rparr>) = trace s @ (pre @ [a, ProcessExit 1])"
    "isCall a" by (simp_all add: emit_def)
  with eq show "\<exists>pre a. since s (bale_start nw d s) = pre @ [a, ProcessExit 1] \<and> isCall a"
    by (auto simp: since_def)
  from k d0(5,6) eq
  show "processedFile (bale_start nw d s) = Some (processedPosts (bale_start nw d s))
         \<or> processedFile (bale_start nw d s) = processedFile s
            \<and> processedPosts (bale_start nw d s)
                = (case processedFile s of None \<Rightarrow> Map.empty | Some m \<Rightarrow> m)"
    by (auto simp: bale_keeps_def readAll_def emit_def)
  from eq show "bale_step nw (bale_start nw d s) (Tick st' d') = bale_start nw d s"
    by (simp add: emit_def)
qed

lemma bale_syncExistingLoop_unrecorded:
  "bale_syncExistingLoop nw ps s = (False, s') \<Longrightarrow> bale_unrecorded (last (trace s')) s'"
proof (induction ps arbitrary: s)
  case Nil
  then show ?case by simp
next
  case (Cons p ps)
  show ?case
  proof (cases "\<not> truthy_bool (deleted p) \<and> processedPosts s (id_p p) = None")
    case False
    with Cons.prems have "bale_syncExistingLoop nw ps s = (False, s')" by auto
    then show ?thesis by (rule Cons.IH)
  next
    case True
    obtain b1 s1 where st: "bale_syncPost nw p s = (b1, s1)" by fastforce
    show ?thesis
    proof (cases b1)
      case False
      with Cons.prems st True have "s' = s1" by simp
      with st False True show ?thesis by (simp add: bale_syncPost_unrecorded)
    next
      case b1: True
      with Cons.prems st True have "bale_syncExistingLoop nw ps s1 = (False, s')" by simp
      then show ?thesis by (rule Cons.IH)
    qed
  qed
qed

lemma bale_start_unrecorded:
  assumes "raisedDuring nw (calls s) (calls (bale_start nw d s))"
  shows "\<exists>pre a. since s (bale_start nw d s) = pre @ [a, ProcessExit 1] \<and> isCall a
           \<and> bale_unrecorded a (bale_start nw d s)"
proof -
  let ?s0 = "bale_loadProcessedPosts
                 (s\<lparr>dir := d, watching := False, exited := None, processedPosts := Map.empty\<rparr>)"
  have d0: "dir ?s0 = d" "calls ?s0 = calls s" "trace ?s0 = trace s"
    by (simp_all add: bale_loadProcessedPosts_def split: option.splits)
  obtain b s1 where r: "bale_syncExistingLoop nw (loadAndSortPosts d) (readAll ?s0) = (b, s1)"
    by fastforce
  note o = bale_syncExistingLoop_outcome[OF r]
  have pre: "returned nw s (readAll ?s0)"
    by (rule returnedI[where out = "ReadDir # map (\<lambda>e. ReadPost (fst e)) d"])
       (simp_all add: readAll_def d0)
  from r d0(1) have st: "bale_start nw d s = (if b then s1\<lparr>watching := True\<rparr>
                   else (emit (ProcessExit 1) s1)\<lparr>exited := Some 1\<rparr>)"
    by (simp add: bale_start_def bale_syncExistingPosts_def)
  have nb: "\<not> b"
  proof
    assume b
    with o pre have "returned nw s s1" by (auto intro: returned_trans)
    moreover from \<open>b\<close> st have "calls (bale_start nw d s) = calls s1" by simp
    ultimately show False using assms by (simp add: returned_def)
  qed
  with st have eq: "bale_start nw d s = (emit (ProcessExit 1) s1)\<lparr>exited := Some 1\<rparr>" by simp
  from nb o pre have "raised nw s s1" by (auto intro: returned_raised)
  then obtain pre' a where tr: "trace s1 = trace s @ pre' @ [a]" "isCall a"
    by (auto simp: raised_def)
  from nb r have "bale_syncExistingLoop nw (loadAndSortPosts d) (readAll ?s0) = (False, s1)"
    by simp
  from bale_syncExistingLoop_unrecorded[OF this] tr(1) have "bale_unrecorded a s1" by simp
  moreover have "processedPosts ((emit (ProcessExit 1) s1)\<lparr>exited := Some 1\<rparr>) = processedPosts s1"
    by (simp add: emit_def)
  ultimately have "bale_unrecorded a ((emit (ProcessExit 1) s1)\<lparr>exited := Some 1\<rparr>)"
    by (simp only: bale_unrecorded_cong[of "(emit (ProcessExit 1) s1)\<lparr>exited := Some 1\<rparr>" s1 a])
  moreover from tr(1)
  have "since s ((emit (ProcessExit 1) s1)\<lparr>exited := Some 1\<rparr>) = pre' @ [a, ProcessExit 1]"
    by (simp add: since_def emit_def)
  ultimately show ?thesis using eq tr(2) by auto
qed

text \<open>The same for Eitaa.\<close>

lemma eitaa_syncPost_unrecorded:
  assumes "eitaa_syncPost nw p s = (False, s')" "id_p p \<notin> eitaaProcessed s"
  shows "eitaa_unrecorded (last (trace s')) s'"
proof -
  from eitaa_syncPost_out[OF assms(1)] obtain sends where
    sh: "list_all (isSendOf p) sends" "trace s' = trace s @ Syncing p # sends" by auto
  from eitaa_syncPost_outcome[OF assms(1)] have "isCall (last (trace s'))"
    by (simp add: raised_last)
  with sh(2) have "isCall (last (Syncing p # sends))" by simp
  from last_send[OF sh(1) this] sh(2) have "isSendOf p (last (trace s'))" by simp
  moreover from eitaa_syncPost_state(4)[OF assms(1)] assms(2)
  have "id_p p \<notin> eitaaProcessed s'" by simp
  ultimately show ?thesis by (rule isSendOf_eitaa_unrecorded)
qed

lemma eitaa_watchLoop_unrecorded:
  "eitaa_watchLoop nw ps s = (False, s') \<Longrightarrow> raised nw s s' \<Longrightarrow>
     \<forall>p\<in>set ps. id_p p \<notin> eitaaProcessed s \<Longrightarrow> distinct (map id_p ps) \<Longrightarrow>
     eitaa_unrecorded (last (trace s')) s'"
proof (induction ps arbitrary: s)
  case Nil
  then show ?case by simp
next
  case (Cons p ps)
  from Cons.prems(2) have ne: "s' \<noteq> s" by (auto simp: raised_def)
  with Cons.prems(1) have ok: "\<not> toISOString_throws (date p)" by (auto split: if_splits)
  obtain b1 s1 where st: "eitaa_syncPost nw p s = (b1, s1)" by fastforce
  note o1 = eitaa_syncPost_outcome[OF st]
  show ?case
  proof (cases b1)
    case False
    with Cons.prems(1) st ok have "s' = s1" by simp
    with st False Cons.prems(3) show ?thesis by (simp add: eitaa_syncPost_unrecorded)
  next
    case True
    with Cons.prems(1) st ok have l: "eitaa_watchLoop nw ps s1 = (False, s')" by simp
    from True o1 have r1: "returned nw s s1" by simp
    have ra: "raised nw s1 s'"
    proof (rule ccontr)
      assume "\<not> raised nw s1 s'"
      with eitaa_watchLoop_outcome[OF l] have "returned nw s1 s'" by simp
      with r1 have "returned nw s s'" by (rule returned_trans)
      from returned_not_raised[OF this Cons.prems(2)] show False .
    qed
    have "\<forall>q\<in>set ps. id_p q \<notin> eitaaProcessed s1"
    proof
      fix q assume q: "q \<in> set ps"
      then have "id_p q \<in> id_p ` set ps" by (rule imageI)
      with Cons.prems(4) have "id_p q \<noteq> id_p p" by auto
      moreover from q Cons.prems(3) have "id_p q \<notin> eitaaProcessed s" by simp
      ultimately show "id_p q \<notin> eitaaProcessed s1"
        using eitaa_syncPost_state(1)[OF st True] by simp
    qed
    moreover from Cons.prems(4) have "distinct (map id_p ps)" by simp
    ultimately show ?thesis using Cons.IH[OF l ra] by blast
  qed
qed

lemma eitaa_watchCycle_unrecorded:
  assumes "raisedDuring nw (calls s) (calls (eitaa_watchCycle nw st s))"
    and "distinct (map id_p (loadPosts (dir s)))"
  shows "\<exists>pre a. since s (eitaa_watchCycle nw st s) = pre @ a # fatalTail \<and> isCall a
           \<and> eitaa_unrecorded a (eitaa_watchCycle nw st s)"
proof -
  let ?s0 = "emit ReadStatus s"
  let ?un = "filter (\<lambda>postData. \<not> truthy_bool (deleted postData)
                 \<and> id_p postData \<notin> eitaaProcessed s) (loadAndSortPosts (dir s))"
  have np: "\<not> isTelegramSyncInProgress st"
  proof
    assume "isTelegramSyncInProgress st"
    then have "calls (eitaa_watchCycle nw st s) = calls s"
      by (simp add: eitaa_watchCycle_def emit_def)
    with assms show False by (simp add: raisedDuring_def)
  qed
  obtain b s2 where r: "eitaa_watchLoop nw ?un (readAll ?s0) = (b, s2)" by fastforce
  have pre: "returned nw s (readAll ?s0)"
    by (rule returnedI[where out = "ReadStatus # ReadDir # map (\<lambda>e. ReadPost (fst e)) (dir s)"])
       (simp_all add: readAll_def emit_def)
  have nb: "\<not> b"
  proof
    assume b
    with np r have "eitaa_watchCycle nw st s = s2"
      by (simp add: eitaa_watchCycle_def emit_def readAll_def)
    moreover from \<open>b\<close> eitaa_watchLoop_outcome[OF r] pre have "returned nw s s2"
      by (auto intro: returned_trans)
    ultimately show False using assms by (simp add: returned_def)
  qed
  with np r have eq2: "eitaa_watchCycle nw st s = eitaa_fatal s2"
    by (simp add: eitaa_watchCycle_def emit_def readAll_def)
  have ra2: "raised nw (readAll ?s0) s2"
  proof (rule ccontr)
    assume "\<not> raised nw (readAll ?s0) s2"
    with nb eitaa_watchLoop_outcome[OF r] have "returned nw (readAll ?s0) s2" by simp
    with pre have "returned nw s s2" by (rule returned_trans)
    with assms eq2 show False by (simp add: returned_def eitaa_fatal_facts)
  qed
  from nb r have l: "eitaa_watchLoop nw ?un (readAll ?s0) = (False, s2)" by simp
  have fresh: "\<forall>p\<in>set ?un. id_p p \<notin> eitaaProcessed (readAll ?s0)"
    by (simp add: readAll_def emit_def)
  have "mset (map id_p (loadAndSortPosts (dir s))) = mset (map id_p (loadPosts (dir s)))"
    by (simp add: loadAndSortPosts_def)
  with assms(2) have "distinct (map id_p (loadAndSortPosts (dir s)))"
    by (metis mset_eq_imp_distinct_iff)
  then have dis: "distinct (map id_p ?un)" by (rule distinct_map_filter)
  from eitaa_watchLoop_unrecorded[OF l ra2 fresh dis]
  have un: "eitaa_unrecorded (last (trace s2)) s2" .
  from returned_raised[OF pre ra2] obtain pre' a where
    tr: "trace s2 = trace s @ pre' @ [a]" "isCall a" by (auto simp: raised_def)
  have pp: "eitaaProcessed (eitaa_fatal s2) = eitaaProcessed s2"
    by (simp add: eitaa_fatal_def eitaa_saveProcessedPosts_def emit_def)
  from tr(1) have "last (trace s2) = a" by simp
  with un have "eitaa_unrecorded a s2" by simp
  with pp have "eitaa_unrecorded a (eitaa_fatal s2)" by (rule eitaa_unrecorded_cong)
  moreover from tr(1) have "since s (eitaa_fatal s2) = pre' @ a # fatalTail"
    by (simp add: since_def eitaa_fatal_facts)
  ultimately show ?thesis using eq2 tr(2) by auto
qed

lemma eitaa_syncExistingLoop_unrecorded:
  "eitaa_syncExistingLoop nw ps s = (False, s') \<Longrightarrow> eitaa_unrecorded (last (trace s')) s'"
proof (induction ps arbitrary: s)
  case Nil
  then show ?case by simp
next
  case (Cons p ps)
  show ?case
  proof (cases "\<not> truthy_bool (deleted p) \<and> id_p p \<notin> eitaaProcessed s")
    case False
    with Cons.prems have "eitaa_syncExistingLoop nw ps s = (False, s')" by auto
    then show ?thesis by (rule Cons.IH)
  next
    case True
    obtain b1 s1 where st: "eitaa_syncPost nw p s = (b1, s1)" by fastforce
    show ?thesis
    proof (cases b1)
      case False
      with Cons.prems st True have "s' = s1" by simp
      with st False True show ?thesis by (simp add: eitaa_syncPost_unrecorded)
    next
      case b1: True
      with Cons.prems st True have "eitaa_syncExistingLoop nw ps s1 = (False, s')" by simp
      then show ?thesis by (rule Cons.IH)
    qed
  qed
qed

lemma eitaa_fatal_start:
  assumes "raisedDuring nw (calls s) (calls (eitaa_start nw d s))"
  shows "exited (eitaa_start nw d s) = Some 1"
    and "\<not> watching (eitaa_start nw d s)"
    and "nw (calls (eitaa_start nw d s) - 1) = Raises"
    and "\<exists>pre a. since s (eitaa_start nw d s) = pre @ [a, ProcessExit 1] \<and> isCall a
           \<and> eitaa_unrecorded a (eitaa_start nw d s)"
    and "eitaaFile (eitaa_start nw d s) = Some (eitaaProcessed (eitaa_start nw d s))
         \<or> eitaaFile (eitaa_start nw d s) = eitaaFile s
            \<and> eitaaProcessed (eitaa_start nw d s)
                = (case eitaaFile s of None \<Rightarrow> {} | Some m \<Rightarrow> m)"
    and "eitaa_step nw (eitaa_start nw d s) (Tick st' d') = eitaa_start nw d s"
proof -
  let ?s0 = "eitaa_loadProcessedPosts
                 (s\<lparr>dir := d, watching := False, exited := None, eitaaProcessed := {}\<rparr>)"
  have d0: "dir ?s0 = d" "calls ?s0 = calls s" "trace ?s0 = trace s" "\<not> watching ?s0"
    "eitaaFile ?s0 = eitaaFile s"
    "eitaaProcessed ?s0 = (case eitaaFile s of None \<Rightarrow> {} | Some m \<Rightarrow> m)"
    by (simp_all add: eitaa_loadProcessedPosts_def split: option.splits)
  obtain b s1 where r: "eitaa_syncExistingLoop nw (loadAndSortPosts d) (readAll ?s0) = (b, s1)"
    by fastforce
  note o = eitaa_syncExistingLoop_outcome[OF r]
  note k = eitaa_syncExistingLoop_keeps[OF r]
  have pre: "returned nw s (readAll ?s0)"
    by (rule returnedI[where out = "ReadDir # map (\<lambda>e. ReadPost (fst e)) d"])
       (simp_all add: readAll_def d0)
  from r d0(1) have st: "eitaa_start nw d s = (if b then s1\<lparr>watching := True\<rparr>
                   else (emit (ProcessExit 1) s1)\<lparr>exited := Some 1\<rparr>)"
    by (simp add: eitaa_start_def eitaa_syncExistingPosts_def)
  have nb: "\<not> b"
  proof
    assume b
    with o pre have "returned nw s s1" by (auto intro: returned_trans)
    moreover from \<open>b\<close> st have "calls (eitaa_start nw d s) = calls s1" by simp
    ultimately show False using assms by (simp add: returned_def)
  qed
  with st have eq: "eitaa_start nw d s = (emit (ProcessExit 1) s1)\<lparr>exited := Some 1\<rparr>" by simp
  from nb o pre have ra: "raised nw s s1" by (auto intro: returned_raised)
  from k d0(4) have w1: "\<not> watching s1" by (simp add: eitaa_keeps_def readAll_def)
  from eq show "exited (eitaa_start nw d s) = Some 1" by simp
  from eq w1 show "\<not> watching (eitaa_start nw d s)" by (simp add: emit_def)
  from eq ra show "nw (calls (eitaa_start nw d s) - 1) = Raises"
    by (simp add: raised_def emit_def)
  from ra obtain pre' a where tr: "trace s1 = trace s @ pre' @ [a]" "isCall a"
    by (auto simp: raised_def)
  from nb r have "eitaa_syncExistingLoop nw (loadAndSortPosts d) (readAll ?s0) = (False, s1)"
    by simp
  from eitaa_syncExistingLoop_unrecorded[OF this] tr(1) have "eitaa_unrecorded a s1" by simp
  moreover have "eitaaProcessed ((emit (ProcessExit 1) s1)\<lparr>exited := Some 1\<rparr>) = eitaaProcessed s1"
    by (simp add: emit_def)
  ultimately have "eitaa_unrecorded a ((emit (ProcessExit 1) s1)\<lparr>exited := Some 1\<rparr>)"
    by (simp only: eitaa_unrecorded_cong[of "(emit (ProcessExit 1) s1)\<lparr>exited := Some 1\<rparr>" s1 a])
  moreover from tr(1)
  have "since s ((emit (ProcessExit 1) s1)\<lparr>exited := Some 1\<rparr>) = pre' @ [a, ProcessExit 1]"
    by (simp add: since_def emit_def)
  ultimately show "\<exists>pre a. since s (eitaa_start nw d s) = pre @ [a, ProcessExit 1] \<and> isCall a
           \<and> eitaa_unrecorded a (eitaa_start nw d s)" using eq tr(2) by auto
  from k d0(5,6) eq
  show "eitaaFile (eitaa_start nw d s) = Some (eitaaProcessed (eitaa_start nw d s))
         \<or> eitaaFile (eitaa_start nw d s) = eitaaFile s
            \<and> eitaaProcessed (eitaa_start nw d s)
                = (case eitaaFile s of None \<Rightarrow> {} | Some m \<Rightarrow> m)"
    by (auto simp: eitaa_keeps_def readAll_def emit_def)
  from eq show "eitaa_step nw (eitaa_start nw d s) (Tick st' d') = eitaa_start nw d s"
    by (simp add: emit_def)
qed

text \<open>
  C9, amended. If a call of the platform's API raises during a watch callback that runs
  alone, the callback ends in its \<open>catch\<close>: the timer is cleared, the ledger is written
  to its file and the process exits with code 1. If a call raises during the catch-up
  pass, the process exits with code 1 right after that call: no timer is armed, and the
  ledger is not written again; its file holds what the memory holds, unless the pass has
  recorded nothing, and then the memory is as it was loaded. In both cases the call that
  raised is the last call of the process, its record is left as it was in the ledger
  (a send: no entry; a delete call: the entry not marked deleted), so that the item is
  not skipped, and a later firing of the timer does nothing. This holds for both
  platforms, for the watch loop of Eitaa as far as no two post files hold the same id.
\<close>

theorem C9_fatal_on_send_error:
  fixes s s0 :: bale and e e0 :: eitaa
  assumes "s' = bale_watchCycle nw st s" and "e' = eitaa_watchCycle nw st e"
    and "s1 = bale_start nw d s0" and "e1 = eitaa_start nw d e0"
  shows "(raisedDuring nw (calls s) (calls s') \<longrightarrow>
            exited s' = Some 1 \<and> \<not> watching s'
            \<and> processedFile s' = Some (processedPosts s')
            \<and> nw (calls s' - 1) = Raises
            \<and> (\<exists>pre a. since s s' = pre @ a # fatalTail \<and> isCall a \<and> bale_unrecorded a s')
            \<and> bale_step nw s' (Tick st' d') = s')
       \<and> (raisedDuring nw (calls e) (calls e') \<longrightarrow>
            exited e' = Some 1 \<and> \<not> watching e'
            \<and> eitaaFile e' = Some (eitaaProcessed e')
            \<and> nw (calls e' - 1) = Raises
            \<and> (\<exists>pre a. since e e' = pre @ a # fatalTail \<and> isCall a
                  \<and> (distinct (map id_p (loadPosts (dir e))) \<longrightarrow> eitaa_unrecorded a e'))
            \<and> eitaa_step nw e' (Tick st' d') = e')
       \<and> (raisedDuring nw (calls s0) (calls s1) \<longrightarrow>
            exited s1 = Some 1 \<and> \<not> watching s1
            \<and> nw (calls s1 - 1) = Raises
            \<and> (\<exists>pre a. since s0 s1 = pre @ [a, ProcessExit 1] \<and> isCall a \<and> bale_unrecorded a s1)
            \<and> (processedFile s1 = Some (processedPosts s1)
                \<or> processedFile s1 = processedFile s0
                  \<and> processedPosts s1 = (case processedFile s0 of None \<Rightarrow> Map.empty | Some m \<Rightarrow> m))
            \<and> bale_step nw s1 (Tick st' d') = s1)
       \<and> (raisedDuring nw (calls e0) (calls e1) \<longrightarrow>
            exited e1 = Some 1 \<and> \<not> watching e1
            \<and> nw (calls e1 - 1) = Raises
            \<and> (\<exists>pre a. since e0 e1 = pre @ [a, ProcessExit 1] \<and> isCall a \<and> eitaa_unrecorded a e1)
            \<and> (eitaaFile e1 = Some (eitaaProcessed e1)
                \<or> eitaaFile e1 = eitaaFile e0
                  \<and> eitaaProcessed e1 = (case eitaaFile e0 of None \<Rightarrow> {} | Some m \<Rightarrow> m))
            \<and> eitaa_step nw e1 (Tick st' d') = e1)"
proof -
  have ew: "\<exists>pre a. since e (eitaa_watchCycle nw st e) = pre @ a # fatalTail \<and> isCall a
              \<and> (distinct (map id_p (loadPosts (dir e)))
                    \<longrightarrow> eitaa_unrecorded a (eitaa_watchCycle nw st e))"
    if r: "raisedDuring nw (calls e) (calls (eitaa_watchCycle nw st e))"
  proof (cases "distinct (map id_p (loadPosts (dir e)))")
    case True
    from eitaa_watchCycle_unrecorded[OF r True] show ?thesis by blast
  next
    case False
    with eitaa_fatal_cycle(5)[OF r] show ?thesis by blast
  qed
  have A: "raisedDuring nw (calls s) (calls (bale_watchCycle nw st s)) \<longrightarrow>
            exited (bale_watchCycle nw st s) = Some 1 \<and> \<not> watching (bale_watchCycle nw st s)
            \<and> processedFile (bale_watchCycle nw st s)
                = Some (processedPosts (bale_watchCycle nw st s))
            \<and> nw (calls (bale_watchCycle nw st s) - 1) = Raises
            \<and> (\<exists>pre a. since s (bale_watchCycle nw st s) = pre @ a # fatalTail \<and> isCall a
                  \<and> bale_unrecorded a (bale_watchCycle nw st s))
            \<and> bale_step nw (bale_watchCycle nw st s) (Tick st' d') = bale_watchCycle nw st s"
    by (intro impI conjI)
       (rule bale_fatal_cycle(1-4) bale_fatal_cycle(6) bale_watchCycle_unrecorded; assumption)+
  have B: "raisedDuring nw (calls e) (calls (eitaa_watchCycle nw st e)) \<longrightarrow>
            exited (eitaa_watchCycle nw st e) = Some 1 \<and> \<not> watching (eitaa_watchCycle nw st e)
            \<and> eitaaFile (eitaa_watchCycle nw st e)
                = Some (eitaaProcessed (eitaa_watchCycle nw st e))
            \<and> nw (calls (eitaa_watchCycle nw st e) - 1) = Raises
            \<and> (\<exists>pre a. since e (eitaa_watchCycle nw st e) = pre @ a # fatalTail \<and> isCall a
                  \<and> (distinct (map id_p (loadPosts (dir e)))
                        \<longrightarrow> eitaa_unrecorded a (eitaa_watchCycle nw st e)))
            \<and> eitaa_step nw (eitaa_watchCycle nw st e) (Tick st' d') = eitaa_watchCycle nw st e"
    by (intro impI conjI)
       (rule eitaa_fatal_cycle(1-4) eitaa_fatal_cycle(6) ew; assumption)+
  have C: "raisedDuring nw (calls s0) (calls (bale_start nw d s0)) \<longrightarrow>
            exited (bale_start nw d s0) = Some 1 \<and> \<not> watching (bale_start nw d s0)
            \<and> nw (calls (bale_start nw d s0) - 1) = Raises
            \<and> (\<exists>pre a. since s0 (bale_start nw d s0) = pre @ [a, ProcessExit 1] \<and> isCall a
                  \<and> bale_unrecorded a (bale_start nw d s0))
            \<and> (processedFile (bale_start nw d s0) = Some (processedPosts (bale_start nw d s0))
                \<or> processedFile (bale_start nw d s0) = processedFile s0
                  \<and> processedPosts (bale_start nw d s0)
                      = (case processedFile s0 of None \<Rightarrow> Map.empty | Some m \<Rightarrow> m))
            \<and> bale_step nw (bale_start nw d s0) (Tick st' d') = bale_start nw d s0"
    by (intro impI conjI)
       (rule bale_fatal_start(1-3) bale_fatal_start(5,6) bale_start_unrecorded; assumption)+
  have D: "raisedDuring nw (calls e0) (calls (eitaa_start nw d e0)) \<longrightarrow>
            exited (eitaa_start nw d e0) = Some 1 \<and> \<not> watching (eitaa_start nw d e0)
            \<and> nw (calls (eitaa_start nw d e0) - 1) = Raises
            \<and> (\<exists>pre a. since e0 (eitaa_start nw d e0) = pre @ [a, ProcessExit 1] \<and> isCall a
                  \<and> eitaa_unrecorded a (eitaa_start nw d e0))
            \<and> (eitaaFile (eitaa_start nw d e0) = Some (eitaaProcessed (eitaa_start nw d e0))
                \<or> eitaaFile (eitaa_start nw d e0) = eitaaFile e0
                  \<and> eitaaProcessed (eitaa_start nw d e0)
                      = (case eitaaFile e0 of None \<Rightarrow> {} | Some m \<Rightarrow> m))
            \<and> eitaa_step nw (eitaa_start nw d e0) (Tick st' d') = eitaa_start nw d e0"
    by (intro impI conjI) (rule eitaa_fatal_start; assumption)+
  from A B C D show ?thesis unfolding assms by (intro conjI)
qed

text \<open>
  The three posts of \<open>dir3\<close> on a platform whose second call raises, in a watch callback
  and in a catch-up pass: the post dated 100 is sent, the send of the post dated 200
  raises, and the post dated 300 is not sent.
\<close>

lemma failAt_raises:
  "raisedDuring (failAt 1) (calls (baleWatching\<lparr>dir := dir3\<rparr>))
     (calls (bale_watchCycle (failAt 1) NoFile (baleWatching\<lparr>dir := dir3\<rparr>)))"
  "raisedDuring (failAt 1) (calls (eitaaWatching\<lparr>dir := dir3\<rparr>))
     (calls (eitaa_watchCycle (failAt 1) NoFile (eitaaWatching\<lparr>dir := dir3\<rparr>)))"
  "raisedDuring (failAt 1) (calls bale0) (calls (bale_start (failAt 1) dir3 bale0))"
  "raisedDuring (failAt 1) (calls eitaa0) (calls (eitaa_start (failAt 1) dir3 eitaa0))"
  by code_simp+

theorem C9_fatal_on_send_error_witness:
  "exited (bale_watchCycle (failAt 1) NoFile (baleWatching\<lparr>dir := dir3\<rparr>)) = Some 1
   \<and> (\<exists>pre a. since (baleWatching\<lparr>dir := dir3\<rparr>)
                  (bale_watchCycle (failAt 1) NoFile (baleWatching\<lparr>dir := dir3\<rparr>))
                = pre @ a # fatalTail \<and> isCall a
                \<and> bale_unrecorded a (bale_watchCycle (failAt 1) NoFile (baleWatching\<lparr>dir := dir3\<rparr>)))
   \<and> exited (eitaa_watchCycle (failAt 1) NoFile (eitaaWatching\<lparr>dir := dir3\<rparr>)) = Some 1
   \<and> exited (bale_start (failAt 1) dir3 bale0) = Some 1
   \<and> (\<exists>pre a. since bale0 (bale_start (failAt 1) dir3 bale0) = pre @ [a, ProcessExit 1]
                \<and> isCall a \<and> bale_unrecorded a (bale_start (failAt 1) dir3 bale0))
   \<and> exited (eitaa_start (failAt 1) dir3 eitaa0) = Some 1"
  using C9_fatal_on_send_error[OF refl refl refl refl, of "failAt 1" "baleWatching\<lparr>dir := dir3\<rparr>"
      NoFile NoFile "[]" "eitaaWatching\<lparr>dir := dir3\<rparr>" bale0 dir3 eitaa0] failAt_raises
  by blast

text \<open>
  The claim as stated fails for the catch-up pass: the first send of the pass raises, and
  the process exits with code 1 without writing the ledger, whose file does not exist,
  and without a timer to clear.
\<close>

theorem C9_counterexample:
  "since bale0 (bale_step (failAt 0) bale0 (Start dir3))
     = [ReadDir, ReadPost (MsgId 1), ReadPost (MsgId 2), ReadPost (MsgId 3),
        Syncing (textPost 1 100 ''a''), SendMessage (textPost 1 100 ''a''), ProcessExit 1]
   \<and> exited (bale_step (failAt 0) bale0 (Start dir3)) = Some 1
   \<and> (case processedFile (bale_step (failAt 0) bale0 (Start dir3)) of
         None \<Rightarrow> True | Some m \<Rightarrow> False)
   \<and> since eitaa0 (eitaa_step (failAt 0) eitaa0 (Start dir3))
     = [ReadDir, ReadPost (MsgId 1), ReadPost (MsgId 2), ReadPost (MsgId 3),
        Syncing (textPost 1 100 ''a''), SendMessage (textPost 1 100 ''a''), ProcessExit 1]
   \<and> exited (eitaa_step (failAt 0) eitaa0 (Start dir3)) = Some 1
   \<and> (case eitaaFile (eitaa_step (failAt 0) eitaa0 (Start dir3)) of
         None \<Rightarrow> True | Some m \<Rightarrow> False)"
  by code_simp

section \<open>Soft delete\<close>

lemma quiet_refl: "quiet k s s"
  by (simp add: quiet_def)

lemma quiet_trans: "quiet k s s1 \<Longrightarrow> quiet k s1 s2 \<Longrightarrow> quiet k s s2"
  by (auto simp: quiet_def)

lemma quietI:
  "trace s' = trace s @ out \<Longrightarrow> filter (isDeleteOf k) out = [] \<Longrightarrow> set (dir s') \<subseteq> set (dir s)
     \<Longrightarrow> quiet k s s'"
  by (auto simp: quiet_def)

lemma isDeleteOf_sends: "list_all (isSendOf p) sends \<Longrightarrow> filter (isDeleteOf k) sends = []"
proof (induction sends)
  case Nil
  then show ?case by simp
next
  case (Cons a sends)
  then show ?case by (cases a) auto
qed

lemma isDeleteOf_unlinks: "filter (isDeleteOf k) (map UnlinkMedia ms) = []"
  by (induction ms) simp_all

lemma isDeleteOf_reads: "filter (isDeleteOf k) (map (\<lambda>e. ReadPost (fst e)) d) = []"
  by (induction d) simp_all

lemma unlinkPost_subset: "set (unlinkPost j d) \<subseteq> set d"
  by (auto simp: unlinkPost_def)

lemma bale_syncPost_quiet:
  assumes "bale_syncPost nw p s = (b, s')"
  shows "quiet k s s'"
proof -
  from bale_syncPost_out[OF assms] obtain sends where
    sh: "list_all (isSendOf p) sends"
    "trace s' = trace s @ Syncing p # sends @ (if b then syncTail p else [])" by blast
  from sh(1) have "filter (isDeleteOf k) (Syncing p # sends @ (if b then syncTail p else [])) = []"
    by (simp add: isDeleteOf_sends syncTail_def isDeleteOf_unlinks)
  moreover from bale_syncPost_state(3,4)[OF assms] have "set (dir s') \<subseteq> set (dir s)"
    by (cases b) (auto simp: unlinkPost_def)
  ultimately show ?thesis using sh(2) by (intro quietI)
qed

lemma bale_syncPost_entry:
  assumes "bale_syncPost nw p s = (b, s')" "id_p p \<noteq> k"
  shows "processedPosts s' k = processedPosts s k"
  using bale_syncPost_state(1,4)[OF assms(1)] assms(2) by (cases b) auto

lemma bale_update_quiet:
  "quiet k s (bale_deletePostData p (bale_saveProcessedPosts (bale_setProcessed p m s)))"
  by (rule quietI[OF bale_update_trace])
     (auto simp: bale_deletePostData_def bale_saveProcessedPosts_def bale_setProcessed_def
        emit_def unlinkPost_def)

lemma bale_update_entry:
  "id_p p \<noteq> k \<Longrightarrow>
   processedPosts (bale_deletePostData p (bale_saveProcessedPosts (bale_setProcessed p m s))) k
     = processedPosts s k"
  by (simp add: bale_deletePostData_def bale_saveProcessedPosts_def bale_setProcessed_def emit_def)

lemma bale_deletePostData_quiet: "quiet k s (bale_deletePostData p s)"
  by (rule quietI[where out = "[UnlinkPost (id_p p)]"])
     (auto simp: bale_deletePostData_def emit_def unlinkPost_def)

text \<open>A record of another id.\<close>

lemma bale_watchPost_other:
  assumes "bale_watchPost nw p s = (b, s')" "id_p p \<noteq> k"
  shows "quiet k s s'" and "processedPosts s' k = processedPosts s k"
proof -
  have "quiet k s s' \<and> processedPosts s' k = processedPosts s k"
  proof (cases "processedPosts s (id_p p)")
    case None
    show ?thesis
    proof (cases "truthy_bool (deleted p)")
      case False
      show ?thesis
      proof (cases "toISOString_throws (date p)")
        case True
        with None False assms have "s' = s" by (auto simp: bale_watchPost_def)
        then show ?thesis by (simp add: quiet_refl)
      next
        case ok: False
        with None False assms have sp: "bale_syncPost nw p s = (b, s')"
          by (simp add: bale_watchPost_def)
        from bale_syncPost_quiet[OF sp] bale_syncPost_entry[OF sp assms(2)] show ?thesis by simp
      qed
    next
      case True
      with None assms have
        "s' = bale_deletePostData p (bale_saveProcessedPosts (bale_setProcessed p None s))"
        by (auto simp: bale_watchPost_def)
      with assms(2) show ?thesis by (simp add: bale_update_quiet bale_update_entry)
    qed
  next
    case (Some c)
    obtain b1 s1 where d: "bale_deleteMessage nw p (baleMessageId c) s = (b1, s1)" by fastforce
    have q1: "quiet k s s1"
    proof (rule quietI)
      from d show "trace s1 = trace s @ (case baleMessageId c of None \<Rightarrow> []
                      | Some x \<Rightarrow> if x = 0 then [] else [DeleteMessage (id_p p) x])"
        by (auto simp: bale_deleteMessage_def emit_def Let_def
            split: option.splits if_splits response.splits)
      from assms(2) show "filter (isDeleteOf k) (case baleMessageId c of None \<Rightarrow> []
                      | Some x \<Rightarrow> if x = 0 then [] else [DeleteMessage (id_p p) x]) = []"
        by (simp split: option.splits)
      from d show "set (dir s1) \<subseteq> set (dir s)"
        by (auto simp: bale_deleteMessage_def emit_def Let_def
            split: option.splits if_splits response.splits)
    qed
    from d have e1: "processedPosts s1 = processedPosts s"
      by (auto simp: bale_deleteMessage_def emit_def Let_def
          split: option.splits if_splits response.splits)
    from Some assms(1) d have
      "s' = s \<or> s' = s1 \<or> s' = bale_deletePostData p s
       \<or> s' = bale_deletePostData p (bale_saveProcessedPosts (bale_setProcessed p (baleMessageId c) s))
       \<or> s' = bale_deletePostData p (bale_saveProcessedPosts (bale_setProcessed p (baleMessageId c) s1))"
      by (auto simp: bale_watchPost_def split: if_splits bool.splits)
    moreover have "processedPosts (bale_deletePostData p s) k = processedPosts s k"
      by (simp add: bale_deletePostData_def emit_def)
    ultimately show ?thesis
      using q1 e1 assms(2) bale_update_quiet[of k s p "baleMessageId c"]
        bale_update_quiet[of k s1 p "baleMessageId c"] bale_deletePostData_quiet[of k s p]
        bale_update_entry[of p k "baleMessageId c" s] bale_update_entry[of p k "baleMessageId c" s1]
      by (auto intro: quiet_refl quiet_trans)
  qed
  then show "quiet k s s'" and "processedPosts s' k = processedPosts s k" by simp_all
qed

text \<open>A deleted record of \<open>k\<close> while the ledger holds \<open>k\<close> as deleted.\<close>

lemma bale_watchPost_tomb:
  assumes "bale_watchPost nw p s = (b, s')" "id_p p = k" "truthy_bool (deleted p)" "tombMem k s"
  shows "quiet k s s'" and "processedPosts s' k = processedPosts s k"
proof -
  from assms(4) obtain c where c: "processedPosts s k = Some c" "truthy_bool (c_deleted c)"
    by (auto simp: tombMem_def split: option.splits)
  with assms(1,2,3) have "s' = s \<or> s' = bale_deletePostData p s"
    by (auto simp: bale_watchPost_def split: if_splits)
  moreover have "processedPosts (bale_deletePostData p s) k = processedPosts s k"
    by (simp add: bale_deletePostData_def emit_def)
  ultimately show "quiet k s s'" and "processedPosts s' k = processedPosts s k"
    using bale_deletePostData_quiet[of k s p] by (auto intro: quiet_refl)
qed

lemma tombFile_keeps:
  "tombFile k s \<Longrightarrow> bale_keeps s s' \<Longrightarrow> tombMem k s' \<Longrightarrow> tombFile k s'"
  by (auto simp: tombFile_def tombMem_def bale_keeps_def split: option.splits)

lemma bale_watchLoop_tomb:
  "bale_watchLoop nw ps s = (b, s') \<Longrightarrow> tombMem k s \<Longrightarrow>
   \<forall>p\<in>set ps. id_p p = k \<longrightarrow> truthy_bool (deleted p) \<Longrightarrow>
   quiet k s s' \<and> processedPosts s' k = processedPosts s k"
proof (induction ps arbitrary: s)
  case Nil
  then show ?case by (simp add: quiet_refl)
next
  case (Cons p ps)
  obtain b1 s1 where st: "bale_watchPost nw p s = (b1, s1)" by fastforce
  have o1: "quiet k s s1 \<and> processedPosts s1 k = processedPosts s k"
  proof (cases "id_p p = k")
    case True
    with Cons.prems have "truthy_bool (deleted p)" by simp
    from bale_watchPost_tomb[OF st True this Cons.prems(2)] show ?thesis by simp
  next
    case False
    from bale_watchPost_other[OF st False] show ?thesis by simp
  qed
  show ?case
  proof (cases b1)
    case False
    with Cons.prems st have "s' = s1" by simp
    with o1 show ?thesis by simp
  next
    case True
    with Cons.prems st have l: "bale_watchLoop nw ps s1 = (b, s')" by simp
    from o1 Cons.prems(2) have t1: "tombMem k s1" by (simp add: tombMem_def)
    from Cons.prems(3) have "\<forall>p\<in>set ps. id_p p = k \<longrightarrow> truthy_bool (deleted p)" by simp
    from Cons.IH[OF l t1 this] o1 show ?thesis by (auto intro: quiet_trans)
  qed
qed

lemma bale_syncExistingLoop_tomb:
  "bale_syncExistingLoop nw ps s = (b, s') \<Longrightarrow> processedPosts s k \<noteq> None \<Longrightarrow>
   quiet k s s' \<and> processedPosts s' k = processedPosts s k"
proof (induction ps arbitrary: s)
  case Nil
  then show ?case by (simp add: quiet_refl)
next
  case (Cons p ps)
  show ?case
  proof (cases "\<not> truthy_bool (deleted p) \<and> processedPosts s (id_p p) = None")
    case False
    with Cons.prems have "bale_syncExistingLoop nw ps s = (b, s')" by auto
    from Cons.IH[OF this Cons.prems(2)] show ?thesis .
  next
    case True
    with Cons.prems(2) have ne: "id_p p \<noteq> k" by auto
    obtain b1 s1 where st: "bale_syncPost nw p s = (b1, s1)" by fastforce
    note o1 = bale_syncPost_quiet[OF st, of k] bale_syncPost_entry[OF st ne]
    show ?thesis
    proof (cases b1)
      case False
      with Cons.prems st True have "s' = s1" by simp
      with o1 show ?thesis by simp
    next
      case b1: True
      with Cons.prems st True have l: "bale_syncExistingLoop nw ps s1 = (b, s')" by simp
      from o1(2) Cons.prems(2) have "processedPosts s1 k \<noteq> None" by simp
      from Cons.IH[OF l this] o1 show ?thesis by (auto intro: quiet_trans)
    qed
  qed
qed

lemma noDelete_refl: "noDelete k s s"
  by (simp add: noDelete_def)

lemma noDelete_trans: "noDelete k s s1 \<Longrightarrow> noDelete k s1 s2 \<Longrightarrow> noDelete k s s2"
  by (auto simp: noDelete_def)

lemma noDeleteI:
  "trace s' = trace s @ out \<Longrightarrow> filter (isDeleteOf k) out = [] \<Longrightarrow> noDelete k s s'"
  by (auto simp: noDelete_def)

lemma quiet_noDelete: "quiet k s s' \<Longrightarrow> noDelete k s s'"
  by (auto simp: quiet_def noDelete_def)

lemma set_loadAndSortPosts: "set (loadAndSortPosts d) = set (loadPosts d)"
  by (simp add: loadAndSortPosts_def)

lemma tombMem_entry: "processedPosts s' k = processedPosts s k \<Longrightarrow> tombMem k s \<Longrightarrow> tombMem k s'"
  by (simp add: tombMem_def)

lemma liveEntry_entry:
  "processedPosts s' k = processedPosts s k \<Longrightarrow> liveEntry k m s \<Longrightarrow> liveEntry k m s'"
  by (simp add: liveEntry_def)

lemma bale_watchLoop_others:
  "bale_watchLoop nw ps s = (b, s') \<Longrightarrow> \<forall>p\<in>set ps. id_p p \<noteq> k \<Longrightarrow>
   quiet k s s' \<and> processedPosts s' k = processedPosts s k"
proof (induction ps arbitrary: s)
  case Nil
  then show ?case by (simp add: quiet_refl)
next
  case (Cons p ps)
  obtain b1 s1 where st: "bale_watchPost nw p s = (b1, s1)" by fastforce
  from Cons.prems(2) have ne: "id_p p \<noteq> k" by simp
  note o1 = bale_watchPost_other[OF st ne]
  show ?case
  proof (cases b1)
    case False
    with Cons.prems st have "s' = s1" by simp
    with o1 show ?thesis by simp
  next
    case True
    with Cons.prems st have l: "bale_watchLoop nw ps s1 = (b, s')" by simp
    from Cons.prems(2) have "\<forall>p\<in>set ps. id_p p \<noteq> k" by simp
    from Cons.IH[OF l this] have "quiet k s1 s'" "processedPosts s' k = processedPosts s1 k"
      by simp_all
    with o1 show ?thesis using quiet_trans[of k s s1 s'] by simp
  qed
qed

text \<open>The delete branch, when the platform accepts the call.\<close>

lemma bale_watchPost_deleted:
  assumes "liveEntry k m s" "m \<noteq> 0" "id_p p = k" "truthy_bool (deleted p)"
    "nw (calls s) \<noteq> Raises" "bale_watchPost nw p s = (b, s1)"
  shows "trace s1 = trace s @ [DeleteMessage k m, SaveProcessed, UnlinkPost k]"
    and "dir s1 = unlinkPost k (dir s)" and "tombMem k s1" and "tombFile k s1" and "b"
proof -
  from assms(1,3) obtain c where c: "processedPosts s (id_p p) = Some c"
    "\<not> truthy_bool (c_deleted c)" "baleMessageId c = Some m"
    by (auto simp: liveEntry_def split: option.splits)
  let ?s1 = "bale_deletePostData p (bale_saveProcessedPosts (bale_setProcessed p (Some m)
                ((emit (DeleteMessage (id_p p) m) s)\<lparr>calls := calls s + 1\<rparr>)))"
  from bale_watchPost_delete(2)[where nw = nw and s = s and q = p and c = c and m = m,
      OF c(1) assms(4) c(2,3) assms(2,5)] assms(6)
  have "(b, s1) = (True, ?s1)" by (simp only:)
  then have b: "b" and s1: "s1 = ?s1" by (simp_all only: prod.inject simp_thms)
  show "b" by (rule b)
  show "trace s1 = trace s @ [DeleteMessage k m, SaveProcessed, UnlinkPost k]"
    unfolding s1 using assms(3)
    by (simp add: bale_deletePostData_def bale_saveProcessedPosts_def bale_setProcessed_def
        emit_def)
  show "dir s1 = unlinkPost k (dir s)"
    unfolding s1 using assms(3)
    by (simp add: bale_deletePostData_def bale_saveProcessedPosts_def bale_setProcessed_def
        emit_def)
  show "tombMem k s1"
    unfolding s1 using assms(3,4)
    by (simp add: tombMem_def bale_deletePostData_def bale_saveProcessedPosts_def
        bale_setProcessed_def emit_def)
  show "tombFile k s1"
    unfolding s1 using assms(3,4)
    by (simp add: tombFile_def bale_deletePostData_def bale_saveProcessedPosts_def
        bale_setProcessed_def emit_def)
qed

text \<open>Once the ledger holds \<open>k\<close> as deleted: a watch cycle and a process start.\<close>

lemma bale_watchCycle_tomb:
  assumes "tombMem k s" "tombFile k s"
    and "\<forall>p\<in>set (loadPosts (dir s)). id_p p = k \<longrightarrow> truthy_bool (deleted p)"
  shows "noDelete k s (bale_watchCycle nw st s)" and "tombFile k (bale_watchCycle nw st s)"
    and "running (bale_watchCycle nw st s) \<longrightarrow> tombMem k (bale_watchCycle nw st s)"
proof -
  let ?sA = "readAll (emit ReadStatus s)"
  let ?ps = "loadAndSortPosts (dir s)"
  have "noDelete k s (bale_watchCycle nw st s) \<and> tombFile k (bale_watchCycle nw st s)
        \<and> (running (bale_watchCycle nw st s) \<longrightarrow> tombMem k (bale_watchCycle nw st s))"
  proof (cases "isTelegramSyncInProgress st")
    case True
    then have "bale_watchCycle nw st s = emit ReadStatus s" by (simp add: bale_watchCycle_def)
    moreover have "noDelete k s (emit ReadStatus s)"
      by (rule noDeleteI[where out = "[ReadStatus]"]) (simp_all add: emit_def)
    ultimately show ?thesis using assms(1,2) by (simp add: tombMem_def tombFile_def emit_def)
  next
    case False
    obtain b s1 where r: "bale_watchLoop nw ?ps ?sA = (b, s1)" by fastforce
    have mA: "tombMem k ?sA" using assms(1) by (simp add: tombMem_def readAll_def emit_def)
    have fA: "tombFile k ?sA" using assms(2) by (simp add: tombFile_def readAll_def emit_def)
    have del: "\<forall>p\<in>set ?ps. id_p p = k \<longrightarrow> truthy_bool (deleted p)"
      using assms(3) by (simp add: set_loadAndSortPosts readAll_def emit_def)
    have r': "bale_watchLoop nw ?ps ?sA = (b, s1)" using r .
    from bale_watchLoop_tomb[OF r' mA del] have q: "quiet k ?sA s1"
      and e: "processedPosts s1 k = processedPosts ?sA k" by simp_all
    from e mA have m1: "tombMem k s1" by (rule tombMem_entry)
    from bale_watchLoop_keeps[OF r] have "bale_keeps ?sA s1" .
    from tombFile_keeps[OF fA this m1] have f1: "tombFile k s1" .
    have "noDelete k s ?sA"
      by (rule noDeleteI[where out = "ReadStatus # ReadDir # map (\<lambda>e. ReadPost (fst e)) (dir s)"])
         (simp_all add: readAll_def emit_def isDeleteOf_reads)
    with quiet_noDelete[OF q] have n1: "noDelete k s s1" by (auto intro: noDelete_trans)
    have "noDelete k s1 (bale_fatal s1)"
      by (rule noDeleteI[where out = fatalTail]) (simp_all add: bale_fatal_facts fatalTail_def)
    with n1 have n2: "noDelete k s (bale_fatal s1)" by (auto intro: noDelete_trans)
    have f2: "tombFile k (bale_fatal s1)" using m1
      by (simp add: tombFile_def tombMem_def bale_fatal_def bale_saveProcessedPosts_def emit_def)
    have nr: "\<not> running (bale_fatal s1)" by (simp add: running_def bale_fatal_facts)
    from False r have "bale_watchCycle nw st s = (if b then s1 else bale_fatal s1)"
      by (simp add: bale_watchCycle_def emit_def)
    with n1 n2 m1 f1 f2 nr show ?thesis by simp
  qed
  then show "noDelete k s (bale_watchCycle nw st s)" and "tombFile k (bale_watchCycle nw st s)"
    and "running (bale_watchCycle nw st s) \<longrightarrow> tombMem k (bale_watchCycle nw st s)" by simp_all
qed

lemma bale_start_tomb:
  assumes "tombFile k s"
  shows "noDelete k s (bale_start nw d s)" and "tombFile k (bale_start nw d s)"
    and "tombMem k (bale_start nw d s)"
proof -
  let ?s0 = "bale_loadProcessedPosts
                 (s\<lparr>dir := d, watching := False, exited := None, processedPosts := Map.empty\<rparr>)"
  have d0: "dir ?s0 = d" by (simp add: bale_loadProcessedPosts_def split: option.splits)
  obtain b s1 where r: "bale_syncExistingLoop nw (loadAndSortPosts d) (readAll ?s0) = (b, s1)"
    by fastforce
  from assms have mA: "tombMem k (readAll ?s0)" and fA: "tombFile k (readAll ?s0)"
    by (auto simp: tombMem_def tombFile_def readAll_def bale_loadProcessedPosts_def
        split: option.splits)
  then have "processedPosts (readAll ?s0) k \<noteq> None" by (auto simp: tombMem_def split: option.splits)
  from bale_syncExistingLoop_tomb[OF r this] have q: "quiet k (readAll ?s0) s1"
    and e: "processedPosts s1 k = processedPosts (readAll ?s0) k" by simp_all
  from e mA have m1: "tombMem k s1" by (rule tombMem_entry)
  from bale_syncExistingLoop_keeps[OF r] have "bale_keeps (readAll ?s0) s1" .
  from tombFile_keeps[OF fA this m1] have f1: "tombFile k s1" .
  have "noDelete k s (readAll ?s0)"
    by (rule noDeleteI[where out = "ReadDir # map (\<lambda>e. ReadPost (fst e)) d"])
       (simp_all add: readAll_def bale_loadProcessedPosts_def isDeleteOf_reads split: option.splits)
  with quiet_noDelete[OF q] have n1: "noDelete k s s1" by (auto intro: noDelete_trans)
  have "noDelete k s1 (s1\<lparr>watching := True\<rparr>)"
    by (rule noDeleteI[where out = "[]"]) simp_all
  moreover have "noDelete k s1 ((emit (ProcessExit 1) s1)\<lparr>exited := Some 1\<rparr>)"
    by (rule noDeleteI[where out = "[ProcessExit 1]"]) (simp_all add: emit_def)
  ultimately have n2: "noDelete k s (s1\<lparr>watching := True\<rparr>)"
    "noDelete k s ((emit (ProcessExit 1) s1)\<lparr>exited := Some 1\<rparr>)"
    using n1 by (auto intro: noDelete_trans)
  from r d0 have st: "bale_start nw d s = (if b then s1\<lparr>watching := True\<rparr>
                   else (emit (ProcessExit 1) s1)\<lparr>exited := Some 1\<rparr>)"
    by (simp add: bale_start_def bale_syncExistingPosts_def)
  from st n2 show "noDelete k s (bale_start nw d s)" by simp
  from st f1 show "tombFile k (bale_start nw d s)" by (simp add: tombFile_def emit_def)
  from st m1 show "tombMem k (bale_start nw d s)" by (simp add: tombMem_def emit_def)
qed

lemma bale_step_tomb:
  assumes "bale_tomb k s" "seesDeleted k ev"
  shows "noDelete k s (bale_step nw s ev)" and "bale_tomb k (bale_step nw s ev)"
proof -
  have "noDelete k s (bale_step nw s ev) \<and> bale_tomb k (bale_step nw s ev)"
  proof (cases ev)
    case (Start d)
    from assms(1) have "tombFile k s" by (simp add: bale_tomb_def)
    from bale_start_tomb[OF this, of nw d] Start show ?thesis by (simp add: bale_tomb_def)
  next
    case (Tick st d)
    show ?thesis
    proof (cases "running s")
      case False
      with Tick have "bale_step nw s ev = s" by (auto simp: running_def)
      with assms(1) show ?thesis by (simp add: noDelete_refl)
    next
      case True
      let ?s = "s\<lparr>dir := d\<rparr>"
      from True assms(1) have "tombMem k ?s" "tombFile k ?s"
        by (simp_all add: bale_tomb_def tombMem_def tombFile_def)
      moreover from assms(2) Tick
      have "\<forall>p\<in>set (loadPosts (dir ?s)). id_p p = k \<longrightarrow> truthy_bool (deleted p)"
        by (simp add: list_all_iff)
      ultimately have c: "noDelete k ?s (bale_watchCycle nw st ?s)"
        "tombFile k (bale_watchCycle nw st ?s)"
        "running (bale_watchCycle nw st ?s) \<longrightarrow> tombMem k (bale_watchCycle nw st ?s)"
        by (rule bale_watchCycle_tomb)+
      have "noDelete k s ?s" by (rule noDeleteI[where out = "[]"]) simp_all
      with c(1) have "noDelete k s (bale_watchCycle nw st ?s)" by (auto intro: noDelete_trans)
      with c(2,3) True Tick show ?thesis by (simp add: running_def bale_tomb_def)
    qed
  qed
  then show "noDelete k s (bale_step nw s ev)" and "bale_tomb k (bale_step nw s ev)" by simp_all
qed

lemma handleDeletedMessage_marks:
  assumes "posts e (MsgId i) = Some r" "id_p r = MsgId i"
  shows "posts (handleDeletedMessage i e) = (posts e)(MsgId i \<mapsto> r\<lparr>deleted := Some True\<rparr>)"
  using assms
  by (simp add: handleDeletedMessage_def getExistingPostData_def savePostData_def Let_def)

lemma handleDeletedMessage_media:
  "mediaDirs (handleDeletedMessage i e) = mediaDirs e - {i}"
  "mediaFiles (handleDeletedMessage i e) (MediaPath i n) = None"
  by (simp_all add: handleDeletedMessage_def savePostData_def Let_def split: option.splits)

text \<open>
  The loop of a watch callback when the ledger holds \<open>k\<close> as delivered and not deleted and
  the records of \<open>k\<close> are marked deleted. Either no delete call is issued for \<open>k\<close> and its
  entry is as before (the loop has thrown before a record of \<open>k\<close>, or there is none); or
  one is issued and has returned, the entry is marked deleted in the memory and in the
  file and the file \<open>post_k.json\<close> is gone; or one is issued and has raised, which ends
  the loop with the entry as before.
\<close>

lemma bale_watchLoop_delete:
  "bale_watchLoop nw ps s = (b, s') \<Longrightarrow> liveEntry k m s \<Longrightarrow> m \<noteq> 0 \<Longrightarrow>
   \<forall>p\<in>set ps. id_p p = k \<longrightarrow> truthy_bool (deleted p) \<Longrightarrow>
   \<exists>out. trace s' = trace s @ out \<and>
     (filter (isDeleteOf k) out = [] \<and> processedPosts s' k = processedPosts s k
        \<and> (b \<longrightarrow> (\<forall>p\<in>set ps. id_p p \<noteq> k))
      \<or> filter (isDeleteOf k) out = [DeleteMessage k m] \<and> tombMem k s' \<and> tombFile k s'
        \<and> k \<notin> fst ` set (dir s')
      \<or> filter (isDeleteOf k) out = [DeleteMessage k m] \<and> \<not> b
        \<and> processedPosts s' k = processedPosts s k \<and> nw (calls s' - 1) = Raises
        \<and> (\<exists>pre. out = pre @ [DeleteMessage k m]))"
proof (induction ps arbitrary: s)
  case Nil
  then show ?case by simp
next
  case (Cons p ps)
  obtain b1 s1 where st: "bale_watchPost nw p s = (b1, s1)" by fastforce
  from Cons.prems(4) have rest: "\<forall>p\<in>set ps. id_p p = k \<longrightarrow> truthy_bool (deleted p)" by simp
  show ?case
  proof (cases "id_p p = k")
    case False
    from bale_watchPost_other[OF st False] have q1: "quiet k s s1"
      and e1: "processedPosts s1 k = processedPosts s k" by simp_all
    from q1 obtain o1 where o1: "trace s1 = trace s @ o1" "filter (isDeleteOf k) o1 = []"
      "set (dir s1) \<subseteq> set (dir s)" by (auto simp: quiet_def)
    show ?thesis
    proof (cases b1)
      case b1: False
      with Cons.prems(1) st have "b = False" "s' = s1" by simp_all
      with o1 e1 show ?thesis by auto
    next
      case True
      with Cons.prems(1) st have l: "bale_watchLoop nw ps s1 = (b, s')" by simp
      from e1 Cons.prems(2) have live: "liveEntry k m s1" by (rule liveEntry_entry)
      from Cons.IH[OF l live Cons.prems(3) rest] obtain out where
        t: "trace s' = trace s1 @ out" and
        c: "filter (isDeleteOf k) out = [] \<and> processedPosts s' k = processedPosts s1 k
              \<and> (b \<longrightarrow> (\<forall>p\<in>set ps. id_p p \<noteq> k))
            \<or> filter (isDeleteOf k) out = [DeleteMessage k m] \<and> tombMem k s' \<and> tombFile k s'
              \<and> k \<notin> fst ` set (dir s')
            \<or> filter (isDeleteOf k) out = [DeleteMessage k m] \<and> \<not> b
              \<and> processedPosts s' k = processedPosts s1 k \<and> nw (calls s' - 1) = Raises
              \<and> (\<exists>pre. out = pre @ [DeleteMessage k m])" by blast
      have tr: "trace s' = trace s @ (o1 @ out)" using t o1(1) by simp
      have f: "filter (isDeleteOf k) (o1 @ out) = filter (isDeleteOf k) out" using o1(2) by simp
      from c consider
        (none) "filter (isDeleteOf k) out = []" "processedPosts s' k = processedPosts s1 k"
          "b \<longrightarrow> (\<forall>p\<in>set ps. id_p p \<noteq> k)"
        | (once) "filter (isDeleteOf k) out = [DeleteMessage k m]" "tombMem k s'" "tombFile k s'"
          "k \<notin> fst ` set (dir s')"
        | (fail) "filter (isDeleteOf k) out = [DeleteMessage k m]" "\<not> b"
          "processedPosts s' k = processedPosts s1 k" "nw (calls s' - 1) = Raises"
          "\<exists>pre. out = pre @ [DeleteMessage k m]" by blast
      then show ?thesis
      proof cases
        case none
        with False e1 have "filter (isDeleteOf k) (o1 @ out) = []
            \<and> processedPosts s' k = processedPosts s k
            \<and> (b \<longrightarrow> (\<forall>q\<in>set (p # ps). id_p q \<noteq> k))" using f by simp
        with tr show ?thesis by blast
      next
        case once
        with f have "filter (isDeleteOf k) (o1 @ out) = [DeleteMessage k m] \<and> tombMem k s'
            \<and> tombFile k s' \<and> k \<notin> fst ` set (dir s')" by simp
        with tr show ?thesis by blast
      next
        case fail
        from fail(5) obtain pre where "out = pre @ [DeleteMessage k m]" by blast
        then have "o1 @ out = (o1 @ pre) @ [DeleteMessage k m]" by simp
        then have "\<exists>pre. o1 @ out = pre @ [DeleteMessage k m]" by blast
        with fail f e1 have "filter (isDeleteOf k) (o1 @ out) = [DeleteMessage k m] \<and> \<not> b
            \<and> processedPosts s' k = processedPosts s k \<and> nw (calls s' - 1) = Raises
            \<and> (\<exists>pre. o1 @ out = pre @ [DeleteMessage k m])" by simp
        with tr show ?thesis by blast
      qed
    qed
  next
    case True
    with Cons.prems(4) have del: "truthy_bool (deleted p)" by simp
    show ?thesis
    proof (cases "nw (calls s)")
      case Raises
      from Cons.prems(2) True obtain c where c: "processedPosts s (id_p p) = Some c"
        "\<not> truthy_bool (c_deleted c)" "baleMessageId c = Some m"
        by (auto simp: liveEntry_def split: option.splits)
      from c(2) del have ch: "c_deleted c \<noteq> deleted p" by (auto simp: truthy_bool_def)
      let ?s1 = "(emit (DeleteMessage (id_p p) m) s)\<lparr>calls := calls s + 1\<rparr>"
      from c ch del Raises Cons.prems(3) have "bale_watchPost nw p s = (False, ?s1)"
        by (simp add: bale_watchPost_def bale_deleteMessage_def Let_def)
      with st Cons.prems(1) have "b = False" "s' = ?s1" by simp_all
      with True Raises have "trace s' = trace s @ [DeleteMessage k m]"
        "filter (isDeleteOf k) [DeleteMessage k m] = [DeleteMessage k m] \<and> \<not> b
            \<and> processedPosts s' k = processedPosts s k \<and> nw (calls s' - 1) = Raises
            \<and> (\<exists>pre. [DeleteMessage k m] = pre @ [DeleteMessage k m])"
        by (simp_all add: emit_def)
      then show ?thesis by blast
    next
      case (Returns x)
      then have acc: "nw (calls s) \<noteq> Raises" by simp
      note s1 = bale_watchPost_deleted[OF Cons.prems(2,3) True del acc st]
      from s1(5) Cons.prems(1) st have l: "bale_watchLoop nw ps s1 = (b, s')" by simp
      from bale_watchLoop_tomb[OF l s1(3) rest] have q2: "quiet k s1 s'"
        and e2: "processedPosts s' k = processedPosts s1 k" by simp_all
      from e2 s1(3) have m2: "tombMem k s'" by (rule tombMem_entry)
      from bale_watchLoop_keeps[OF l] have "bale_keeps s1 s'" .
      from tombFile_keeps[OF s1(4) this m2] have f2: "tombFile k s'" .
      from q2 obtain o2 where o2: "trace s' = trace s1 @ o2" "filter (isDeleteOf k) o2 = []"
        "set (dir s') \<subseteq> set (dir s1)" by (auto simp: quiet_def)
      have "trace s' = trace s @ ([DeleteMessage k m, SaveProcessed, UnlinkPost k] @ o2)"
        using s1(1) o2(1) by simp
      moreover have "filter (isDeleteOf k) ([DeleteMessage k m, SaveProcessed, UnlinkPost k] @ o2)
                       = [DeleteMessage k m]" using o2(2) by simp
      moreover have "k \<notin> fst ` set (dir s')" using o2(3) s1(2) by (auto simp: unlinkPost_def)
      ultimately show ?thesis using m2 f2 by blast
    qed
  qed
qed

lemma bale_watchCycle_delete:
  assumes "liveEntry k m s" "m \<noteq> 0" "\<not> isTelegramSyncInProgress st"
    and "\<forall>p\<in>set (loadPosts (dir s)). id_p p = k \<longrightarrow> truthy_bool (deleted p)"
    and "\<exists>p\<in>set (loadPosts (dir s)). id_p p = k"
    and "exited s = None"
  shows "exited (bale_watchCycle nw st s) = None \<Longrightarrow>
           filter (isDeleteOf k) (since s (bale_watchCycle nw st s)) = [DeleteMessage k m]
           \<and> tombMem k (bale_watchCycle nw st s) \<and> tombFile k (bale_watchCycle nw st s)
           \<and> k \<notin> fst ` set (dir (bale_watchCycle nw st s))
           \<and> watching (bale_watchCycle nw st s) = watching s"
    and "exited (bale_watchCycle nw st s) \<noteq> None \<Longrightarrow>
           exited (bale_watchCycle nw st s) = Some 1 \<and>
           (filter (isDeleteOf k) (since s (bale_watchCycle nw st s)) = []
              \<and> liveFile k m (bale_watchCycle nw st s)
            \<or> filter (isDeleteOf k) (since s (bale_watchCycle nw st s)) = [DeleteMessage k m]
              \<and> tombFile k (bale_watchCycle nw st s)
            \<or> filter (isDeleteOf k) (since s (bale_watchCycle nw st s)) = [DeleteMessage k m]
              \<and> (\<exists>pre. since s (bale_watchCycle nw st s) = pre @ DeleteMessage k m # fatalTail)
              \<and> nw (calls (bale_watchCycle nw st s) - 1) = Raises
              \<and> liveFile k m (bale_watchCycle nw st s))"
proof -
  let ?sA = "readAll (emit ReadStatus s)"
  let ?ps = "loadAndSortPosts (dir s)"
  let ?pre = "ReadStatus # ReadDir # map (\<lambda>e. ReadPost (fst e)) (dir s)"
  obtain b s1 where r: "bale_watchLoop nw ?ps ?sA = (b, s1)" by fastforce
  from r assms(3) have cyc: "bale_watchCycle nw st s = (if b then s1 else bale_fatal s1)"
    by (simp add: bale_watchCycle_def emit_def)
  have live: "liveEntry k m ?sA" using assms(1) by (simp add: liveEntry_def readAll_def emit_def)
  have del: "\<forall>p\<in>set ?ps. id_p p = k \<longrightarrow> truthy_bool (deleted p)"
    using assms(4) by (simp add: set_loadAndSortPosts)
  have ex: "\<exists>p\<in>set ?ps. id_p p = k" using assms(5) by (simp add: set_loadAndSortPosts)
  from bale_watchLoop_keeps[OF r] have kp: "bale_keeps ?sA s1" .
  then have ex1: "exited s1 = None" "watching s1 = watching s"
    using assms(6) by (simp_all add: bale_keeps_def readAll_def emit_def)
  from bale_watchLoop_delete[OF r live assms(2) del] obtain out where
    t: "trace s1 = trace ?sA @ out" and
    c: "filter (isDeleteOf k) out = [] \<and> processedPosts s1 k = processedPosts ?sA k
          \<and> (b \<longrightarrow> (\<forall>p\<in>set ?ps. id_p p \<noteq> k))
        \<or> filter (isDeleteOf k) out = [DeleteMessage k m] \<and> tombMem k s1 \<and> tombFile k s1
          \<and> k \<notin> fst ` set (dir s1)
        \<or> filter (isDeleteOf k) out = [DeleteMessage k m] \<and> \<not> b
          \<and> processedPosts s1 k = processedPosts ?sA k \<and> nw (calls s1 - 1) = Raises
          \<and> (\<exists>pre. out = pre @ [DeleteMessage k m])" by blast
  have tr: "trace s1 = trace s @ (?pre @ out)" using t by (simp add: readAll_def emit_def)
  have fp: "filter (isDeleteOf k) (?pre @ out) = filter (isDeleteOf k) out"
    by (simp add: isDeleteOf_reads)
  have fpf: "filter (isDeleteOf k) (?pre @ out @ fatalTail) = filter (isDeleteOf k) out"
    by (simp add: isDeleteOf_reads fatalTail_def)
  have s1: "since s s1 = ?pre @ out" using tr by (rule since_append)
  have sf: "since s (bale_fatal s1) = ?pre @ out @ fatalTail"
    using tr by (simp add: since_def bale_fatal_facts)
  have fl: "processedFile (bale_fatal s1) = Some (processedPosts s1)"
    by (simp add: bale_fatal_def bale_saveProcessedPosts_def emit_def)
  have lf: "processedPosts s1 k = processedPosts ?sA k \<Longrightarrow> liveFile k m (bale_fatal s1)"
    using assms(1) fl by (simp add: liveFile_def liveEntry_def readAll_def emit_def)
  have tf: "tombMem k s1 \<Longrightarrow> tombFile k (bale_fatal s1)"
    using fl by (simp add: tombFile_def tombMem_def)
  {
    assume "exited (bale_watchCycle nw st s) = None"
    with cyc have b: b and eq: "bale_watchCycle nw st s = s1"
      by (auto simp: bale_fatal_facts split: if_splits)
    from b c ex have "filter (isDeleteOf k) out = [DeleteMessage k m] \<and> tombMem k s1
        \<and> tombFile k s1 \<and> k \<notin> fst ` set (dir s1)" by blast
    with eq s1 fp ex1(2)
    show "filter (isDeleteOf k) (since s (bale_watchCycle nw st s)) = [DeleteMessage k m]
           \<and> tombMem k (bale_watchCycle nw st s) \<and> tombFile k (bale_watchCycle nw st s)
           \<and> k \<notin> fst ` set (dir (bale_watchCycle nw st s))
           \<and> watching (bale_watchCycle nw st s) = watching s" by simp
  }
  {
    assume "exited (bale_watchCycle nw st s) \<noteq> None"
    with cyc ex1(1) have nb: "\<not> b" and eq: "bale_watchCycle nw st s = bale_fatal s1"
      by (auto split: if_splits)
    have e1: "exited (bale_fatal s1) = Some 1" by (simp add: bale_fatal_facts)
    from c consider
      (none) "filter (isDeleteOf k) out = []" "processedPosts s1 k = processedPosts ?sA k"
      | (once) "filter (isDeleteOf k) out = [DeleteMessage k m]" "tombMem k s1"
      | (fail) "filter (isDeleteOf k) out = [DeleteMessage k m]"
          "processedPosts s1 k = processedPosts ?sA k" "nw (calls s1 - 1) = Raises"
          "\<exists>pre. out = pre @ [DeleteMessage k m]" by blast
    then have "filter (isDeleteOf k) (since s (bale_fatal s1)) = []
              \<and> liveFile k m (bale_fatal s1)
            \<or> filter (isDeleteOf k) (since s (bale_fatal s1)) = [DeleteMessage k m]
              \<and> tombFile k (bale_fatal s1)
            \<or> filter (isDeleteOf k) (since s (bale_fatal s1)) = [DeleteMessage k m]
              \<and> (\<exists>pre. since s (bale_fatal s1) = pre @ DeleteMessage k m # fatalTail)
              \<and> nw (calls (bale_fatal s1) - 1) = Raises
              \<and> liveFile k m (bale_fatal s1)"
    proof cases
      case none
      with lf sf fpf show ?thesis by simp
    next
      case once
      with tf sf fpf show ?thesis by simp
    next
      case fail
      from fail(4) obtain pre where "out = pre @ [DeleteMessage k m]" by blast
      then have "?pre @ out @ fatalTail = (?pre @ pre) @ DeleteMessage k m # fatalTail" by simp
      with sf have "\<exists>pre. since s (bale_fatal s1) = pre @ DeleteMessage k m # fatalTail"
        by metis
      with fail lf sf fpf show ?thesis by (simp add: bale_fatal_facts)
    qed
    with eq e1
    show "exited (bale_watchCycle nw st s) = Some 1 \<and>
           (filter (isDeleteOf k) (since s (bale_watchCycle nw st s)) = []
              \<and> liveFile k m (bale_watchCycle nw st s)
            \<or> filter (isDeleteOf k) (since s (bale_watchCycle nw st s)) = [DeleteMessage k m]
              \<and> tombFile k (bale_watchCycle nw st s)
            \<or> filter (isDeleteOf k) (since s (bale_watchCycle nw st s)) = [DeleteMessage k m]
              \<and> (\<exists>pre. since s (bale_watchCycle nw st s) = pre @ DeleteMessage k m # fatalTail)
              \<and> nw (calls (bale_watchCycle nw st s) - 1) = Raises
              \<and> liveFile k m (bale_watchCycle nw st s))" by simp
  }
qed

text \<open>
  A process that starts from a ledger file that holds \<open>k\<close> as delivered and not deleted:
  the catch-up pass issues no delete call, and the entry is kept.
\<close>

lemma bale_start_live:
  assumes "liveFile k m s"
  shows "noDelete k s (bale_start nw d s)" and "liveFile k m (bale_start nw d s)"
    and "liveEntry k m (bale_start nw d s)"
proof -
  let ?s0 = "bale_loadProcessedPosts
                 (s\<lparr>dir := d, watching := False, exited := None, processedPosts := Map.empty\<rparr>)"
  have d0: "dir ?s0 = d" by (simp add: bale_loadProcessedPosts_def split: option.splits)
  obtain b s1 where r: "bale_syncExistingLoop nw (loadAndSortPosts d) (readAll ?s0) = (b, s1)"
    by fastforce
  from assms have mA: "liveEntry k m (readAll ?s0)" and fA: "liveFile k m (readAll ?s0)"
    by (auto simp: liveEntry_def liveFile_def readAll_def bale_loadProcessedPosts_def
        split: option.splits)
  then have "processedPosts (readAll ?s0) k \<noteq> None"
    by (auto simp: liveEntry_def split: option.splits)
  from bale_syncExistingLoop_tomb[OF r this] have q: "quiet k (readAll ?s0) s1"
    and e: "processedPosts s1 k = processedPosts (readAll ?s0) k" by simp_all
  from e mA have m1: "liveEntry k m s1" by (rule liveEntry_entry)
  from bale_syncExistingLoop_keeps[OF r] have "bale_keeps (readAll ?s0) s1" .
  with fA m1 have f1: "liveFile k m s1"
    by (auto simp: bale_keeps_def liveFile_def liveEntry_def split: option.splits)
  have "noDelete k s (readAll ?s0)"
    by (rule noDeleteI[where out = "ReadDir # map (\<lambda>e. ReadPost (fst e)) d"])
       (simp_all add: readAll_def bale_loadProcessedPosts_def isDeleteOf_reads split: option.splits)
  with quiet_noDelete[OF q] have n1: "noDelete k s s1" by (auto intro: noDelete_trans)
  have "noDelete k s1 (s1\<lparr>watching := True\<rparr>)"
    by (rule noDeleteI[where out = "[]"]) simp_all
  moreover have "noDelete k s1 ((emit (ProcessExit 1) s1)\<lparr>exited := Some 1\<rparr>)"
    by (rule noDeleteI[where out = "[ProcessExit 1]"]) (simp_all add: emit_def)
  ultimately have n2: "noDelete k s (s1\<lparr>watching := True\<rparr>)"
    "noDelete k s ((emit (ProcessExit 1) s1)\<lparr>exited := Some 1\<rparr>)"
    using n1 by (auto intro: noDelete_trans)
  from r d0 have st: "bale_start nw d s = (if b then s1\<lparr>watching := True\<rparr>
                   else (emit (ProcessExit 1) s1)\<lparr>exited := Some 1\<rparr>)"
    by (simp add: bale_start_def bale_syncExistingPosts_def)
  from st n2 show "noDelete k s (bale_start nw d s)" by simp
  from st f1 show "liveFile k m (bale_start nw d s)" by (simp add: liveFile_def emit_def)
  from st m1 show "liveEntry k m (bale_start nw d s)" by (simp add: liveEntry_def emit_def)
qed

text \<open>
  C8, amended. \<open>handleDeletedMessage\<close> sets \<open>deleted\<close> on the stored record of the message
  and removes the media directory of that id with everything in it. On the Bale side,
  take a running process whose ledger holds \<open>k\<close> as delivered under the outbound id \<open>m\<close>
  (not 0) and not deleted, and a watch callback that runs alone, is not skipped for an
  ingestion in progress, and finds a record of \<open>k\<close>, marked deleted.

  If the callback runs to its end, it has issued exactly one delete call for \<open>k\<close>, with
  the id \<open>m\<close>, the ledger holds \<open>k\<close> as deleted in the memory and in the file, and the
  file \<open>post_k.json\<close> is gone. If it ends in the \<open>catch\<close>, the process has exited with
  code 1 after at most one delete call for \<open>k\<close>: either the call was not reached and the
  ledger file holds the entry as it was; or the call has returned and the ledger file
  holds \<open>k\<close> as deleted; or the call has raised, as the last thing before the \<open>catch\<close>,
  and the ledger file holds the entry as it was.

  Once the ledger holds \<open>k\<close> as deleted, a watch callback that runs alone or a process
  that starts, finding the records of \<open>k\<close> still marked deleted, issues no delete call
  for \<open>k\<close> and leaves the ledger so. A process that starts from a ledger file that holds
  the entry as it was issues no delete call in its catch-up pass and has the entry in its
  memory: the next watch callback that finds the record issues the call again.
\<close>

theorem C8_soft_delete:
  assumes "posts e (MsgId i) = Some r" "id_p r = MsgId i"
    and "running s" "liveEntry k m s" "m \<noteq> 0" "\<not> isTelegramSyncInProgress st"
    and "\<exists>p\<in>set (loadPosts d). id_p p = k" "seesDeleted k (Tick st d)"
    and "s' = bale_step nw s (Tick st d)"
    and "bale_tomb k t" "seesDeleted k ev"
    and "liveFile k m u"
  shows "posts (handleDeletedMessage i e) = (posts e)(MsgId i \<mapsto> r\<lparr>deleted := Some True\<rparr>)
       \<and> mediaDirs (handleDeletedMessage i e) = mediaDirs e - {i}
       \<and> (\<forall>n. mediaFiles (handleDeletedMessage i e) (MediaPath i n) = None)
       \<and> (exited s' = None \<longrightarrow>
            filter (isDeleteOf k) (since s s') = [DeleteMessage k m]
            \<and> bale_tomb k s' \<and> running s' \<and> k \<notin> fst ` set (dir s'))
       \<and> (exited s' \<noteq> None \<longrightarrow>
            exited s' = Some 1 \<and>
            (filter (isDeleteOf k) (since s s') = [] \<and> liveFile k m s'
             \<or> filter (isDeleteOf k) (since s s') = [DeleteMessage k m] \<and> tombFile k s'
             \<or> filter (isDeleteOf k) (since s s') = [DeleteMessage k m]
               \<and> (\<exists>pre. since s s' = pre @ DeleteMessage k m # fatalTail)
               \<and> nw (calls s' - 1) = Raises \<and> liveFile k m s'))
       \<and> filter (isDeleteOf k) (since t (bale_step nw t ev)) = []
       \<and> bale_tomb k (bale_step nw t ev)
       \<and> filter (isDeleteOf k) (since u (bale_step nw u (Start d'))) = []
       \<and> liveFile k m (bale_step nw u (Start d'))
       \<and> liveEntry k m (bale_step nw u (Start d'))"
proof -
  let ?s = "s\<lparr>dir := d\<rparr>"
  from assms(3,9) have step: "s' = bale_watchCycle nw st ?s" by (simp add: running_def)
  have live: "liveEntry k m ?s" using assms(4) by (simp add: liveEntry_def)
  from assms(8) have del: "\<forall>p\<in>set (loadPosts (dir ?s)). id_p p = k \<longrightarrow> truthy_bool (deleted p)"
    by (simp add: list_all_iff)
  from assms(7) have ex: "\<exists>p\<in>set (loadPosts (dir ?s)). id_p p = k" by simp
  from assms(3) have alive: "exited ?s = None" by (simp add: running_def)
  note c = bale_watchCycle_delete[OF live assms(5,6) del ex alive, of nw]
  have sn: "since s x = since ?s x" for x :: bale by (simp add: since_def)
  have A: "exited s' = None \<longrightarrow>
            filter (isDeleteOf k) (since s s') = [DeleteMessage k m]
            \<and> bale_tomb k s' \<and> running s' \<and> k \<notin> fst ` set (dir s')"
    using c(1) assms(3) unfolding step sn by (auto simp: bale_tomb_def running_def)
  have B: "exited s' \<noteq> None \<longrightarrow>
            exited s' = Some 1 \<and>
            (filter (isDeleteOf k) (since s s') = [] \<and> liveFile k m s'
             \<or> filter (isDeleteOf k) (since s s') = [DeleteMessage k m] \<and> tombFile k s'
             \<or> filter (isDeleteOf k) (since s s') = [DeleteMessage k m]
               \<and> (\<exists>pre. since s s' = pre @ DeleteMessage k m # fatalTail)
               \<and> nw (calls s' - 1) = Raises \<and> liveFile k m s')"
    using c(2) unfolding step sn by blast
  from bale_step_tomb(1)[OF assms(10,11), of nw]
  have C: "filter (isDeleteOf k) (since t (bale_step nw t ev)) = []"
    by (auto simp: noDelete_def since_def)
  note D = bale_step_tomb(2)[OF assms(10,11), of nw]
  from bale_start_live(1)[OF assms(12), of nw d']
  have E: "filter (isDeleteOf k) (since u (bale_step nw u (Start d'))) = []"
    by (auto simp: noDelete_def since_def)
  from bale_start_live(2,3)[OF assms(12), of nw d']
  have F: "liveFile k m (bale_step nw u (Start d'))" "liveEntry k m (bale_step nw u (Start d'))"
    by simp_all
  from handleDeletedMessage_marks[OF assms(1,2)] handleDeletedMessage_media[of i e]
  have G: "posts (handleDeletedMessage i e) = (posts e)(MsgId i \<mapsto> r\<lparr>deleted := Some True\<rparr>)"
    "mediaDirs (handleDeletedMessage i e) = mediaDirs e - {i}"
    "\<forall>n. mediaFiles (handleDeletedMessage i e) (MediaPath i n) = None" by simp_all
  from G A B C D E F show ?thesis by (intro conjI)
qed

lemma deleted_hyps:
  "posts engineLive (MsgId 1) = Some ((textPost 1 100 ''hello'')\<lparr>editDate := Some 1000\<rparr>)"
  "id_p ((textPost 1 100 ''hello'')\<lparr>editDate := Some 1000\<rparr>) = MsgId 1"
  "running baleDelivered" "liveEntry (MsgId 1) 555 baleDelivered" "(555::int) \<noteq> 0"
  "\<not> isTelegramSyncInProgress NoFile"
  "\<exists>p\<in>set (loadPosts dirDeleted). id_p p = MsgId 1"
  "seesDeleted (MsgId 1) (Tick NoFile dirDeleted)"
  by (simp_all add: engineLive_def engine0_def textPost_def running_def baleDelivered_def
      bale0_def liveEntry_def truthy_bool_def isTelegramSyncInProgress_def dirDeleted_def)

lemma deleted_hyps_later:
  "bale_tomb (MsgId 1) (bale_step allOk baleDelivered (Tick NoFile dirDeleted))"
  "liveFile (MsgId 1) 555 baleDelivered"
  by code_simp+

theorem C8_soft_delete_witness:
  "posts (handleDeletedMessage 1 engineLive) (MsgId 1)
     = Some ((textPost 1 100 ''hello'')\<lparr>editDate := Some 1000, deleted := Some True\<rparr>)
   \<and> mediaDirs (handleDeletedMessage 1 engineLive) = {}
   \<and> mediaFiles (handleDeletedMessage 1 engineLive) (MediaPath 1 (PhotoJpg 1)) = None
   \<and> exited (bale_step allOk baleDelivered (Tick NoFile dirDeleted)) = None
   \<and> filter (isDeleteOf (MsgId 1))
        (since baleDelivered (bale_step allOk baleDelivered (Tick NoFile dirDeleted)))
       = [DeleteMessage (MsgId 1) 555]
   \<and> MsgId 1 \<notin> fst ` set (dir (bale_step allOk baleDelivered (Tick NoFile dirDeleted)))
   \<and> filter (isDeleteOf (MsgId 1))
        (since (bale_step allOk baleDelivered (Tick NoFile dirDeleted))
           (bale_step allOk (bale_step allOk baleDelivered (Tick NoFile dirDeleted))
              (Tick NoFile dirDeleted))) = []
   \<and> liveEntry (MsgId 1) 555 (bale_step allOk baleDelivered (Start dirDeleted))"
proof -
  have x: "exited (bale_step allOk baleDelivered (Tick NoFile dirDeleted)) = None"
    by code_simp
  from C8_soft_delete[OF deleted_hyps refl deleted_hyps_later(1) deleted_hyps(8)
      deleted_hyps_later(2), of allOk dirDeleted] x
  show ?thesis by (simp add: engineLive_def engine0_def)
qed

text \<open>
  The claim as stated fails. When the delete call raises, the process exits before the
  ledger is updated, and the next process, which finds the record still in the
  directory, issues the call a second time.
\<close>

theorem C8_counterexample:
  "since baleDelivered
     (bale_step (failAt 0)
        (bale_step (failAt 0) (bale_step (failAt 0) baleDelivered (Tick NoFile dirDeleted))
           (Start dirDeleted))
        (Tick NoFile dirDeleted))
     = [ReadStatus, ReadDir, ReadPost (MsgId 1), DeleteMessage (MsgId 1) 555,
        ClearInterval, SaveProcessed, ProcessExit 1,
        ReadDir, ReadPost (MsgId 1),
        ReadStatus, ReadDir, ReadPost (MsgId 1), DeleteMessage (MsgId 1) 555,
        SaveProcessed, UnlinkPost (MsgId 1)]"
  by code_simp

section \<open>Deletes and failures when callbacks overlap\<close>

text \<open>
  What is shown of a callback that runs alone does not carry over to callbacks that
  overlap. The second of two overlapping callbacks issues the delete call for post 1
  while the first waits for the answer to the same call. And a callback that still waits
  at the head of its loop when another one catches an exception sends its record between
  the \<open>saveProcessedPosts\<close> and the \<open>process.exit(1)\<close> of that \<open>catch\<close>; nothing it waits
  for is resumed after the exit.
\<close>

lemma overlapping_callbacks_delete_twice:
  "trace (fst (bale_overlap allOk overlapDeleted (baleDelivered, [])))
     = [ReadStatus, ReadDir, ReadPost (MsgId 1), DeleteMessage (MsgId 1) 555,
        ReadStatus, ReadDir, ReadPost (MsgId 1), DeleteMessage (MsgId 1) 555,
        SaveProcessed, UnlinkPost (MsgId 1), SaveProcessed, UnlinkPost (MsgId 1)]
   \<and> snd (bale_overlap allOk overlapDeleted (baleDelivered, [])) = [Finished, Finished]"
  by code_simp

lemma overlapping_callback_sends_after_failure:
  "trace (fst (bale_overlap (failAt 0) overlapFailing (baleWatching, [])))
     = [ReadStatus, ReadDir, ReadPost (MsgId 1),
        Syncing (textPost 1 100 ''hello''), SendMessage (textPost 1 100 ''hello''),
        ReadStatus, ReadDir, ReadPost (MsgId 1),
        ClearInterval, SaveProcessed,
        Syncing (textPost 1 100 ''hello''), SendMessage (textPost 1 100 ''hello''),
        ProcessExit 1]
   \<and> snd (bale_overlap (failAt 0) overlapFailing (baleWatching, []))
     = [Finished, Await_sendMessage (textPost 1 100 ''hello'') [] (Returns (Some (Some 1001)))]
   \<and> exited (fst (bale_overlap (failAt 0) overlapFailing (baleWatching, []))) = Some 1"
  by code_simp

end
